theory Spec2Isabelle
  imports Complex_Main "HOL-Library.Word" "HOL-Library.Multiset" "HOL-Library.Product_Lexorder"
  "HOL-Library.Sublist"
begin

section \<open>Common SQL values\<close>

text \<open>
  A \<open>uuid\<close> is a 128-bit value; PostgreSQL compares uuids as unsigned
  big-endian byte strings, which is the unsigned order on the word.
  A \<open>timestamptz\<close> is a count of microseconds since the Unix epoch.
  A nullable column or argument is an \<open>option\<close>.
\<close>

type_synonym uuid = "128 word"
type_synonym timestamptz = int

datatype pg_error =
    RaiseException string
  | IntegerOutOfRange
  | RlsViolation
  | CheckViolation
  | UniqueViolation
  | ForeignKeyViolation

definition coalesce :: "'a option \<Rightarrow> 'a \<Rightarrow> 'a" where
  "coalesce v d = (case v of None \<Rightarrow> d | Some x \<Rightarrow> x)"

definition greatest :: "int \<Rightarrow> int \<Rightarrow> int" where
  "greatest a b = max a b"

definition least :: "int \<Rightarrow> int \<Rightarrow> int" where
  "least a b = min a b"

text \<open>SQL \<open>trim(text)\<close> removes spaces at both ends.\<close>

definition pg_trim :: "string \<Rightarrow> string" where
  "pg_trim s = rev (dropWhile (\<lambda>c. c = CHR '' '') (rev (dropWhile (\<lambda>c. c = CHR '' '') s)))"

text \<open>\<open>integer + integer\<close> raises "integer out of range" outside 32 bits.\<close>

definition int4pl :: "int \<Rightarrow> int \<Rightarrow> pg_error + int" where
  "int4pl a b =
     (if a + b > 2147483647 \<or> a + b < - 2147483648 then Inl IntegerOutOfRange
      else Inr (a + b))"

text \<open>
  \<open>extract(epoch from t)\<close> is the exact number of seconds, \<open>to_timestamp\<close> its
  inverse on whole seconds, \<open>make_interval(secs => n)\<close> a span of \<open>n\<close> seconds.
\<close>

definition extract_epoch :: "int \<Rightarrow> rat" where
  "extract_epoch t = of_int t / 1000000"

definition to_timestamp :: "int \<Rightarrow> timestamptz" where
  "to_timestamp secs = secs * 1000000"

definition make_interval_secs :: "int \<Rightarrow> int" where
  "make_interval_secs n = n * 1000000"

section \<open>Rate limit store\<close>

record rate_limit_bucket =
  bucket_key :: string
  window_started_at :: timestamptz
  window_seconds :: int
  request_count :: int
  window_ends_at :: timestamptz
  expires_at :: timestamptz
  updated_at :: timestamptz

text \<open>The table \<open>rate_limit_buckets\<close>: its rows, \<open>bucket_key\<close> being the primary key.\<close>

type_synonym rate_limit_buckets = "rate_limit_bucket list"

definition buckets_pkey :: "rate_limit_buckets \<Rightarrow> bool" where
  "buckets_pkey tbl = distinct (map bucket_key tbl)"

definition bucket_row :: "rate_limit_buckets \<Rightarrow> string \<Rightarrow> rate_limit_bucket option" where
  "bucket_row tbl k = find (\<lambda>rl. bucket_key rl = k) tbl"

subsection \<open>\<open>rate_limit_cleanup_expired\<close>\<close>

definition rate_limit_cleanup_expired ::
  "timestamptz \<Rightarrow> int option \<Rightarrow> rate_limit_buckets \<Rightarrow> int \<times> rate_limit_buckets" where
  "rate_limit_cleanup_expired now_utc p_max_rows tbl =
     (let v_limit = greatest 1 (least (coalesce p_max_rows 500) 5000);
          expired = map bucket_key
            (take (nat v_limit) (sort_key expires_at (filter (\<lambda>b. expires_at b < now_utc) tbl)));
          kept = filter (\<lambda>b. bucket_key b \<notin> set expired) tbl
      in (int (length tbl) - int (length kept), kept))"

subsection \<open>\<open>rate_limit_consume\<close>\<close>

text \<open>
  The \<open>do update set\<close> clause of the upsert: \<open>rl\<close> is the stored row,
  \<open>excluded\<close> the row proposed for insertion.
\<close>

definition on_conflict_do_update ::
  "rate_limit_bucket \<Rightarrow> rate_limit_bucket \<Rightarrow> pg_error + rate_limit_bucket" where
  "on_conflict_do_update rl excluded =
     (case (if window_started_at rl = window_started_at excluded
               \<and> window_seconds rl = window_seconds excluded
            then int4pl (request_count rl) 1
            else Inr 1) of
        Inl e \<Rightarrow> Inl e
      | Inr cnt \<Rightarrow> Inr (rl\<lparr>
          request_count := cnt,
          window_started_at := window_started_at excluded,
          window_seconds := window_seconds excluded,
          window_ends_at := window_ends_at excluded,
          expires_at := expires_at excluded,
          updated_at := updated_at excluded\<rparr>))"

text \<open>
  \<open>insert ... on conflict (bucket_key) do update ... returning\<close>, one statement:
  the row written and the new table.
\<close>

fun insert_on_conflict ::
  "rate_limit_bucket \<Rightarrow> rate_limit_buckets \<Rightarrow> pg_error + (rate_limit_bucket \<times> rate_limit_buckets)" where
  "insert_on_conflict excluded [] = Inr (excluded, [excluded])"
| "insert_on_conflict excluded (rl # tbl) =
     (if bucket_key rl = bucket_key excluded
      then (case on_conflict_do_update rl excluded of
              Inl e \<Rightarrow> Inl e
            | Inr rl' \<Rightarrow> Inr (rl', rl' # tbl))
      else (case insert_on_conflict excluded tbl of
              Inl e \<Rightarrow> Inl e
            | Inr (w, tbl') \<Rightarrow> Inr (w, rl # tbl')))"

record consume_row =
  allowed :: bool
  remaining :: int
  retry_after_seconds :: int
  out_window_ends_at :: timestamptz

text \<open>
  The function body. \<open>now_utc\<close> is \<open>timezone('utc', now())\<close> of the transaction and
  \<open>random_hit\<close> the outcome of \<open>random() < 0.02\<close>. An exception aborts the
  transaction, so an error carries no table.
\<close>

definition rate_limit_consume ::
  "timestamptz \<Rightarrow> bool \<Rightarrow> string option \<Rightarrow> int option \<Rightarrow> int option \<Rightarrow> rate_limit_buckets
     \<Rightarrow> pg_error + (consume_row \<times> rate_limit_buckets)" where
  "rate_limit_consume now_utc random_hit p_bucket_key p_max_requests p_window_seconds tbl =
     (let v_key = pg_trim (coalesce p_bucket_key '''');
          v_now = now_utc;
          v_window_seconds = greatest 1 (least (coalesce p_window_seconds 1) 86400);
          v_max_requests = greatest 1 (least (coalesce p_max_requests 1) 100000)
      in if v_key = '''' then Inl (RaiseException ''rate_limit_consume requires a non-empty key'')
         else
           let v_window_started_at = to_timestamp
                 (\<lfloor>extract_epoch v_now / of_int v_window_seconds\<rfloor> * v_window_seconds);
               v_window_ends_at = v_window_started_at + make_interval_secs v_window_seconds;
               v_expires_at = v_window_ends_at + make_interval_secs (greatest v_window_seconds 600)
           in case insert_on_conflict
                  \<lparr>bucket_key = v_key,
                   window_started_at = v_window_started_at,
                   window_seconds = v_window_seconds,
                   request_count = 1,
                   window_ends_at = v_window_ends_at,
                   expires_at = v_expires_at,
                   updated_at = v_now\<rparr> tbl of
                Inl e \<Rightarrow> Inl e
              | Inr (rl, tbl1) \<Rightarrow>
                  let v_request_count = request_count rl;
                      v_window_ends_at = window_ends_at rl;
                      tbl2 = (if random_hit
                              then snd (rate_limit_cleanup_expired now_utc (Some 200) tbl1)
                              else tbl1);
                      is_allowed = (v_request_count \<le> v_max_requests)
                  in Inr (\<lparr>allowed = is_allowed,
                           remaining = greatest (v_max_requests - v_request_count) 0,
                           retry_after_seconds =
                             (if is_allowed then 0
                              else greatest 1 \<lceil>extract_epoch (v_window_ends_at - v_now)\<rceil>),
                           out_window_ends_at = v_window_ends_at\<rparr>, tbl2))"

subsection \<open>The contract of \<open>consume\<close>\<close>

text \<open>
  The quantities the contract names: the two clamps and the canonical window start
  \<open>floor(now_epoch / window_seconds) * window_seconds\<close>, here in microseconds.
\<close>

definition clamp_window_seconds :: "int option \<Rightarrow> int" where
  "clamp_window_seconds p = max 1 (min (coalesce p 1) 86400)"

definition clamp_max_requests :: "int option \<Rightarrow> int" where
  "clamp_max_requests p = max 1 (min (coalesce p 1) 100000)"

definition canonical_window_start :: "timestamptz \<Rightarrow> int \<Rightarrow> timestamptz" where
  "canonical_window_start now_utc w =
     \<lfloor>(of_int now_utc / 1000000 :: rat) / of_int w\<rfloor> * w * 1000000"

subsection \<open>Concurrent callers\<close>

text \<open>
  \<open>rate_limit_consume\<close> issues at most two statements: the upsert with its
  \<open>returning\<close> clause and, when the random draw hits, the cleanup; the row it returns
  is computed from the row the upsert returned. Each statement is atomic at the storage
  layer; the statements of concurrent calls interleave in any order that keeps each
  call's own order.
\<close>

datatype statement =
    InsertOnConflict rate_limit_bucket
  | CleanupExpired timestamptz "int option"

text \<open>A statement on the table: the row its \<open>returning\<close> clause gives back, if any.\<close>

fun exec_statement ::
  "statement \<Rightarrow> rate_limit_buckets \<Rightarrow> pg_error + (rate_limit_bucket option \<times> rate_limit_buckets)" where
  "exec_statement (InsertOnConflict excluded) tbl =
     (case insert_on_conflict excluded tbl of
        Inl e \<Rightarrow> Inl e
      | Inr (rl, tbl') \<Rightarrow> Inr (Some rl, tbl'))"
| "exec_statement (CleanupExpired now_utc p_max_rows) tbl =
     Inr (None, snd (rate_limit_cleanup_expired now_utc p_max_rows tbl))"

text \<open>The statements one call of \<open>rate_limit_consume\<close> issues, in order.\<close>

definition consume_statements ::
  "timestamptz \<Rightarrow> bool \<Rightarrow> string option \<Rightarrow> int option \<Rightarrow> statement list" where
  "consume_statements now_utc random_hit p_bucket_key p_window_seconds =
     (let v_key = pg_trim (coalesce p_bucket_key '''');
          v_now = now_utc;
          v_window_seconds = greatest 1 (least (coalesce p_window_seconds 1) 86400)
      in if v_key = '''' then []
         else
           let v_window_started_at = to_timestamp
                 (\<lfloor>extract_epoch v_now / of_int v_window_seconds\<rfloor> * v_window_seconds);
               v_window_ends_at = v_window_started_at + make_interval_secs v_window_seconds;
               v_expires_at = v_window_ends_at + make_interval_secs (greatest v_window_seconds 600)
           in InsertOnConflict
                  \<lparr>bucket_key = v_key,
                   window_started_at = v_window_started_at,
                   window_seconds = v_window_seconds,
                   request_count = 1,
                   window_ends_at = v_window_ends_at,
                   expires_at = v_expires_at,
                   updated_at = v_now\<rparr>
              # (if random_hit then [CleanupExpired now_utc (Some 200)] else []))"

text \<open>
  The row a call returns, from the row \<open>rl\<close> that its upsert returned into
  \<open>v_request_count\<close> and \<open>v_window_ends_at\<close>.
\<close>

definition consume_return :: "timestamptz \<Rightarrow> int option \<Rightarrow> rate_limit_bucket \<Rightarrow> consume_row" where
  "consume_return now_utc p_max_requests rl =
     (let v_now = now_utc;
          v_max_requests = greatest 1 (least (coalesce p_max_requests 1) 100000);
          v_request_count = request_count rl;
          v_window_ends_at = window_ends_at rl;
          is_allowed = (v_request_count \<le> v_max_requests)
      in \<lparr>allowed = is_allowed,
          remaining = greatest (v_max_requests - v_request_count) 0,
          retry_after_seconds =
            (if is_allowed then 0
             else greatest 1 \<lceil>extract_epoch (v_window_ends_at - v_now)\<rceil>),
          out_window_ends_at = v_window_ends_at\<rparr>)"

text \<open>
  A call is its time, its random draw and its \<open>p_max_requests\<close>; the calls of a run
  share \<open>p_bucket_key\<close> and \<open>p_window_seconds\<close>. A schedule lists statements, each
  with the number of the call that issues it. Running a schedule gives, in the order of
  execution, the rows returned and the calls they are returned to.
\<close>

type_synonym consume_call = "timestamptz \<times> bool \<times> int option"

fun exec_schedule ::
  "(nat \<times> statement) list \<Rightarrow> rate_limit_buckets
     \<Rightarrow> pg_error + ((nat \<times> rate_limit_bucket) list \<times> rate_limit_buckets)" where
  "exec_schedule [] tbl = Inr ([], tbl)"
| "exec_schedule ((c, s) # ss) tbl =
     (case exec_statement s tbl of
        Inl e \<Rightarrow> Inl e
      | Inr (returned, tbl1) \<Rightarrow>
          (case exec_schedule ss tbl1 of
             Inl e \<Rightarrow> Inl e
           | Inr (obs, tbl') \<Rightarrow>
               Inr ((case returned of None \<Rightarrow> [] | Some rl \<Rightarrow> [(c, rl)]) @ obs, tbl')))"

definition concurrent_statements ::
  "string option \<Rightarrow> int option \<Rightarrow> consume_call list \<Rightarrow> (nat \<times> statement) list list" where
  "concurrent_statements p_bucket_key p_window_seconds calls =
     map (\<lambda>(c, now_utc, random_hit, p_max_requests).
            map (Pair c) (consume_statements now_utc random_hit p_bucket_key p_window_seconds))
       (enumerate 0 calls)"

text \<open>
  \<open>interleaving xss ys\<close>: \<open>ys\<close> merges the lists \<open>xss\<close>, each in its own order.
\<close>

inductive interleaving :: "'a list list \<Rightarrow> 'a list \<Rightarrow> bool" where
  interleaving_Nil: "\<forall>xs \<in> set xss. xs = [] \<Longrightarrow> interleaving xss []"
| interleaving_Cons: "i < length xss \<Longrightarrow> xss ! i = x # xs \<Longrightarrow> interleaving (xss[i := xs]) ys
           \<Longrightarrow> interleaving xss (x # ys)"

text \<open>
  The same calls one after the other, each a whole run of \<open>rate_limit_consume\<close>: the
  rows they return.
\<close>

fun consume_serially ::
  "string option \<Rightarrow> int option \<Rightarrow> consume_call list \<Rightarrow> rate_limit_buckets
     \<Rightarrow> pg_error + (consume_row list \<times> rate_limit_buckets)" where
  "consume_serially p_bucket_key p_window_seconds [] tbl = Inr ([], tbl)"
| "consume_serially p_bucket_key p_window_seconds ((now_utc, random_hit, p_max_requests) # calls) tbl =
     (case rate_limit_consume now_utc random_hit p_bucket_key p_max_requests p_window_seconds tbl of
        Inl e \<Rightarrow> Inl e
      | Inr (res, tbl1) \<Rightarrow>
          (case consume_serially p_bucket_key p_window_seconds calls tbl1 of
             Inl e \<Rightarrow> Inl e
           | Inr (ress, tbl') \<Rightarrow> Inr (res # ress, tbl')))"

text \<open>
  Bookkeeping: the row of key \<open>k\<close> in the window \<open>(ws, w)\<close> after \<open>n\<close> requests, the
  last one at \<open>t\<close>; a table whose window has counted \<open>n\<close> requests, the last at \<open>t\<close>;
  and the number of upserts in a schedule.
\<close>

definition window_row :: "string \<Rightarrow> timestamptz \<Rightarrow> int \<Rightarrow> timestamptz \<Rightarrow> nat \<Rightarrow> rate_limit_bucket" where
  "window_row k ws w t n =
     \<lparr>bucket_key = k, window_started_at = ws, window_seconds = w, request_count = int n,
      window_ends_at = ws + w * 1000000,
      expires_at = ws + w * 1000000 + max w 600 * 1000000,
      updated_at = t\<rparr>"

definition window_state ::
  "string \<Rightarrow> timestamptz \<Rightarrow> int \<Rightarrow> nat \<Rightarrow> timestamptz \<Rightarrow> rate_limit_buckets \<Rightarrow> bool" where
  "window_state k ws w n t tbl =
     (buckets_pkey tbl
      \<and> (if n = 0
          then (case bucket_row tbl k of
                  None \<Rightarrow> True
                | Some rl \<Rightarrow> \<not> (window_started_at rl = ws \<and> window_seconds rl = w))
          else bucket_row tbl k = Some (window_row k ws w t n)))"

definition upserts :: "(nat \<times> statement) list \<Rightarrow> nat" where
  "upserts ss =
     length (filter (\<lambda>(c, s). case s of InsertOnConflict _ \<Rightarrow> True | _ \<Rightarrow> False) ss)"

text \<open>
  Three calls on the key \<open>k\<close> with a window of 60 seconds and at most 2 requests, at the
  seconds 125, 130 and 140; the second draws the cleanup. In \<open>example_schedule\<close> the
  second call upserts first, then the first, and the cleanup of the second call runs
  before the upsert of the third.
\<close>

definition example_calls :: "consume_call list" where
  "example_calls = [(125000000, False, Some 2), (130000000, True, Some 2), (140000000, False, Some 2)]"

definition example_schedule :: "(nat \<times> statement) list" where
  "example_schedule =
     [(1, InsertOnConflict (window_row ''k'' 120000000 60 130000000 1)),
      (0, InsertOnConflict (window_row ''k'' 120000000 60 125000000 1)),
      (1, CleanupExpired 130000000 (Some 200)),
      (2, InsertOnConflict (window_row ''k'' 120000000 60 140000000 1))]"

section \<open>Rate limiter (policy layer)\<close>

text \<open>
  JavaScript strings are modelled as lists of 8-bit code units; \<open>trim\<close> removes the
  white space among them and \<open>toLowerCase\<close> maps \<open>A\<close>..\<open>Z\<close> and the capital letters
  of Latin-1 (192..214 and 216..222) to the letter 32 places up. Numbers of a rule are
  rationals, so that \<open>Math.floor\<close> has something to do. A thrown exception is a
  value: \<open>Error\<close> with its message, or \<open>RateLimitExceededError\<close> with its
  \<open>retryAfterSeconds\<close>.
\<close>

datatype js_error =
    Error string
  | RateLimitExceededError int

record RateLimitRule =
  maxRequests :: rat
  windowMs :: rat

record DurableRateLimitTarget =
  scope :: string
  target_identifier :: string
  rule :: RateLimitRule
  hashIdentifier :: "bool option"

record EnforceDurableRateLimitOptions =
  action :: string
  targets :: "DurableRateLimitTarget list"

record ConsumeResult =
  result_allowed :: bool
  retryAfterSeconds :: int

definition js_is_space :: "char \<Rightarrow> bool" where
  "js_is_space c = ((of_char c :: nat) \<in> {9, 10, 11, 12, 13, 32, 160})"

definition js_trim :: "string \<Rightarrow> string" where
  "js_trim s = rev (dropWhile js_is_space (rev (dropWhile js_is_space s)))"

definition js_toLowerCase :: "string \<Rightarrow> string" where
  "js_toLowerCase s =
     map (\<lambda>c. let n = (of_char c :: nat)
              in if (65 \<le> n \<and> n \<le> 90) \<or> (192 \<le> n \<and> n \<le> 214) \<or> (216 \<le> n \<and> n \<le> 222)
                 then char_of (n + 32) else c) s"

text \<open>The character class \<open>[a-z0-9:._-]\<close>.\<close>

definition key_char :: "char \<Rightarrow> bool" where
  "key_char c =
     (let n = (of_char c :: nat)
      in (97 \<le> n \<and> n \<le> 122) \<or> (48 \<le> n \<and> n \<le> 57)
         \<or> c = CHR '':'' \<or> c = CHR ''.'' \<or> c = CHR ''_'' \<or> c = CHR ''-'')"

definition normalizeRule :: "RateLimitRule \<Rightarrow> int \<times> int" where
  "normalizeRule r =
     (let maxRequests' = max 1 \<lfloor>maxRequests r\<rfloor>;
          windowMs' = max 1000 \<lfloor>windowMs r\<rfloor>
      in (maxRequests', max 1 \<lfloor>(of_int windowMs' :: rat) / 1000\<rfloor>))"

definition normalizeKeyPart :: "string \<Rightarrow> string \<Rightarrow> string" where
  "normalizeKeyPart v fallback =
     (let normalized = map (\<lambda>c. if key_char c then c else CHR ''_'') (js_toLowerCase (js_trim v))
      in if length normalized > 0 then take 160 normalized else fallback)"

text \<open>\<open>sha256_hex\<close> stands for \<open>createHash("sha256").update(s).digest("hex")\<close>.\<close>

definition toHashedKeyPart :: "(string \<Rightarrow> string) \<Rightarrow> string \<Rightarrow> string" where
  "toHashedKeyPart sha256_hex v =
     (let normalized = js_toLowerCase (js_trim v)
      in if normalized = [] then ''unknown'' else take 48 (sha256_hex normalized))"

subsection \<open>The backend as the limiter sees it\<close>

text \<open>
  The backend holds the bucket table; \<open>rpc_log\<close> records every
  \<open>rate_limit_consume\<close> request sent, with its arguments. For one request,
  \<open>transport_error\<close> is the message of a failure to reach the function (network,
  credentials, permissions), \<open>rpc_now\<close> the time of its transaction and
  \<open>rpc_random_hit\<close> its random draw.
\<close>

record backend =
  buckets :: rate_limit_buckets
  rpc_log :: "(string \<times> int \<times> int) list"

record rpc_env =
  transport_error :: "string option"
  rpc_now :: timestamptz
  rpc_random_hit :: bool

record js_env =
  service_credentials :: bool
  node_env_production :: bool

datatype rpc_response =
    RpcError string
  | RpcData "consume_row list"

definition pg_error_message :: "pg_error \<Rightarrow> string" where
  "pg_error_message e =
     (case e of
        RaiseException m \<Rightarrow> m
      | IntegerOutOfRange \<Rightarrow> ''integer out of range''
      | RlsViolation \<Rightarrow> ''new row violates row-level security policy''
      | CheckViolation \<Rightarrow> ''new row violates check constraint''
      | UniqueViolation \<Rightarrow> ''duplicate key value violates unique constraint''
      | ForeignKeyViolation \<Rightarrow> ''violates foreign key constraint'')"

text \<open>
  The parameters \<open>p_max_requests\<close> and \<open>p_window_seconds\<close> of the SQL function are
  32-bit \<open>integer\<close>: a request with a number outside that range is answered with an
  error and the function does not run.
\<close>

definition int4_range :: "int \<Rightarrow> bool" where
  "int4_range n = (- 2147483648 \<le> n \<and> n \<le> 2147483647)"

definition client_rpc ::
  "rpc_env \<Rightarrow> string \<Rightarrow> int \<Rightarrow> int \<Rightarrow> backend \<Rightarrow> rpc_response \<times> backend" where
  "client_rpc env p_bucket_key p_max_requests p_window_seconds b =
     (let b1 = b\<lparr>rpc_log := rpc_log b @ [(p_bucket_key, p_max_requests, p_window_seconds)]\<rparr>
      in case transport_error env of
           Some msg \<Rightarrow> (RpcError msg, b1)
         | None \<Rightarrow>
             if \<not> (int4_range p_max_requests \<and> int4_range p_window_seconds)
             then (RpcError ''value is out of range for type integer'', b1)
             else
               (case rate_limit_consume (rpc_now env) (rpc_random_hit env)
                       (Some p_bucket_key) (Some p_max_requests) (Some p_window_seconds)
                       (buckets b1) of
                  Inl e \<Rightarrow> (RpcError (pg_error_message e), b1)
                | Inr (row, tbl') \<Rightarrow> (RpcData [row], b1\<lparr>buckets := tbl'\<rparr>)))"

definition asConsumeRow :: "consume_row list \<Rightarrow> consume_row option" where
  "asConsumeRow rows = (case rows of [] \<Rightarrow> None | row # _ \<Rightarrow> Some row)"

definition consumeBucket ::
  "js_env \<Rightarrow> rpc_env \<Rightarrow> string \<Rightarrow> RateLimitRule \<Rightarrow> backend \<Rightarrow> (js_error + ConsumeResult) \<times> backend" where
  "consumeBucket js env bucketKey r b =
     (if \<not> service_credentials js
      then (Inl (Error ''Missing SUPABASE_URL and/or SUPABASE_SERVICE_ROLE_KEY.''), b)
      else
        let normalizedRule = normalizeRule r
        in case client_rpc env bucketKey (fst normalizedRule) (snd normalizedRule) b of
             (RpcError message, b') \<Rightarrow>
               (let baseMessage = ''Rate-limit backend unavailable.''
                in if \<not> node_env_production js
                   then (let detail = (if message \<noteq> [] then '' '' @ message else [])
                         in (Inl (Error (js_trim (baseMessage @ detail))), b'))
                   else (Inl (Error baseMessage), b'))
           | (RpcData rows, b') \<Rightarrow>
               (case asConsumeRow rows of
                  None \<Rightarrow> (Inl (Error ''Invalid rate-limit backend response.''), b')
                | Some row \<Rightarrow>
                    (Inr \<lparr>result_allowed = allowed row,
                          retryAfterSeconds = max 0 (retry_after_seconds row)\<rparr>, b')))"

definition new_RateLimitExceededError :: "int \<Rightarrow> js_error" where
  "new_RateLimitExceededError secs = RateLimitExceededError (max 1 secs)"

text \<open>
  \<open>Promise.all\<close>: the values in order when every promise is fulfilled, else the
  reason of the promise that rejects first; \<open>settle_order\<close> lists the indices in
  the order in which the promises settle.
\<close>

definition promise_all :: "nat list \<Rightarrow> (js_error + 'a) list \<Rightarrow> js_error + 'a list" where
  "promise_all settle_order ps =
     (case filter (\<lambda>i. i < length ps \<and> isl (ps ! i)) settle_order of
        i # _ \<Rightarrow> Inl (projl (ps ! i))
      | [] \<Rightarrow>
          (case filter isl ps of
             p # _ \<Rightarrow> Inl (projl p)
           | [] \<Rightarrow> Inr (map projr ps)))"

text \<open>
  \<open>targets.map(target => consumeBucket(key, target.rule))\<close>: the requests leave in
  list order, the \<open>i\<close>-th under \<open>envs i\<close>; the normalised targets are triples
  (scope, identifier, rule).
\<close>

fun consumeBuckets ::
  "js_env \<Rightarrow> (nat \<Rightarrow> rpc_env) \<Rightarrow> nat \<Rightarrow> string \<Rightarrow> (string \<times> string \<times> RateLimitRule) list \<Rightarrow> backend
     \<Rightarrow> (js_error + ConsumeResult) list \<times> backend" where
  "consumeBuckets js envs i act [] b = ([], b)"
| "consumeBuckets js envs i act ((sc, ident, r) # ts) b =
     (let (p, b1) = consumeBucket js (envs i) (''rl:'' @ act @ '':'' @ sc @ '':'' @ ident) r b;
          (ps, b2) = consumeBuckets js envs (Suc i) act ts b1
      in (p # ps, b2))"

definition normalize_targets ::
  "(string \<Rightarrow> string) \<Rightarrow> DurableRateLimitTarget list \<Rightarrow> (string \<times> string \<times> RateLimitRule) list" where
  "normalize_targets sha256_hex ts =
     filter (\<lambda>(sc, ident, r). length ident > 0)
       (map (\<lambda>target.
               (normalizeKeyPart (scope target) ''scope'',
                (if hashIdentifier target = Some True
                 then toHashedKeyPart sha256_hex (target_identifier target)
                 else normalizeKeyPart (target_identifier target) ''unknown''),
                rule target)) ts)"

definition enforceDurableRateLimit ::
  "(string \<Rightarrow> string) \<Rightarrow> js_env \<Rightarrow> (nat \<Rightarrow> rpc_env) \<Rightarrow> nat list
     \<Rightarrow> EnforceDurableRateLimitOptions \<Rightarrow> backend \<Rightarrow> (js_error + unit) \<times> backend" where
  "enforceDurableRateLimit sha256_hex js envs settle_order options b =
     (let action' = normalizeKeyPart (action options) ''action'';
          targets' = normalize_targets sha256_hex (targets options)
      in if length targets' = 0 then (Inr (), b)
         else
           let (promises, b') = consumeBuckets js envs 0 action' targets' b
           in case promise_all settle_order promises of
                Inl e \<Rightarrow> (Inl e, b')
              | Inr results \<Rightarrow>
                  (let blocked = filter (\<lambda>result. \<not> result_allowed result) results
                   in if length blocked = 0 then (Inr (), b')
                      else
                        let retryAfterSeconds' =
                              foldl (\<lambda>maxSeconds result. max maxSeconds (retryAfterSeconds result))
                                1 blocked
                        in (Inl (new_RateLimitExceededError retryAfterSeconds'), b')))"

subsection \<open>What the store is asked and what it answers\<close>

text \<open>
  The request that belongs to a normalised target under an action: the key
  \<open>rl:action:scope:identifier\<close> and the normalised rule. \<open>store_replies\<close> puts a list
  of requests to the store one after the other, the \<open>i\<close>-th under \<open>envs i\<close>, and
  collects the answers.
\<close>

definition bucket_request :: "string \<Rightarrow> string \<times> string \<times> RateLimitRule \<Rightarrow> string \<times> int \<times> int" where
  "bucket_request act t =
     (case t of (sc, ident, r) \<Rightarrow>
        (''rl:'' @ act @ '':'' @ sc @ '':'' @ ident, fst (normalizeRule r), snd (normalizeRule r)))"

fun store_replies ::
  "(nat \<Rightarrow> rpc_env) \<Rightarrow> nat \<Rightarrow> (string \<times> int \<times> int) list \<Rightarrow> backend
     \<Rightarrow> rpc_response list \<times> backend" where
  "store_replies envs i [] b = ([], b)"
| "store_replies envs i ((k, m, w) # reqs) b =
     (let (resp, b1) = client_rpc (envs i) k m w b;
          (resps, b2) = store_replies envs (Suc i) reqs b1
      in (resp # resps, b2))"

definition reply_rows :: "rpc_response \<Rightarrow> consume_row list" where
  "reply_rows resp = (case resp of RpcData rows \<Rightarrow> rows | RpcError msg \<Rightarrow> [])"

subsection \<open>An example call\<close>

text \<open>
  A call with three targets at second 125: the user bucket (1 per minute) already
  counts one request of the current minute, the address bucket (2 per hour) two of the
  current hour, and the device, whose identifier is hashed, has no bucket yet.
  \<open>example_envs_unreachable\<close> loses the request of the second target on the way.
\<close>

definition example_sha256_hex :: "string \<Rightarrow> string" where
  "example_sha256_hex s = replicate 64 (CHR ''0'')"

definition example_js_env :: js_env where
  "example_js_env = \<lparr>service_credentials = True, node_env_production = True\<rparr>"

definition example_options :: EnforceDurableRateLimitOptions where
  "example_options =
     \<lparr>action = ''moveVehicle'',
      targets =
        [\<lparr>scope = ''user'', target_identifier = '' U 1 '',
           rule = \<lparr>maxRequests = 1, windowMs = 60000\<rparr>, hashIdentifier = None\<rparr>,
         \<lparr>scope = ''ip'', target_identifier = ''10.0.0.1'',
           rule = \<lparr>maxRequests = 2, windowMs = 3600000\<rparr>, hashIdentifier = Some False\<rparr>,
         \<lparr>scope = ''device'', target_identifier = ''D'',
           rule = \<lparr>maxRequests = 5, windowMs = 60000\<rparr>, hashIdentifier = Some True\<rparr>]\<rparr>"

definition example_backend :: backend where
  "example_backend =
     \<lparr>buckets =
        [\<lparr>bucket_key = ''rl:movevehicle:user:u_1'', window_started_at = 120000000,
           window_seconds = 60, request_count = 1, window_ends_at = 180000000,
           expires_at = 780000000, updated_at = 121000000\<rparr>,
         \<lparr>bucket_key = ''rl:movevehicle:ip:10.0.0.1'', window_started_at = 0,
           window_seconds = 3600, request_count = 2, window_ends_at = 3600000000,
           expires_at = 7200000000, updated_at = 100000000\<rparr>],
      rpc_log = []\<rparr>"

definition example_envs :: "nat \<Rightarrow> rpc_env" where
  "example_envs i = \<lparr>transport_error = None, rpc_now = 125000000, rpc_random_hit = False\<rparr>"

definition example_envs_unreachable :: "nat \<Rightarrow> rpc_env" where
  "example_envs_unreachable i =
     \<lparr>transport_error = (if i = 1 then Some ''fetch failed'' else None),
      rpc_now = 125000000, rpc_random_hit = False\<rparr>"

definition example_requests :: "(string \<times> int \<times> int) list" where
  "example_requests =
     [(''rl:movevehicle:user:u_1'', 1, 60),
      (''rl:movevehicle:ip:10.0.0.1'', 2, 3600),
      (''rl:movevehicle:device:000000000000000000000000000000000000000000000000'', 5, 60)]"

section \<open>Entity tables\<close>

text \<open>
  The four entity tables, each a list of rows. Only the columns that a policy, a view
  or a function below reads or writes are kept; the descriptive columns (name, title,
  caption and the like) take no part in them.
\<close>

record profile =
  p_id :: uuid
  username :: "string option"

record vehicle =
  v_id :: uuid
  v_profile_id :: uuid
  is_public :: bool
  v_sort_order :: int
  v_created_at :: timestamptz
  v_updated_at :: timestamptz

record mod_row =
  m_id :: uuid
  m_vehicle_id :: uuid
  m_sort_order :: int
  m_created_at :: timestamptz
  m_updated_at :: timestamptz

record image_row =
  i_id :: uuid
  i_profile_id :: uuid
  i_vehicle_id :: "uuid option"
  i_mod_id :: "uuid option"
  storage_bucket :: string
  storage_path :: string
  i_sort_order :: int
  i_created_at :: timestamptz

record db =
  profiles :: "profile list"
  vehicles :: "vehicle list"
  mods :: "mod_row list"
  images :: "image_row list"

subsection \<open>Constraints of the schema\<close>

definition images_exactly_one_parent :: "image_row \<Rightarrow> bool" where
  "images_exactly_one_parent i =
     ((i_vehicle_id i \<noteq> None \<and> i_mod_id i = None)
      \<or> (i_vehicle_id i = None \<and> i_mod_id i \<noteq> None))"

definition primary_keys :: "db \<Rightarrow> bool" where
  "primary_keys d =
     (distinct (map p_id (profiles d)) \<and> distinct (map v_id (vehicles d))
      \<and> distinct (map m_id (mods d)) \<and> distinct (map i_id (images d)))"

definition foreign_keys :: "db \<Rightarrow> bool" where
  "foreign_keys d =
     (list_all (\<lambda>v. v_profile_id v \<in> p_id ` set (profiles d)) (vehicles d)
      \<and> list_all (\<lambda>m. m_vehicle_id m \<in> v_id ` set (vehicles d)) (mods d)
      \<and> list_all (\<lambda>i. i_profile_id i \<in> p_id ` set (profiles d)
            \<and> (case i_vehicle_id i of None \<Rightarrow> True | Some v \<Rightarrow> v \<in> v_id ` set (vehicles d))
            \<and> (case i_mod_id i of None \<Rightarrow> True | Some m \<Rightarrow> m \<in> m_id ` set (mods d)))
          (images d))"

definition db_constraints :: "db \<Rightarrow> bool" where
  "db_constraints d =
     (primary_keys d \<and> foreign_keys d \<and> list_all images_exactly_one_parent (images d))"

section \<open>Row-level security\<close>

text \<open>
  The caller is \<open>auth.uid()\<close>: \<open>None\<close> for the role \<open>anon\<close>, \<open>Some u\<close> for the role
  \<open>authenticated\<close>. A policy \<open>to authenticated\<close> applies to \<open>Some u\<close> only. The rows
  a caller can select from a table are those some select policy admits, and a subquery
  inside a policy or a \<open>security_invoker\<close> view sees the caller's rows only.
\<close>

type_synonym caller = "uuid option"

definition profiles_owner :: "caller \<Rightarrow> profile \<Rightarrow> bool" where
  "profiles_owner auth_uid p = (auth_uid = Some (p_id p))"

definition profiles_public_select :: "profile \<Rightarrow> bool" where
  "profiles_public_select p = (username p \<noteq> None)"

definition select_profiles :: "caller \<Rightarrow> db \<Rightarrow> profile list" where
  "select_profiles auth_uid d =
     filter (\<lambda>p. profiles_owner auth_uid p \<or> profiles_public_select p) (profiles d)"

definition vehicles_owner :: "caller \<Rightarrow> db \<Rightarrow> vehicle \<Rightarrow> bool" where
  "vehicles_owner auth_uid d v =
     (\<exists>p \<in> set (select_profiles auth_uid d). p_id p = v_profile_id v \<and> Some (p_id p) = auth_uid)"

definition vehicles_public_select :: "caller \<Rightarrow> db \<Rightarrow> vehicle \<Rightarrow> bool" where
  "vehicles_public_select auth_uid d v =
     (is_public v = True
      \<and> (\<exists>p \<in> set (select_profiles auth_uid d). p_id p = v_profile_id v \<and> username p \<noteq> None))"

definition select_vehicles :: "caller \<Rightarrow> db \<Rightarrow> vehicle list" where
  "select_vehicles auth_uid d =
     filter (\<lambda>v. vehicles_owner auth_uid d v \<or> vehicles_public_select auth_uid d v) (vehicles d)"

definition mods_owner :: "caller \<Rightarrow> db \<Rightarrow> mod_row \<Rightarrow> bool" where
  "mods_owner auth_uid d m =
     (\<exists>v \<in> set (select_vehicles auth_uid d). \<exists>p \<in> set (select_profiles auth_uid d).
        p_id p = v_profile_id v \<and> v_id v = m_vehicle_id m \<and> Some (p_id p) = auth_uid)"

definition mods_public_select :: "caller \<Rightarrow> db \<Rightarrow> mod_row \<Rightarrow> bool" where
  "mods_public_select auth_uid d m =
     (\<exists>v \<in> set (select_vehicles auth_uid d). \<exists>p \<in> set (select_profiles auth_uid d).
        p_id p = v_profile_id v \<and> v_id v = m_vehicle_id m
        \<and> is_public v = True \<and> username p \<noteq> None)"

definition select_mods :: "caller \<Rightarrow> db \<Rightarrow> mod_row list" where
  "select_mods auth_uid d =
     filter (\<lambda>m. mods_owner auth_uid d m \<or> mods_public_select auth_uid d m) (mods d)"

text \<open>
  The expression shared by \<open>images_owner_select\<close>, \<open>images_owner_insert\<close>,
  \<open>images_owner_update\<close> (both \<open>using\<close> and \<open>with check\<close>) and
  \<open>images_owner_delete\<close>.
\<close>

definition images_owner :: "caller \<Rightarrow> db \<Rightarrow> image_row \<Rightarrow> bool" where
  "images_owner auth_uid d i =
     (Some (i_profile_id i) = auth_uid
      \<and> ((i_vehicle_id i \<noteq> None
            \<and> (\<exists>v \<in> set (select_vehicles auth_uid d).
                  Some (v_id v) = i_vehicle_id i \<and> Some (v_profile_id v) = auth_uid))
         \<or> (i_mod_id i \<noteq> None
            \<and> (\<exists>m \<in> set (select_mods auth_uid d). \<exists>v \<in> set (select_vehicles auth_uid d).
                  v_id v = m_vehicle_id m \<and> Some (m_id m) = i_mod_id i
                  \<and> Some (v_profile_id v) = auth_uid))))"

definition images_public_select :: "caller \<Rightarrow> db \<Rightarrow> image_row \<Rightarrow> bool" where
  "images_public_select auth_uid d i =
     ((i_vehicle_id i \<noteq> None
        \<and> (\<exists>v \<in> set (select_vehicles auth_uid d). \<exists>p \<in> set (select_profiles auth_uid d).
              p_id p = v_profile_id v \<and> Some (v_id v) = i_vehicle_id i
              \<and> is_public v = True \<and> username p \<noteq> None))
      \<or> (i_mod_id i \<noteq> None
        \<and> (\<exists>m \<in> set (select_mods auth_uid d). \<exists>v \<in> set (select_vehicles auth_uid d).
            \<exists>p \<in> set (select_profiles auth_uid d).
              v_id v = m_vehicle_id m \<and> p_id p = v_profile_id v \<and> Some (m_id m) = i_mod_id i
              \<and> is_public v = True \<and> username p \<noteq> None)))"

definition select_images :: "caller \<Rightarrow> db \<Rightarrow> image_row list" where
  "select_images auth_uid d =
     filter (\<lambda>i. images_owner auth_uid d i \<or> images_public_select auth_uid d i) (images d)"

subsection \<open>Public views\<close>







section \<open>Reorder protocol\<close>

text \<open>
  Query building blocks: \<open>order by ... limit 1\<close> over a key, and \<open>select ... into\<close>,
  which takes the first row and reports \<open>not found\<close> as \<open>None\<close>. Siblings are
  ordered by \<open>(sort_order, created_at, id)\<close>, compared from left to right.
\<close>

definition order_by_asc :: "('r \<Rightarrow> 'k::linorder) \<Rightarrow> 'r list \<Rightarrow> 'r list" where
  "order_by_asc key rows = sort_key key rows"

definition order_by_desc :: "('r \<Rightarrow> 'k::linorder) \<Rightarrow> 'r list \<Rightarrow> 'r list" where
  "order_by_desc key rows = rev (sort_key key rows)"

definition limit_1 :: "'r list \<Rightarrow> 'r list" where
  "limit_1 rows = take 1 rows"

definition select_into :: "'r list \<Rightarrow> 'r option" where
  "select_into rows = (case rows of [] \<Rightarrow> None | r # _ \<Rightarrow> Some r)"

definition vehicle_order_key :: "vehicle \<Rightarrow> int \<times> timestamptz \<times> uuid" where
  "vehicle_order_key v = (v_sort_order v, v_created_at v, v_id v)"

definition mod_order_key :: "mod_row \<Rightarrow> int \<times> timestamptz \<times> uuid" where
  "mod_order_key m = (m_sort_order m, m_created_at m, m_id m)"

text \<open>The \<open>where\<close> conditions of the two neighbour queries, as written.\<close>

definition vehicle_before :: "vehicle \<Rightarrow> vehicle \<Rightarrow> bool" where
  "vehicle_before v v_current =
     (v_sort_order v < v_sort_order v_current
      \<or> (v_sort_order v = v_sort_order v_current
          \<and> (v_created_at v < v_created_at v_current
              \<or> (v_created_at v = v_created_at v_current \<and> v_id v < v_id v_current))))"

definition vehicle_after :: "vehicle \<Rightarrow> vehicle \<Rightarrow> bool" where
  "vehicle_after v v_current =
     (v_sort_order v > v_sort_order v_current
      \<or> (v_sort_order v = v_sort_order v_current
          \<and> (v_created_at v > v_created_at v_current
              \<or> (v_created_at v = v_created_at v_current \<and> v_id v > v_id v_current))))"

definition mod_before :: "mod_row \<Rightarrow> mod_row \<Rightarrow> bool" where
  "mod_before m v_current =
     (m_sort_order m < m_sort_order v_current
      \<or> (m_sort_order m = m_sort_order v_current
          \<and> (m_created_at m < m_created_at v_current
              \<or> (m_created_at m = m_created_at v_current \<and> m_id m < m_id v_current))))"

definition mod_after :: "mod_row \<Rightarrow> mod_row \<Rightarrow> bool" where
  "mod_after m v_current =
     (m_sort_order m > m_sort_order v_current
      \<or> (m_sort_order m = m_sort_order v_current
          \<and> (m_created_at m > m_created_at v_current
              \<or> (m_created_at m = m_created_at v_current \<and> m_id m > m_id v_current))))"

text \<open>
  Both functions are \<open>security invoker\<close>: their statements run under the caller's
  policies. \<open>select ... for update\<close> and \<open>update\<close> reach the rows that the caller can
  select and that the owner policy (\<open>using\<close> of the update policy) admits. The update
  leaves \<open>profile_id\<close> and \<open>vehicle_id\<close> as they are, so its \<open>with check\<close>, the same
  expression, holds of every row it writes. The trigger \<open>set_updated_at\<close> stamps each
  updated row with \<open>now_utc\<close>.
\<close>

definition for_update_vehicles :: "caller \<Rightarrow> db \<Rightarrow> vehicle list" where
  "for_update_vehicles auth_uid d = filter (vehicles_owner auth_uid d) (select_vehicles auth_uid d)"

definition for_update_mods :: "caller \<Rightarrow> db \<Rightarrow> mod_row list" where
  "for_update_mods auth_uid d = filter (mods_owner auth_uid d) (select_mods auth_uid d)"

definition reorder_vehicle_swap ::
  "timestamptz \<Rightarrow> caller \<Rightarrow> uuid option \<Rightarrow> string option \<Rightarrow> db \<Rightarrow> pg_error + (string \<times> db)" where
  "reorder_vehicle_swap now_utc auth_uid p_vehicle_id p_direction d =
     (if (case p_direction of None \<Rightarrow> False | Some dir \<Rightarrow> dir \<notin> {''up'', ''down''})
      then Inl (RaiseException ''invalid direction'')
      else
        case auth_uid of
          None \<Rightarrow> Inr (''not_found'', d)
        | Some v_user_id \<Rightarrow>
            (case select_into
                    (filter (\<lambda>v. Some (v_id v) = p_vehicle_id \<and> v_profile_id v = v_user_id)
                       (for_update_vehicles auth_uid d)) of
               None \<Rightarrow> Inr (''not_found'', d)
             | Some v_current \<Rightarrow>
                 (case select_into
                         (if p_direction = Some ''up''
                          then limit_1 (order_by_desc vehicle_order_key
                                 (filter (\<lambda>v. v_profile_id v = v_user_id \<and> vehicle_before v v_current)
                                    (for_update_vehicles auth_uid d)))
                          else limit_1 (order_by_asc vehicle_order_key
                                 (filter (\<lambda>v. v_profile_id v = v_user_id \<and> vehicle_after v v_current)
                                    (for_update_vehicles auth_uid d)))) of
                    None \<Rightarrow> Inr (''boundary'', d)
                  | Some v_neighbor \<Rightarrow>
                      Inr (''moved'',
                        d\<lparr>vehicles :=
                            map (\<lambda>v. if v \<in> set (for_update_vehicles auth_uid d)
                                        \<and> v_id v \<in> {v_id v_current, v_id v_neighbor}
                                        \<and> v_profile_id v = v_user_id
                                      then v\<lparr>v_sort_order :=
                                               (if v_id v = v_id v_current then v_sort_order v_neighbor
                                                else if v_id v = v_id v_neighbor then v_sort_order v_current
                                                else v_sort_order v),
                                             v_updated_at := now_utc\<rparr>
                                      else v)
                              (vehicles d)\<rparr>))))"

definition reorder_mod_swap ::
  "timestamptz \<Rightarrow> caller \<Rightarrow> uuid option \<Rightarrow> uuid option \<Rightarrow> string option \<Rightarrow> db
     \<Rightarrow> pg_error + (string \<times> db)" where
  "reorder_mod_swap now_utc auth_uid p_vehicle_id p_mod_id p_direction d =
     (if (case p_direction of None \<Rightarrow> False | Some dir \<Rightarrow> dir \<notin> {''up'', ''down''})
      then Inl (RaiseException ''invalid direction'')
      else
        case auth_uid of
          None \<Rightarrow> Inr (''not_found'', d)
        | Some v_user_id \<Rightarrow>
            (case select_into
                    (filter (\<lambda>m. (\<exists>v \<in> set (select_vehicles auth_uid d).
                                    v_id v = m_vehicle_id m \<and> v_profile_id v = v_user_id)
                                \<and> Some (m_id m) = p_mod_id
                                \<and> Some (m_vehicle_id m) = p_vehicle_id)
                       (for_update_mods auth_uid d)) of
               None \<Rightarrow> Inr (''not_found'', d)
             | Some v_current \<Rightarrow>
                 (case select_into
                         (if p_direction = Some ''up''
                          then limit_1 (order_by_desc mod_order_key
                                 (filter (\<lambda>m. Some (m_vehicle_id m) = p_vehicle_id
                                              \<and> mod_before m v_current)
                                    (for_update_mods auth_uid d)))
                          else limit_1 (order_by_asc mod_order_key
                                 (filter (\<lambda>m. Some (m_vehicle_id m) = p_vehicle_id
                                              \<and> mod_after m v_current)
                                    (for_update_mods auth_uid d)))) of
                    None \<Rightarrow> Inr (''boundary'', d)
                  | Some v_neighbor \<Rightarrow>
                      Inr (''moved'',
                        d\<lparr>mods :=
                            map (\<lambda>m. if m \<in> set (for_update_mods auth_uid d)
                                        \<and> m_id m \<in> {m_id v_current, m_id v_neighbor}
                                        \<and> Some (m_vehicle_id m) = p_vehicle_id
                                      then m\<lparr>m_sort_order :=
                                               (if m_id m = m_id v_current then m_sort_order v_neighbor
                                                else if m_id m = m_id v_neighbor then m_sort_order v_current
                                                else m_sort_order m),
                                             m_updated_at := now_utc\<rparr>
                                      else m)
                              (mods d)\<rparr>))))"

text \<open>
  The siblings of a reorder, in their order: the vehicles of an owner, the mods of a
  vehicle.
\<close>

definition vehicle_siblings :: "uuid \<Rightarrow> db \<Rightarrow> vehicle list" where
  "vehicle_siblings owner d =
     sort_key vehicle_order_key (filter (\<lambda>v. v_profile_id v = owner) (vehicles d))"

definition mod_siblings :: "uuid \<Rightarrow> db \<Rightarrow> mod_row list" where
  "mod_siblings vid d =
     sort_key mod_order_key (filter (\<lambda>m. m_vehicle_id m = vid) (mods d))"

subsection \<open>What a swap writes\<close>

text \<open>
  The rows of a table after two of them, \<open>a\<close> and \<open>b\<close>, have exchanged their
  \<open>sort_order\<close>: every other row is as it was.
\<close>

definition swap_vehicle_sort_order :: "timestamptz \<Rightarrow> vehicle \<Rightarrow> vehicle \<Rightarrow> vehicle \<Rightarrow> vehicle" where
  "swap_vehicle_sort_order now_utc a b v =
     (if v_id v = v_id a then v\<lparr>v_sort_order := v_sort_order b, v_updated_at := now_utc\<rparr>
      else if v_id v = v_id b then v\<lparr>v_sort_order := v_sort_order a, v_updated_at := now_utc\<rparr>
      else v)"

definition swap_mod_sort_order :: "timestamptz \<Rightarrow> mod_row \<Rightarrow> mod_row \<Rightarrow> mod_row \<Rightarrow> mod_row" where
  "swap_mod_sort_order now_utc a b m =
     (if m_id m = m_id a then m\<lparr>m_sort_order := m_sort_order b, m_updated_at := now_utc\<rparr>
      else if m_id m = m_id b then m\<lparr>m_sort_order := m_sort_order a, m_updated_at := now_utc\<rparr>
      else m)"

definition vehicle_row :: "db \<Rightarrow> uuid \<Rightarrow> vehicle option" where
  "vehicle_row d i = find (\<lambda>v. v_id v = i) (vehicles d)"

definition mod_row_of :: "db \<Rightarrow> uuid \<Rightarrow> mod_row option" where
  "mod_row_of d i = find (\<lambda>m. m_id m = i) (mods d)"

text \<open>
  \<open>n\<close> is the sibling just before \<open>x\<close> in the order of the siblings, and no third
  sibling has the \<open>sort_order\<close> of either.
\<close>

definition adjacent_vehicles :: "uuid \<Rightarrow> db \<Rightarrow> vehicle \<Rightarrow> vehicle \<Rightarrow> bool" where
  "adjacent_vehicles owner d n x =
     (n \<in> set (vehicle_siblings owner d) \<and> x \<in> set (vehicle_siblings owner d)
      \<and> vehicle_order_key n < vehicle_order_key x
      \<and> list_all (\<lambda>v. \<not> (vehicle_order_key n < vehicle_order_key v
                         \<and> vehicle_order_key v < vehicle_order_key x))
           (vehicle_siblings owner d))"

definition no_third_vehicle_tie :: "uuid \<Rightarrow> db \<Rightarrow> vehicle \<Rightarrow> vehicle \<Rightarrow> bool" where
  "no_third_vehicle_tie owner d n x =
     list_all (\<lambda>v. v_id v = v_id n \<or> v_id v = v_id x
                  \<or> (v_sort_order v \<noteq> v_sort_order n \<and> v_sort_order v \<noteq> v_sort_order x))
       (vehicle_siblings owner d)"

definition adjacent_mods :: "uuid \<Rightarrow> db \<Rightarrow> mod_row \<Rightarrow> mod_row \<Rightarrow> bool" where
  "adjacent_mods vid d n x =
     (n \<in> set (mod_siblings vid d) \<and> x \<in> set (mod_siblings vid d)
      \<and> mod_order_key n < mod_order_key x
      \<and> list_all (\<lambda>m. \<not> (mod_order_key n < mod_order_key m
                         \<and> mod_order_key m < mod_order_key x))
           (mod_siblings vid d))"

definition no_third_mod_tie :: "uuid \<Rightarrow> db \<Rightarrow> mod_row \<Rightarrow> mod_row \<Rightarrow> bool" where
  "no_third_mod_tie vid d n x =
     list_all (\<lambda>m. m_id m = m_id n \<or> m_id m = m_id x
                  \<or> (m_sort_order m \<noteq> m_sort_order n \<and> m_sort_order m \<noteq> m_sort_order x))
       (mod_siblings vid d)"

subsection \<open>A garage with tied \<open>sort_order\<close> values\<close>

text \<open>
  One owner with three vehicles, two of which share \<open>sort_order = 0\<close>, as rows
  inserted with the column default do, two mods on vehicle 1, and an image on vehicle 1
  and on mod 11; then the same garage
  after vehicle 1 has moved up at time 20, and after it has moved down at time 30.
\<close>

definition garage0 :: db where
  "garage0 = \<lparr>profiles = [\<lparr>p_id = 7, username = Some ''ada''\<rparr>],
     vehicles =
       [\<lparr>v_id = 1, v_profile_id = 7, is_public = True, v_sort_order = 1,
          v_created_at = 1, v_updated_at = 1\<rparr>,
        \<lparr>v_id = 2, v_profile_id = 7, is_public = True, v_sort_order = 0,
          v_created_at = 5, v_updated_at = 5\<rparr>,
        \<lparr>v_id = 3, v_profile_id = 7, is_public = True, v_sort_order = 0,
          v_created_at = 9, v_updated_at = 9\<rparr>],
     mods =
       [\<lparr>m_id = 11, m_vehicle_id = 1, m_sort_order = 0, m_created_at = 2, m_updated_at = 2\<rparr>,
        \<lparr>m_id = 12, m_vehicle_id = 1, m_sort_order = 1, m_created_at = 3, m_updated_at = 3\<rparr>],
     images =
       [\<lparr>i_id = 21, i_profile_id = 7, i_vehicle_id = Some 1, i_mod_id = None,
          storage_bucket = ''mygarage'', storage_path = ''vehicles/1/a.jpg'',
          i_sort_order = 0, i_created_at = 4\<rparr>,
        \<lparr>i_id = 22, i_profile_id = 7, i_vehicle_id = None, i_mod_id = Some 11,
          storage_bucket = ''mygarage'', storage_path = ''mods/11/b.jpg'',
          i_sort_order = 0, i_created_at = 6\<rparr>]\<rparr>"

definition garage1 :: db where
  "garage1 = \<lparr>profiles = [\<lparr>p_id = 7, username = Some ''ada''\<rparr>],
     vehicles =
       [\<lparr>v_id = 1, v_profile_id = 7, is_public = True, v_sort_order = 0,
          v_created_at = 1, v_updated_at = 20\<rparr>,
        \<lparr>v_id = 2, v_profile_id = 7, is_public = True, v_sort_order = 0,
          v_created_at = 5, v_updated_at = 5\<rparr>,
        \<lparr>v_id = 3, v_profile_id = 7, is_public = True, v_sort_order = 1,
          v_created_at = 9, v_updated_at = 20\<rparr>],
     mods =
       [\<lparr>m_id = 11, m_vehicle_id = 1, m_sort_order = 0, m_created_at = 2, m_updated_at = 2\<rparr>,
        \<lparr>m_id = 12, m_vehicle_id = 1, m_sort_order = 1, m_created_at = 3, m_updated_at = 3\<rparr>],
     images =
       [\<lparr>i_id = 21, i_profile_id = 7, i_vehicle_id = Some 1, i_mod_id = None,
          storage_bucket = ''mygarage'', storage_path = ''vehicles/1/a.jpg'',
          i_sort_order = 0, i_created_at = 4\<rparr>,
        \<lparr>i_id = 22, i_profile_id = 7, i_vehicle_id = None, i_mod_id = Some 11,
          storage_bucket = ''mygarage'', storage_path = ''mods/11/b.jpg'',
          i_sort_order = 0, i_created_at = 6\<rparr>]\<rparr>"

definition garage2 :: db where
  "garage2 = \<lparr>profiles = [\<lparr>p_id = 7, username = Some ''ada''\<rparr>],
     vehicles =
       [\<lparr>v_id = 1, v_profile_id = 7, is_public = True, v_sort_order = 0,
          v_created_at = 1, v_updated_at = 30\<rparr>,
        \<lparr>v_id = 2, v_profile_id = 7, is_public = True, v_sort_order = 0,
          v_created_at = 5, v_updated_at = 30\<rparr>,
        \<lparr>v_id = 3, v_profile_id = 7, is_public = True, v_sort_order = 1,
          v_created_at = 9, v_updated_at = 20\<rparr>],
     mods =
       [\<lparr>m_id = 11, m_vehicle_id = 1, m_sort_order = 0, m_created_at = 2, m_updated_at = 2\<rparr>,
        \<lparr>m_id = 12, m_vehicle_id = 1, m_sort_order = 1, m_created_at = 3, m_updated_at = 3\<rparr>],
     images =
       [\<lparr>i_id = 21, i_profile_id = 7, i_vehicle_id = Some 1, i_mod_id = None,
          storage_bucket = ''mygarage'', storage_path = ''vehicles/1/a.jpg'',
          i_sort_order = 0, i_created_at = 4\<rparr>,
        \<lparr>i_id = 22, i_profile_id = 7, i_vehicle_id = None, i_mod_id = Some 11,
          storage_bucket = ''mygarage'', storage_path = ''mods/11/b.jpg'',
          i_sort_order = 0, i_created_at = 6\<rparr>]\<rparr>"

section \<open>Writes under row-level security\<close>

text \<open>
  One-row statements as the data layer runs them for a caller. An \<open>insert\<close> passes
  the \<open>with check\<close> of the insert policy and the constraints of the table. An
  \<open>update\<close> or \<open>delete\<close> reaches a row only through the caller's select policies and
  the \<open>using\<close> of its own policy, and is a no-op on a row it cannot reach; the new row
  of an \<open>update\<close> passes \<open>with check\<close> and the constraints. Foreign keys are
  \<open>on delete cascade\<close> and, on \<open>update\<close> of a referenced key, \<open>no action\<close>. The role
  \<open>anon\<close> has no write policy. The trigger \<open>set_updated_at\<close> stamps updated
  vehicles and mods.
\<close>

definition for_update_profiles :: "caller \<Rightarrow> db \<Rightarrow> profile list" where
  "for_update_profiles auth_uid d = filter (profiles_owner auth_uid) (select_profiles auth_uid d)"

definition for_update_images :: "caller \<Rightarrow> db \<Rightarrow> image_row list" where
  "for_update_images auth_uid d = filter (images_owner auth_uid d) (select_images auth_uid d)"

text \<open>Deleting vehicles removes their mods and every image linked to either.\<close>

definition cascade_delete_vehicles :: "uuid list \<Rightarrow> db \<Rightarrow> db" where
  "cascade_delete_vehicles vids d =
     (let mids = map m_id (filter (\<lambda>m. m_vehicle_id m \<in> set vids) (mods d))
      in d\<lparr>vehicles := filter (\<lambda>v. v_id v \<notin> set vids) (vehicles d),
           mods := filter (\<lambda>m. m_vehicle_id m \<notin> set vids) (mods d),
           images := filter (\<lambda>i. (case i_vehicle_id i of None \<Rightarrow> True | Some v \<Rightarrow> v \<notin> set vids)
                               \<and> (case i_mod_id i of None \<Rightarrow> True | Some m \<Rightarrow> m \<notin> set mids))
                       (images d)\<rparr>)"

definition cascade_delete_profile :: "uuid \<Rightarrow> db \<Rightarrow> db" where
  "cascade_delete_profile pid d =
     (let d1 = cascade_delete_vehicles
                 (map v_id (filter (\<lambda>v. v_profile_id v = pid) (vehicles d))) d
      in d1\<lparr>profiles := filter (\<lambda>p. p_id p \<noteq> pid) (profiles d1),
            images := filter (\<lambda>i. i_profile_id i \<noteq> pid) (images d1)\<rparr>)"

definition insert_profile :: "caller \<Rightarrow> profile \<Rightarrow> db \<Rightarrow> pg_error + db" where
  "insert_profile auth_uid p d =
     (if \<not> profiles_owner auth_uid p then Inl RlsViolation
      else if p_id p \<in> p_id ` set (profiles d) then Inl UniqueViolation
      else Inr (d\<lparr>profiles := profiles d @ [p]\<rparr>))"

definition update_profile :: "caller \<Rightarrow> uuid \<Rightarrow> profile \<Rightarrow> db \<Rightarrow> pg_error + db" where
  "update_profile auth_uid pid new d =
     (case find (\<lambda>p. p_id p = pid) (for_update_profiles auth_uid d) of
        None \<Rightarrow> Inr d
      | Some old \<Rightarrow>
          if \<not> profiles_owner auth_uid new then Inl RlsViolation
          else if p_id new \<noteq> pid \<and> p_id new \<in> p_id ` set (profiles d) then Inl UniqueViolation
          else Inr (d\<lparr>profiles := map (\<lambda>p. if p_id p = pid then new else p) (profiles d)\<rparr>))"

definition delete_profile :: "caller \<Rightarrow> uuid \<Rightarrow> db \<Rightarrow> pg_error + db" where
  "delete_profile auth_uid pid d =
     (case find (\<lambda>p. p_id p = pid) (for_update_profiles auth_uid d) of
        None \<Rightarrow> Inr d
      | Some old \<Rightarrow> Inr (cascade_delete_profile pid d))"

definition insert_vehicle :: "caller \<Rightarrow> vehicle \<Rightarrow> db \<Rightarrow> pg_error + db" where
  "insert_vehicle auth_uid v d =
     (if \<not> vehicles_owner auth_uid d v then Inl RlsViolation
      else if v_id v \<in> v_id ` set (vehicles d) then Inl UniqueViolation
      else if v_profile_id v \<notin> p_id ` set (profiles d) then Inl ForeignKeyViolation
      else Inr (d\<lparr>vehicles := vehicles d @ [v]\<rparr>))"

definition update_vehicle :: "timestamptz \<Rightarrow> caller \<Rightarrow> uuid \<Rightarrow> vehicle \<Rightarrow> db \<Rightarrow> pg_error + db" where
  "update_vehicle now_utc auth_uid vid new d =
     (case find (\<lambda>v. v_id v = vid) (for_update_vehicles auth_uid d) of
        None \<Rightarrow> Inr d
      | Some old \<Rightarrow>
          let new' = new\<lparr>v_updated_at := now_utc\<rparr>
          in if \<not> vehicles_owner auth_uid d new' then Inl RlsViolation
             else if v_id new' \<noteq> vid \<and> v_id new' \<in> v_id ` set (vehicles d) then Inl UniqueViolation
             else if v_profile_id new' \<notin> p_id ` set (profiles d) then Inl ForeignKeyViolation
             else if v_id new' \<noteq> vid
                     \<and> (vid \<in> m_vehicle_id ` set (mods d) \<or> Some vid \<in> i_vehicle_id ` set (images d))
             then Inl ForeignKeyViolation
             else Inr (d\<lparr>vehicles := map (\<lambda>v. if v_id v = vid then new' else v) (vehicles d)\<rparr>))"

definition delete_vehicle :: "caller \<Rightarrow> uuid \<Rightarrow> db \<Rightarrow> pg_error + db" where
  "delete_vehicle auth_uid vid d =
     (case find (\<lambda>v. v_id v = vid) (for_update_vehicles auth_uid d) of
        None \<Rightarrow> Inr d
      | Some old \<Rightarrow> Inr (cascade_delete_vehicles [vid] d))"

definition insert_mod :: "caller \<Rightarrow> mod_row \<Rightarrow> db \<Rightarrow> pg_error + db" where
  "insert_mod auth_uid m d =
     (if \<not> mods_owner auth_uid d m then Inl RlsViolation
      else if m_id m \<in> m_id ` set (mods d) then Inl UniqueViolation
      else if m_vehicle_id m \<notin> v_id ` set (vehicles d) then Inl ForeignKeyViolation
      else Inr (d\<lparr>mods := mods d @ [m]\<rparr>))"

definition update_mod :: "timestamptz \<Rightarrow> caller \<Rightarrow> uuid \<Rightarrow> mod_row \<Rightarrow> db \<Rightarrow> pg_error + db" where
  "update_mod now_utc auth_uid mid new d =
     (case find (\<lambda>m. m_id m = mid) (for_update_mods auth_uid d) of
        None \<Rightarrow> Inr d
      | Some old \<Rightarrow>
          let new' = new\<lparr>m_updated_at := now_utc\<rparr>
          in if \<not> mods_owner auth_uid d new' then Inl RlsViolation
             else if m_id new' \<noteq> mid \<and> m_id new' \<in> m_id ` set (mods d) then Inl UniqueViolation
             else if m_vehicle_id new' \<notin> v_id ` set (vehicles d) then Inl ForeignKeyViolation
             else if m_id new' \<noteq> mid \<and> Some mid \<in> i_mod_id ` set (images d)
             then Inl ForeignKeyViolation
             else Inr (d\<lparr>mods := map (\<lambda>m. if m_id m = mid then new' else m) (mods d)\<rparr>))"

definition delete_mod :: "caller \<Rightarrow> uuid \<Rightarrow> db \<Rightarrow> pg_error + db" where
  "delete_mod auth_uid mid d =
     (case find (\<lambda>m. m_id m = mid) (for_update_mods auth_uid d) of
        None \<Rightarrow> Inr d
      | Some old \<Rightarrow>
          Inr (d\<lparr>mods := filter (\<lambda>m. m_id m \<noteq> mid) (mods d),
                 images := filter (\<lambda>i. i_mod_id i \<noteq> Some mid) (images d)\<rparr>))"

text \<open>The constraints of \<open>images\<close> that a new row meets: the check and the keys.\<close>

definition image_row_constraints :: "uuid option \<Rightarrow> image_row \<Rightarrow> db \<Rightarrow> pg_error option" where
  "image_row_constraints replaced i d =
     (if \<not> images_exactly_one_parent i then Some CheckViolation
      else if Some (i_id i) \<noteq> replaced \<and> i_id i \<in> i_id ` set (images d) then Some UniqueViolation
      else if i_profile_id i \<notin> p_id ` set (profiles d)
              \<or> (case i_vehicle_id i of None \<Rightarrow> False | Some v \<Rightarrow> v \<notin> v_id ` set (vehicles d))
              \<or> (case i_mod_id i of None \<Rightarrow> False | Some m \<Rightarrow> m \<notin> m_id ` set (mods d))
      then Some ForeignKeyViolation
      else None)"

definition insert_image :: "caller \<Rightarrow> image_row \<Rightarrow> db \<Rightarrow> pg_error + db" where
  "insert_image auth_uid i d =
     (if \<not> images_owner auth_uid d i then Inl RlsViolation
      else case image_row_constraints None i d of
             Some e \<Rightarrow> Inl e
           | None \<Rightarrow> Inr (d\<lparr>images := images d @ [i]\<rparr>))"

definition update_image :: "caller \<Rightarrow> uuid \<Rightarrow> image_row \<Rightarrow> db \<Rightarrow> pg_error + db" where
  "update_image auth_uid iid new d =
     (case find (\<lambda>i. i_id i = iid) (for_update_images auth_uid d) of
        None \<Rightarrow> Inr d
      | Some old \<Rightarrow>
          if \<not> images_owner auth_uid d new then Inl RlsViolation
          else case image_row_constraints (Some iid) new d of
                 Some e \<Rightarrow> Inl e
               | None \<Rightarrow> Inr (d\<lparr>images := map (\<lambda>i. if i_id i = iid then new else i) (images d)\<rparr>))"

definition delete_image :: "caller \<Rightarrow> uuid \<Rightarrow> db \<Rightarrow> pg_error + db" where
  "delete_image auth_uid iid d =
     (case find (\<lambda>i. i_id i = iid) (for_update_images auth_uid d) of
        None \<Rightarrow> Inr d
      | Some old \<Rightarrow> Inr (d\<lparr>images := filter (\<lambda>i. i_id i \<noteq> iid) (images d)\<rparr>))"

subsection \<open>Reachable states\<close>

text \<open>
  The statements a caller can issue, with the two paths outside the policies: sign-up
  creates the profile of a new user, and removing a user removes the profile with
  everything below it.
\<close>

datatype dml =
    InsertProfile profile | UpdateProfile uuid profile | DeleteProfile uuid
  | InsertVehicle vehicle | UpdateVehicle uuid vehicle | DeleteVehicle uuid
  | InsertMod mod_row | UpdateMod uuid mod_row | DeleteMod uuid
  | InsertImage image_row | UpdateImage uuid image_row | DeleteImage uuid
  | ReorderVehicle "uuid option" "string option"
  | ReorderMod "uuid option" "uuid option" "string option"
  | SignUp profile
  | RemoveUser uuid

fun exec_dml :: "timestamptz \<Rightarrow> caller \<Rightarrow> dml \<Rightarrow> db \<Rightarrow> pg_error + db" where
  "exec_dml now_utc auth_uid (InsertProfile p) d = insert_profile auth_uid p d"
| "exec_dml now_utc auth_uid (UpdateProfile pid p) d = update_profile auth_uid pid p d"
| "exec_dml now_utc auth_uid (DeleteProfile pid) d = delete_profile auth_uid pid d"
| "exec_dml now_utc auth_uid (InsertVehicle v) d = insert_vehicle auth_uid v d"
| "exec_dml now_utc auth_uid (UpdateVehicle vid v) d = update_vehicle now_utc auth_uid vid v d"
| "exec_dml now_utc auth_uid (DeleteVehicle vid) d = delete_vehicle auth_uid vid d"
| "exec_dml now_utc auth_uid (InsertMod m) d = insert_mod auth_uid m d"
| "exec_dml now_utc auth_uid (UpdateMod mid m) d = update_mod now_utc auth_uid mid m d"
| "exec_dml now_utc auth_uid (DeleteMod mid) d = delete_mod auth_uid mid d"
| "exec_dml now_utc auth_uid (InsertImage i) d = insert_image auth_uid i d"
| "exec_dml now_utc auth_uid (UpdateImage iid i) d = update_image auth_uid iid i d"
| "exec_dml now_utc auth_uid (DeleteImage iid) d = delete_image auth_uid iid d"
| "exec_dml now_utc auth_uid (ReorderVehicle p_vehicle_id p_direction) d =
     (case reorder_vehicle_swap now_utc auth_uid p_vehicle_id p_direction d of
        Inl e \<Rightarrow> Inl e | Inr (outcome, d') \<Rightarrow> Inr d')"
| "exec_dml now_utc auth_uid (ReorderMod p_vehicle_id p_mod_id p_direction) d =
     (case reorder_mod_swap now_utc auth_uid p_vehicle_id p_mod_id p_direction d of
        Inl e \<Rightarrow> Inl e | Inr (outcome, d') \<Rightarrow> Inr d')"
| "exec_dml now_utc auth_uid (SignUp p) d =
     (if p_id p \<in> p_id ` set (profiles d) then Inr d
      else Inr (d\<lparr>profiles := profiles d @ [p]\<rparr>))"
| "exec_dml now_utc auth_uid (RemoveUser pid) d = Inr (cascade_delete_profile pid d)"

definition empty_db :: db where
  "empty_db = \<lparr>profiles = [], vehicles = [], mods = [], images = []\<rparr>"

inductive reachable :: "db \<Rightarrow> bool" where
  reachable_empty: "reachable empty_db"
| reachable_step: "reachable d \<Longrightarrow> exec_dml now_utc auth_uid stmt d = Inr d' \<Longrightarrow> reachable d'"

subsection \<open>Ownership of images\<close>

text \<open>
  The root owner of a vehicle is its profile, that of a mod the profile of its
  vehicle. An image is consistent when its \<open>profile_id\<close> is the root owner of the
  parent it links.
\<close>

definition vehicle_root_owner :: "db \<Rightarrow> uuid \<Rightarrow> uuid option" where
  "vehicle_root_owner d vid = map_option v_profile_id (find (\<lambda>v. v_id v = vid) (vehicles d))"

definition mod_root_owner :: "db \<Rightarrow> uuid \<Rightarrow> uuid option" where
  "mod_root_owner d mid =
     (case find (\<lambda>m. m_id m = mid) (mods d) of
        None \<Rightarrow> None
      | Some m \<Rightarrow> vehicle_root_owner d (m_vehicle_id m))"

definition image_parent_owner :: "db \<Rightarrow> image_row \<Rightarrow> uuid option" where
  "image_parent_owner d i =
     (case i_vehicle_id i of
        Some vid \<Rightarrow> vehicle_root_owner d vid
      | None \<Rightarrow> (case i_mod_id i of Some mid \<Rightarrow> mod_root_owner d mid | None \<Rightarrow> None))"

definition image_ownership :: "db \<Rightarrow> bool" where
  "image_ownership d = list_all (\<lambda>i. image_parent_owner d i = Some (i_profile_id i)) (images d)"

text \<open>The same through the rows: some row with the key has the owner.\<close>

definition vehicle_owned_by :: "db \<Rightarrow> uuid \<Rightarrow> uuid \<Rightarrow> bool" where
  "vehicle_owned_by d vid u = (\<exists>v \<in> set (vehicles d). v_id v = vid \<and> v_profile_id v = u)"

definition mod_owned_by :: "db \<Rightarrow> uuid \<Rightarrow> uuid \<Rightarrow> bool" where
  "mod_owned_by d mid u =
     (\<exists>m \<in> set (mods d). m_id m = mid \<and> vehicle_owned_by d (m_vehicle_id m) u)"

definition parent_owned_by :: "db \<Rightarrow> image_row \<Rightarrow> uuid \<Rightarrow> bool" where
  "parent_owned_by d i u =
     (case i_vehicle_id i of
        Some vid \<Rightarrow> vehicle_owned_by d vid u
      | None \<Rightarrow> (case i_mod_id i of Some mid \<Rightarrow> mod_owned_by d mid u | None \<Rightarrow> False))"

text \<open>
  A run of statements, each with its caller, that stops at the first error; and the
  statements that build \<open>garage0\<close> from the empty database.
\<close>

fun replay :: "timestamptz \<Rightarrow> (caller \<times> dml) list \<Rightarrow> db \<Rightarrow> pg_error + db" where
  "replay now_utc [] d = Inr d"
| "replay now_utc ((auth_uid, stmt) # rest) d =
     (case exec_dml now_utc auth_uid stmt d of
        Inl e \<Rightarrow> Inl e
      | Inr d' \<Rightarrow> replay now_utc rest d')"

definition garage0_history :: "(caller \<times> dml) list" where
  "garage0_history =
     [(None, SignUp (profiles garage0 ! 0)),
      (Some 7, InsertVehicle (vehicles garage0 ! 0)),
      (Some 7, InsertVehicle (vehicles garage0 ! 1)),
      (Some 7, InsertVehicle (vehicles garage0 ! 2)),
      (Some 7, InsertMod (mods garage0 ! 0)),
      (Some 7, InsertMod (mods garage0 ! 1)),
      (Some 7, InsertImage (images garage0 ! 0)),
      (Some 7, InsertImage (images garage0 ! 1))]"

text \<open>
  \<open>garage0\<close> with a second user, who has no username and owns the private vehicle 4
  with the mod 13; and two rows that user 7 may try to write: an image on the own
  vehicle 2, and an image on the mod 13.
\<close>

definition garage_shared :: db where
  "garage_shared =
     garage0\<lparr>profiles := profiles garage0 @ [\<lparr>p_id = 8, username = None\<rparr>],
             vehicles := vehicles garage0
               @ [\<lparr>v_id = 4, v_profile_id = 8, is_public = False, v_sort_order = 0,
                    v_created_at = 10, v_updated_at = 10\<rparr>],
             mods := mods garage0
               @ [\<lparr>m_id = 13, m_vehicle_id = 4, m_sort_order = 0, m_created_at = 11,
                    m_updated_at = 11\<rparr>]\<rparr>"

definition garage_shared_history :: "(caller \<times> dml) list" where
  "garage_shared_history =
     garage0_history
     @ [(None, SignUp (profiles garage_shared ! 1)),
        (Some 8, InsertVehicle (vehicles garage_shared ! 3)),
        (Some 8, InsertMod (mods garage_shared ! 2))]"

definition own_image :: image_row where
  "own_image = \<lparr>i_id = 23, i_profile_id = 7, i_vehicle_id = Some 2, i_mod_id = None,
     storage_bucket = ''mygarage'', storage_path = ''vehicles/2/c.jpg'',
     i_sort_order = 0, i_created_at = 12\<rparr>"

definition foreign_image :: image_row where
  "foreign_image = \<lparr>i_id = 24, i_profile_id = 7, i_vehicle_id = None, i_mod_id = Some 13,
     storage_bucket = ''mygarage'', storage_path = ''mods/13/d.jpg'',
     i_sort_order = 0, i_created_at = 13\<rparr>"

section \<open>Public visibility, as the specification states it\<close>









section \<open>Storage object paths\<close>

text \<open>
  The cast \<open>uuid::text\<close> prints the 128 bits as 32 lowercase hexadecimal digits in
  groups of 8, 4, 4, 4 and 12, separated by hyphens.
\<close>

definition hex_digit :: "nat \<Rightarrow> char" where
  "hex_digit n = ''0123456789abcdef'' ! (n mod 16)"

definition uuid_hex :: "uuid \<Rightarrow> string" where
  "uuid_hex u = map (\<lambda>k. hex_digit (unat (take_bit 4 (drop_bit (4 * (31 - k)) u)))) [0..<32]"

definition uuid_text :: "uuid \<Rightarrow> string" where
  "uuid_text u =
     (let h = uuid_hex u
      in take 8 h @ ''-'' @ take 4 (drop 8 h) @ ''-'' @ take 4 (drop 12 h) @ ''-''
         @ take 4 (drop 16 h) @ ''-'' @ drop 20 h)"

text \<open>
  \<open>string_to_array(name, '/')\<close> cuts the text at every slash, keeping empty fields;
  the empty text gives the empty array. \<open>array_length(a, 1)\<close> is null for the empty
  array.
\<close>

primrec split_on :: "char \<Rightarrow> string \<Rightarrow> string list" where
  "split_on c [] = [[]]"
| "split_on c (x # xs) =
     (if x = c then [] # split_on c xs
      else (case split_on c xs of
              [] \<Rightarrow> [[x]]
            | p # ps \<Rightarrow> (x # p) # ps))"

definition string_to_array :: "string \<Rightarrow> string list" where
  "string_to_array name = (if name = [] then [] else split_on CHR ''/'' name)"

definition array_length :: "'a list \<Rightarrow> int option" where
  "array_length a = (if a = [] then None else Some (int (length a)))"

definition nullif :: "'a option \<Rightarrow> 'a \<Rightarrow> 'a option" where
  "nullif a b = (if a = Some b then None else a)"

text \<open>
  The migration calls two functions of the platform's \<open>storage\<close> schema.
  \<open>storage.foldername(name)\<close> returns \<open>_parts[1:array_length(_parts,1)-1]\<close> and
  \<open>storage.filename(name)\<close> returns \<open>_parts[array_length(_parts,1)]\<close>, where
  \<open>_parts\<close> is \<open>string_to_array(name, '/')\<close>: all fields but the last, and the last
  field (null when there is none).
\<close>

definition storage_foldername :: "string \<Rightarrow> string list" where
  "storage_foldername name = butlast (string_to_array name)"

definition storage_filename :: "string \<Rightarrow> string option" where
  "storage_filename name =
     (case string_to_array name of [] \<Rightarrow> None | p # ps \<Rightarrow> Some (last (p # ps)))"

text \<open>
  The regular expression \<open>(^|/)\.\.(/|$)\<close>: two dots that begin the text or follow a
  slash, and that end the text or precede a slash. \<open>dotdot_end\<close> matches
  \<open>\.\.(/|$)\<close> at the head of the text; the flag of \<open>match_dotdot\<close> says whether the
  head of the text is a position where \<open>(^|/)\<close> has just matched. The pattern \<open>//\<close>
  is a literal: it matches the texts that contain it.
\<close>

fun dotdot_end :: "string \<Rightarrow> bool" where
  "dotdot_end (a # b # r) =
     (a = CHR ''.'' \<and> b = CHR ''.'' \<and> (r = [] \<or> hd r = CHR ''/''))"
| "dotdot_end _ = False"

primrec match_dotdot :: "bool \<Rightarrow> string \<Rightarrow> bool" where
  "match_dotdot b [] = False"
| "match_dotdot b (c # cs) = ((b \<and> dotdot_end (c # cs)) \<or> match_dotdot (c = CHR ''/'') cs)"

definition regex_dotdot_segment :: "string \<Rightarrow> bool" where
  "regex_dotdot_segment name = match_dotdot True name"

definition regex_double_slash :: "string \<Rightarrow> bool" where
  "regex_double_slash name = sublist ''//'' name"

text \<open>
  \<open>mygarage_object_owner_can_write\<close> is an SQL function without \<open>security definer\<close>:
  its subqueries read the rows of the calling role \<open>auth_uid\<close>. A null \<open>requester\<close>
  or \<open>object_name\<close> makes the conjunction false. The array \<open>parts\<close> is indexed from
  1 in the source.
\<close>

definition mygarage_object_owner_can_write ::
    "caller \<Rightarrow> db \<Rightarrow> string option \<Rightarrow> uuid option \<Rightarrow> bool" where
  "mygarage_object_owner_can_write auth_uid d object_name requester =
     (case (object_name, requester) of
        (Some name, Some r) \<Rightarrow>
          (let parts = storage_foldername name;
               filename = nullif (storage_filename name) ''''
           in \<not> regex_dotdot_segment name
              \<and> \<not> regex_double_slash name
              \<and> array_length parts = Some 2
              \<and> filename \<noteq> None
              \<and> ((parts ! 0 = ''avatars'' \<and> parts ! 1 = uuid_text r)
                 \<or> (parts ! 0 = ''vehicles''
                    \<and> (\<exists>v \<in> set (select_vehicles auth_uid d).
                          uuid_text (v_id v) = parts ! 1 \<and> v_profile_id v = r))
                 \<or> (parts ! 0 = ''mods''
                    \<and> (\<exists>m \<in> set (select_mods auth_uid d).
                        \<exists>v \<in> set (select_vehicles auth_uid d).
                          v_id v = m_vehicle_id m \<and> uuid_text (m_id m) = parts ! 1
                          \<and> v_profile_id v = r))))
      | _ \<Rightarrow> False)"

section \<open>Properties of the rate limit store\<close>

lemma bucket_row_Cons:
  "bucket_row (rl # tbl) k = (if bucket_key rl = k then Some rl else bucket_row tbl k)"
  by (simp add: bucket_row_def)

lemma on_conflict_do_update_key:
  "on_conflict_do_update rl ex = Inr rl' \<Longrightarrow> bucket_key rl' = bucket_key rl"
  by (auto simp: on_conflict_do_update_def split: sum.splits if_splits)

lemma insert_on_conflict_absent:
  "bucket_row tbl (bucket_key ex) = None \<Longrightarrow> insert_on_conflict ex tbl = Inr (ex, tbl @ [ex])"
  by (induction tbl) (auto simp: bucket_row_Cons split: if_splits)

lemma insert_on_conflict_present:
  "bucket_row tbl (bucket_key ex) = Some rl \<Longrightarrow> on_conflict_do_update rl ex = Inr rl' \<Longrightarrow>
   \<exists>tbl1. insert_on_conflict ex tbl = Inr (rl', tbl1)
     \<and> map bucket_key tbl1 = map bucket_key tbl
     \<and> bucket_row tbl1 (bucket_key ex) = Some rl'
     \<and> (\<forall>k. k \<noteq> bucket_key ex \<longrightarrow> bucket_row tbl1 k = bucket_row tbl k)"
proof (induction tbl)
  case Nil
  then show ?case by (simp add: bucket_row_def)
next
  case (Cons a tbl)
  show ?case
  proof (cases "bucket_key a = bucket_key ex")
    case True
    with Cons.prems have "a = rl" by (simp add: bucket_row_Cons)
    with True Cons.prems show ?thesis
      using on_conflict_do_update_key[of rl ex rl']
      by (auto simp: bucket_row_Cons)
  next
    case False
    with Cons.prems have "bucket_row tbl (bucket_key ex) = Some rl" by (simp add: bucket_row_Cons)
    from Cons.IH[OF this Cons.prems(2)] obtain tbl1 where
      "insert_on_conflict ex tbl = Inr (rl', tbl1)"
      "map bucket_key tbl1 = map bucket_key tbl"
      "bucket_row tbl1 (bucket_key ex) = Some rl'"
      "\<forall>k. k \<noteq> bucket_key ex \<longrightarrow> bucket_row tbl1 k = bucket_row tbl k" by blast
    with False show ?thesis by (auto simp: bucket_row_Cons)
  qed
qed

lemma floor_epoch:
  assumes "0 < w"
  shows "\<lfloor>extract_epoch t / of_int w\<rfloor> = t div (1000000 * w)"
proof -
  have "extract_epoch t / of_int w = (of_int t :: rat) / of_int (1000000 * w)"
    by (simp add: extract_epoch_def)
  then show ?thesis by (simp only: floor_divide_of_int_eq)
qed

lemma ceiling_epoch: "\<lceil>extract_epoch t\<rceil> = - ((- t) div 1000000)"
proof -
  have "- extract_epoch t = (of_int (- t) :: rat) / of_int 1000000" by (simp add: extract_epoch_def)
  then have "\<lceil>extract_epoch t\<rceil> = - \<lfloor>(of_int (- t) :: rat) / of_int 1000000\<rfloor>"
    by (simp only: ceiling_def)
  then show ?thesis by (simp only: floor_divide_of_int_eq)
qed


lemma bucket_row_SomeD:
  "bucket_row tbl k = Some r \<Longrightarrow> r \<in> set tbl \<and> bucket_key r = k"
  by (auto simp: bucket_row_def find_Some_iff)

lemma bucket_row_pkey_unique:
  "buckets_pkey tbl \<Longrightarrow> bucket_row tbl k = Some r \<Longrightarrow> b \<in> set tbl \<Longrightarrow> bucket_key b = k \<Longrightarrow> b = r"
  using bucket_row_SomeD[of tbl k r]
  by (auto simp: buckets_pkey_def distinct_map inj_on_def)

lemma find_append_if:
  "find P (xs @ ys) = (case find P xs of None \<Rightarrow> find P ys | Some x \<Rightarrow> Some x)"
  by (induction xs) auto

lemma find_filter: "find P (filter Q xs) = find (\<lambda>x. Q x \<and> P x) xs"
  by (induction xs) auto

lemma cleanup_keeps_live_row:
  assumes pk: "buckets_pkey tbl" and row: "bucket_row tbl k = Some r" and live: "now_utc \<le> expires_at r"
  shows "bucket_row (snd (rate_limit_cleanup_expired now_utc p_max tbl)) k = Some r"
proof -
  define expired where "expired = map bucket_key
     (take (nat (greatest 1 (least (coalesce p_max 500) 5000)))
        (sort_key expires_at (filter (\<lambda>b. expires_at b < now_utc) tbl)))"
  have "k \<notin> set expired"
  proof
    assume "k \<in> set expired"
    then obtain b where "b \<in> set tbl" "expires_at b < now_utc" "bucket_key b = k"
      unfolding expired_def by (auto dest!: in_set_takeD)
    with bucket_row_pkey_unique[OF pk row] live show False by auto
  qed
  then have "find (\<lambda>x. bucket_key x \<notin> set expired \<and> bucket_key x = k) tbl
               = find (\<lambda>x. bucket_key x = k) tbl"
    by (intro find_cong) auto
  moreover have "snd (rate_limit_cleanup_expired now_utc p_max tbl)
      = filter (\<lambda>b. bucket_key b \<notin> set expired) tbl"
    by (simp only: rate_limit_cleanup_expired_def Let_def expired_def snd_conv)
  ultimately show ?thesis using row
    by (simp only: bucket_row_def find_filter)
qed

lemma window_start_bounds:
  assumes "0 < (w::int)"
  shows "t div (1000000 * w) * w * 1000000 \<le> t"
    and "t < t div (1000000 * w) * w * 1000000 + w * 1000000"
proof -
  have pos: "0 < 1000000 * w" using assms by simp
  have eq: "t div (1000000 * w) * w * 1000000 = t - t mod (1000000 * w)"
    by (simp add: minus_mod_eq_mult_div algebra_simps)
  from pos have "0 \<le> t mod (1000000 * w)" "t mod (1000000 * w) < 1000000 * w"
    by (simp_all only: pos_mod_sign pos_mod_bound)
  then show "t div (1000000 * w) * w * 1000000 \<le> t"
    and "t < t div (1000000 * w) * w * 1000000 + w * 1000000"
    unfolding eq by linarith+
qed

lemma canonical_window_start_div:
  "0 < w \<Longrightarrow> canonical_window_start t w = t div (1000000 * w) * w * 1000000"
  using floor_epoch[of w t] by (simp add: canonical_window_start_def extract_epoch_def)

lemma insert_on_conflict_effect:
  assumes pk: "buckets_pkey tbl"
    and rng: "\<forall>rl. bucket_row tbl (bucket_key ex) = Some rl \<longrightarrow>
        window_started_at rl = window_started_at ex \<longrightarrow> window_seconds rl = window_seconds ex \<longrightarrow>
        0 < request_count rl \<and> request_count rl < 2147483647"
    and one: "request_count ex = 1"
  shows "\<exists>rl' tbl1. insert_on_conflict ex tbl = Inr (rl', tbl1) \<and> buckets_pkey tbl1
      \<and> bucket_row tbl1 (bucket_key ex) = Some rl'
      \<and> request_count rl' =
          (case bucket_row tbl (bucket_key ex) of
             None \<Rightarrow> 1
           | Some rl \<Rightarrow> if window_started_at rl = window_started_at ex
                           \<and> window_seconds rl = window_seconds ex
                        then request_count rl + 1 else 1)
      \<and> window_started_at rl' = window_started_at ex
      \<and> window_seconds rl' = window_seconds ex
      \<and> window_ends_at rl' = window_ends_at ex
      \<and> expires_at rl' = expires_at ex"
proof (cases "bucket_row tbl (bucket_key ex)")
  case None
  then have "insert_on_conflict ex tbl = Inr (ex, tbl @ [ex])"
    by (rule insert_on_conflict_absent)
  moreover have "bucket_key ex \<notin> bucket_key ` set tbl"
    using None by (auto simp: bucket_row_def find_None_iff)
  then have "buckets_pkey (tbl @ [ex])"
    using pk by (simp add: buckets_pkey_def)
  moreover have "find (\<lambda>rl. bucket_key rl = bucket_key ex) tbl = None"
    using None by (simp add: bucket_row_def)
  then have "bucket_row (tbl @ [ex]) (bucket_key ex) = Some ex"
    by (simp add: bucket_row_def find_append_if)
  ultimately show ?thesis using None one by auto
next
  case (Some rl)
  define rl' where "rl' = rl\<lparr>
        request_count := (if window_started_at rl = window_started_at ex
                             \<and> window_seconds rl = window_seconds ex
                          then request_count rl + 1 else 1),
        window_started_at := window_started_at ex, window_seconds := window_seconds ex,
        window_ends_at := window_ends_at ex,
        expires_at := expires_at ex, updated_at := updated_at ex\<rparr>"
  have upd: "on_conflict_do_update rl ex = Inr rl'"
    using rng Some by (auto simp: on_conflict_do_update_def int4pl_def rl'_def)
  from insert_on_conflict_present[OF Some upd]
  obtain tbl1 where t1: "insert_on_conflict ex tbl = Inr (rl', tbl1)"
    "map bucket_key tbl1 = map bucket_key tbl" "bucket_row tbl1 (bucket_key ex) = Some rl'"
    by auto
  have "buckets_pkey tbl1" using pk t1(2) by (simp add: buckets_pkey_def)
  with t1 Some show ?thesis by (auto simp: rl'_def)
qed

lemma cleanup_pkey:
  "buckets_pkey tbl \<Longrightarrow> buckets_pkey (snd (rate_limit_cleanup_expired now_utc p_max tbl))"
  by (simp add: rate_limit_cleanup_expired_def Let_def buckets_pkey_def distinct_map_filter)

lemma cleanup_row_cases:
  assumes pk: "buckets_pkey tbl"
  shows "bucket_row (snd (rate_limit_cleanup_expired now_utc p_max tbl)) k = None
       \<or> bucket_row (snd (rate_limit_cleanup_expired now_utc p_max tbl)) k = bucket_row tbl k"
proof (cases "bucket_row (snd (rate_limit_cleanup_expired now_utc p_max tbl)) k")
  case None
  then show ?thesis by simp
next
  case (Some r)
  from bucket_row_SomeD[OF Some] have "r \<in> set tbl" "bucket_key r = k"
    by (auto simp: rate_limit_cleanup_expired_def Let_def)
  moreover obtain r0 where r0: "bucket_row tbl k = Some r0"
    using calculation by (cases "bucket_row tbl k") (auto simp: bucket_row_def find_None_iff)
  ultimately have "r = r0" using bucket_row_pkey_unique[OF pk r0] by blast
  with Some r0 show ?thesis by simp
qed

text \<open>
  Claim C2. A call of \<open>rate_limit_consume\<close> whose key is not empty (once trimmed, as the
  function tests it) clamps \<open>window_seconds\<close> to \<open>[1, 86400]\<close> and
  \<open>max_requests\<close> to \<open>[1, 100000]\<close>, takes
  \<open>floor(now_epoch / window_seconds) * window_seconds\<close> as window start, adds exactly
  1 to the count of a stored row of the same \<open>(window_started_at, window_seconds)\<close> and
  otherwise sets the count to 1 with the window bounds overwritten, and returns
  \<open>allowed = (request_count \<le> max_requests)\<close>,
  \<open>remaining = max (max_requests - request_count) 0\<close> and
  \<open>retry_after_seconds = 0\<close> when allowed, else
  \<open>max 1 (ceil (window_ends_at - now))\<close>. The stored count is a positive 32-bit
  integer below its maximum, where \<open>+ 1\<close> is defined.
\<close>

theorem rate_limit_consume_contract:
  assumes key: "pg_trim (coalesce p_bucket_key '''') = k" "k \<noteq> ''''"
    and pk: "buckets_pkey tbl"
    and no_overflow: "\<forall>rl. bucket_row tbl k = Some rl \<longrightarrow>
        0 < request_count rl \<and> request_count rl < 2147483647"
    and w: "w = clamp_window_seconds p_window_seconds"
    and m: "m = clamp_max_requests p_max_requests"
    and ws: "ws = canonical_window_start now_utc w"
  shows "1 \<le> w \<and> w \<le> 86400 \<and> 1 \<le> m \<and> m \<le> 100000 \<and>
    (\<exists>res tbl' rl'.
       rate_limit_consume now_utc random_hit p_bucket_key p_max_requests p_window_seconds tbl
         = Inr (res, tbl')
     \<and> bucket_row tbl' k = Some rl'
     \<and> request_count rl' =
          (case bucket_row tbl k of
             None \<Rightarrow> 1
           | Some rl \<Rightarrow> if window_started_at rl = ws \<and> window_seconds rl = w
                        then request_count rl + 1 else 1)
     \<and> window_started_at rl' = ws \<and> window_seconds rl' = w
     \<and> window_ends_at rl' = ws + w * 1000000
     \<and> allowed res = (request_count rl' \<le> m)
     \<and> remaining res = max (m - request_count rl') 0
     \<and> retry_after_seconds res =
          (if allowed res then 0
           else max 1 \<lceil>(of_int (window_ends_at rl' - now_utc) / 1000000 :: rat)\<rceil>))"
proof -
  have wb: "1 \<le> w" "w \<le> 86400" by (auto simp: w clamp_window_seconds_def)
  have mb: "1 \<le> m" "m \<le> 100000" by (auto simp: m clamp_max_requests_def)
  have wpos: "0 < w" using wb by simp
  define ex where "ex = \<lparr>bucket_key = k, window_started_at = ws, window_seconds = w,
      request_count = 1, window_ends_at = ws + w * 1000000,
      expires_at = ws + w * 1000000 + max w 600 * 1000000, updated_at = now_utc\<rparr>"
  have ws_div: "ws = now_utc div (1000000 * w) * w * 1000000"
    using canonical_window_start_div[OF wpos] ws by simp
  have live: "now_utc \<le> expires_at ex"
    using window_start_bounds(2)[OF wpos, of now_utc] wb
    by (simp add: ex_def ws_div)
  have exk: "bucket_key ex = k" "window_started_at ex = ws" "window_seconds ex = w"
      "window_ends_at ex = ws + w * 1000000" "request_count ex = 1"
    by (simp_all add: ex_def)
  have rng: "\<forall>rl. bucket_row tbl (bucket_key ex) = Some rl \<longrightarrow>
        window_started_at rl = window_started_at ex \<longrightarrow> window_seconds rl = window_seconds ex \<longrightarrow>
        0 < request_count rl \<and> request_count rl < 2147483647"
    using no_overflow by (simp add: exk)
  from insert_on_conflict_effect[OF pk rng exk(5)]
  have "\<exists>rl' tbl1. insert_on_conflict ex tbl = Inr (rl', tbl1) \<and> buckets_pkey tbl1
      \<and> bucket_row tbl1 k = Some rl'
      \<and> request_count rl' =
          (case bucket_row tbl k of
             None \<Rightarrow> 1
           | Some rl \<Rightarrow> if window_started_at rl = ws \<and> window_seconds rl = w
                        then request_count rl + 1 else 1)
      \<and> window_started_at rl' = ws \<and> window_seconds rl' = w
      \<and> window_ends_at rl' = ws + w * 1000000 \<and> expires_at rl' = expires_at ex"
    unfolding exk .
  then obtain rl' tbl1 where r: "insert_on_conflict ex tbl = Inr (rl', tbl1)" "buckets_pkey tbl1"
      "bucket_row tbl1 k = Some rl'"
      "request_count rl' =
          (case bucket_row tbl k of
             None \<Rightarrow> 1
           | Some rl \<Rightarrow> if window_started_at rl = ws \<and> window_seconds rl = w
                        then request_count rl + 1 else 1)"
      "window_started_at rl' = ws" "window_seconds rl' = w"
      "window_ends_at rl' = ws + w * 1000000" "expires_at rl' = expires_at ex"
    by blast
  define tbl2 where "tbl2 = (if random_hit
        then snd (rate_limit_cleanup_expired now_utc (Some 200) tbl1) else tbl1)"
  have row2: "bucket_row tbl2 k = Some rl'"
    using cleanup_keeps_live_row[OF r(2) r(3), of now_utc "Some 200"] live r(8) r(3)
    by (simp add: tbl2_def)
  have exq: "\<lparr>bucket_key = pg_trim (coalesce p_bucket_key ''''),
       window_started_at = to_timestamp (\<lfloor>extract_epoch now_utc / of_int w\<rfloor> * w),
       window_seconds = w, request_count = 1,
       window_ends_at = to_timestamp (\<lfloor>extract_epoch now_utc / of_int w\<rfloor> * w)
          + make_interval_secs w,
       expires_at = to_timestamp (\<lfloor>extract_epoch now_utc / of_int w\<rfloor> * w)
          + make_interval_secs w + make_interval_secs (greatest w 600),
       updated_at = now_utc\<rparr> = ex"
    by (simp add: ex_def key ws canonical_window_start_def to_timestamp_def
        make_interval_secs_def greatest_def extract_epoch_def)
  have w': "greatest 1 (least (coalesce p_window_seconds 1) 86400) = w"
    by (simp add: w clamp_window_seconds_def greatest_def least_def)
  have m': "greatest 1 (least (coalesce p_max_requests 1) 100000) = m"
    by (simp add: m clamp_max_requests_def greatest_def least_def)
  have "rate_limit_consume now_utc random_hit p_bucket_key p_max_requests p_window_seconds tbl
     = Inr (\<lparr>allowed = (request_count rl' \<le> m),
             remaining = greatest (m - request_count rl') 0,
             retry_after_seconds =
               (if request_count rl' \<le> m then 0
                else greatest 1 \<lceil>extract_epoch (window_ends_at rl' - now_utc)\<rceil>),
             out_window_ends_at = window_ends_at rl'\<rparr>, tbl2)"
    unfolding rate_limit_consume_def Let_def w' m' exq
    using key r(1) by (simp add: tbl2_def)
  with row2 r wb mb show ?thesis
    by (simp add: greatest_def extract_epoch_def)
qed


theorem rate_limit_consume_contract_witness:
  "pg_trim (coalesce (Some ''k'') '''') = ''k'' \<and> ''k'' \<noteq> ''''
   \<and> buckets_pkey
        [\<lparr>bucket_key = ''k'', window_started_at = 120000000, window_seconds = 60,
          request_count = 3, window_ends_at = 180000000, expires_at = 780000000,
          updated_at = 121000000\<rparr>]
   \<and> (\<exists>res tbl' rl'.
         rate_limit_consume 125000000 False (Some ''k'') (Some 3) (Some 60)
           [\<lparr>bucket_key = ''k'', window_started_at = 120000000, window_seconds = 60,
             request_count = 3, window_ends_at = 180000000, expires_at = 780000000,
             updated_at = 121000000\<rparr>] = Inr (res, tbl')
       \<and> bucket_row tbl' ''k'' = Some rl' \<and> request_count rl' = 4
       \<and> \<not> allowed res \<and> remaining res = 0 \<and> retry_after_seconds res = 55)"
proof -
  define tbl where "tbl = [\<lparr>bucket_key = ''k'', window_started_at = 120000000,
      window_seconds = 60, request_count = 3, window_ends_at = 180000000,
      expires_at = 780000000, updated_at = 121000000\<rparr>]"
  have key: "pg_trim (coalesce (Some ''k'') '''') = ''k''" "''k'' \<noteq> ''''"
    by (simp_all add: pg_trim_def coalesce_def)
  have pk: "buckets_pkey tbl" by (simp add: buckets_pkey_def tbl_def)
  have row: "bucket_row tbl ''k'' = Some (hd tbl)" by (simp add: bucket_row_def tbl_def)
  have rng: "\<forall>rl. bucket_row tbl ''k'' = Some rl \<longrightarrow>
        0 < request_count rl \<and> request_count rl < 2147483647"
    by (simp add: row) (simp add: tbl_def)
  have w: "(60::int) = clamp_window_seconds (Some 60)"
    by (simp add: clamp_window_seconds_def coalesce_def)
  have m: "(3::int) = clamp_max_requests (Some 3)"
    by (simp add: clamp_max_requests_def coalesce_def)
  have ws: "(120000000::int) = canonical_window_start 125000000 60"
    by (simp add: canonical_window_start_div)
  from rate_limit_consume_contract[OF key pk rng w m ws, of False]
  show ?thesis
    unfolding tbl_def[symmetric] using key pk
    by (simp add: row) (auto simp add: tbl_def)
qed

lemma floor_epoch_numeral:
  "\<lfloor>extract_epoch t / numeral n\<rfloor> = t div (1000000 * numeral n)"
  using floor_epoch[of "numeral n" t] by simp

lemma interleaving_mset:
  "interleaving xss ys \<Longrightarrow> mset ys = (\<Sum>xs\<leftarrow>xss. mset xs)"
proof (induction rule: interleaving.induct)
  case (interleaving_Nil xss)
  then show ?case by (induction xss) auto
next
  case (interleaving_Cons i xss x xs ys)
  have "(\<Sum>xs\<leftarrow>xss. mset xs) = add_mset x (\<Sum>xs\<leftarrow>xss[i := xs]. mset xs)"
    using interleaving_Cons.hyps(1,2)
  proof (induction xss arbitrary: i)
    case Nil
    then show ?case by simp
  next
    case (Cons a xss)
    then show ?case by (cases i) auto
  qed
  with interleaving_Cons.IH show ?case by simp
qed


lemma interleaving_set:
  assumes "interleaving xss ys"
  shows "set ys = (\<Union>xs \<in> set xss. set xs)"
proof -
  have "set_mset (\<Sum>xs\<leftarrow>xss. mset xs) = (\<Union>xs \<in> set xss. set xs)"
    by (induction xss) simp_all
  with interleaving_mset[OF assms] show ?thesis
    by (metis set_mset_mset)
qed

lemma interleaving_filter_map:
  assumes "interleaving xss ys"
  shows "mset (map f (filter P ys)) = (\<Sum>xs\<leftarrow>xss. mset (map f (filter P xs)))"
proof -
  have "image_mset f (filter_mset P (\<Sum>xs\<leftarrow>xss. mset xs))
      = (\<Sum>xs\<leftarrow>xss. image_mset f (filter_mset P (mset xs)))"
    by (induction xss) simp_all
  then show ?thesis
    by (simp add: interleaving_mset[OF assms])
qed

lemma sum_list_singletons: "(\<Sum>x\<leftarrow>xs. {#f x#}) = mset (map f xs)"
  by (induction xs) simp_all

text \<open>One upsert, one cleanup, one whole call on a table whose window has counted \<open>n\<close>.\<close>

lemma insert_on_conflict_stamp:
  "insert_on_conflict ex tbl = Inr (rl', tbl1)
     \<Longrightarrow> updated_at rl' = updated_at ex \<and> bucket_key rl' = bucket_key ex"
proof (induction tbl arbitrary: tbl1)
  case Nil
  then show ?case by auto
next
  case (Cons rl tbl)
  show ?case
  proof (cases "bucket_key rl = bucket_key ex")
    case True
    with Cons.prems have "on_conflict_do_update rl ex = Inr rl'"
      by (auto split: sum.splits)
    with True show ?thesis
      by (auto simp: on_conflict_do_update_def split: sum.splits if_splits)
  next
    case False
    with Cons.prems obtain t where "insert_on_conflict ex tbl = Inr (rl', t)"
      by (auto split: sum.splits)
    from Cons.IH[OF this] show ?thesis .
  qed
qed

lemma upsert_window_state:
  assumes st: "window_state k ws w n t tbl" and bound: "int n < 2147483647"
  shows "\<exists>tbl1. insert_on_conflict (window_row k ws w now_utc (Suc 0)) tbl
                 = Inr (window_row k ws w now_utc (Suc n), tbl1)
             \<and> window_state k ws w (Suc n) now_utc tbl1"
proof -
  let ?ex = "window_row k ws w now_utc (Suc 0)"
  have sel: "bucket_key ?ex = k" "window_started_at ?ex = ws" "window_seconds ?ex = w"
      "request_count ?ex = 1" "window_ends_at ?ex = ws + w * 1000000"
      "expires_at ?ex = ws + w * 1000000 + max w 600 * 1000000" "updated_at ?ex = now_utc"
    by (simp_all add: window_row_def)
  from st have pk: "buckets_pkey tbl" by (simp add: window_state_def)
  have rng: "\<forall>rl. bucket_row tbl (bucket_key ?ex) = Some rl \<longrightarrow>
        window_started_at rl = window_started_at ?ex \<longrightarrow> window_seconds rl = window_seconds ?ex \<longrightarrow>
        0 < request_count rl \<and> request_count rl < 2147483647"
    unfolding sel using st bound
    by (auto simp: window_state_def window_row_def split: if_splits)
  from insert_on_conflict_effect[OF pk rng sel(4)] obtain rl' tbl1 where
    r: "insert_on_conflict ?ex tbl = Inr (rl', tbl1)" "buckets_pkey tbl1"
      "bucket_row tbl1 k = Some rl'"
      "request_count rl' =
          (case bucket_row tbl k of
             None \<Rightarrow> 1
           | Some rl \<Rightarrow> if window_started_at rl = ws \<and> window_seconds rl = w
                        then request_count rl + 1 else 1)"
      "window_started_at rl' = ws" "window_seconds rl' = w"
      "window_ends_at rl' = ws + w * 1000000"
      "expires_at rl' = ws + w * 1000000 + max w 600 * 1000000"
    unfolding sel by blast
  have cnt: "request_count rl' = int (Suc n)"
    using st r(4) by (auto simp: window_state_def window_row_def split: if_splits option.splits)
  from insert_on_conflict_stamp[OF r(1)] have stamp: "updated_at rl' = now_utc" "bucket_key rl' = k"
    by (simp_all add: sel)
  have "rl' = window_row k ws w now_utc (Suc n)"
    by (rule rate_limit_bucket.equality) (simp_all add: window_row_def cnt stamp r(5-8))
  with r show ?thesis by (auto simp: window_state_def)
qed

lemma cleanup_window_state:
  assumes st: "window_state k ws w n t tbl"
    and live: "now_utc \<le> ws + w * 1000000 + max w 600 * 1000000"
  shows "window_state k ws w n t (snd (rate_limit_cleanup_expired now_utc p_max tbl))"
proof -
  from st have pk: "buckets_pkey tbl" by (simp add: window_state_def)
  show ?thesis
  proof (cases "n = 0")
    case True
    with st cleanup_row_cases[OF pk, of now_utc p_max k] cleanup_pkey[OF pk, of now_utc p_max]
    show ?thesis by (auto simp: window_state_def split: option.splits)
  next
    case False
    with st have row: "bucket_row tbl k = Some (window_row k ws w t n)"
      by (simp add: window_state_def)
    have "now_utc \<le> expires_at (window_row k ws w t n)"
      using live by (simp add: window_row_def)
    from cleanup_keeps_live_row[OF pk row this, of p_max] cleanup_pkey[OF pk, of now_utc p_max] False
    show ?thesis by (simp add: window_state_def)
  qed
qed

lemma consume_statements_eq:
  assumes key: "pg_trim (coalesce p_bucket_key '''') = k" "k \<noteq> ''''"
    and w: "w = clamp_window_seconds p_window_seconds"
    and ws: "canonical_window_start now_utc w = ws"
  shows "consume_statements now_utc random_hit p_bucket_key p_window_seconds
           = InsertOnConflict (window_row k ws w now_utc (Suc 0))
             # (if random_hit then [CleanupExpired now_utc (Some 200)] else [])"
    and "now_utc \<le> ws + w * 1000000 + max w 600 * 1000000"
proof -
  have wb: "0 < w" by (auto simp: w clamp_window_seconds_def)
  have w': "greatest 1 (least (coalesce p_window_seconds 1) 86400) = w"
    by (simp add: w clamp_window_seconds_def greatest_def least_def)
  have ws': "to_timestamp (\<lfloor>extract_epoch now_utc / of_int w\<rfloor> * w) = ws"
    using ws by (simp add: canonical_window_start_def to_timestamp_def extract_epoch_def)
  have "now_utc < ws + w * 1000000"
    using window_start_bounds(2)[OF wb, of now_utc] canonical_window_start_div[OF wb, of now_utc] ws
    by simp
  then show "now_utc \<le> ws + w * 1000000 + max w 600 * 1000000"
    using wb by simp
  show "consume_statements now_utc random_hit p_bucket_key p_window_seconds
           = InsertOnConflict (window_row k ws w now_utc (Suc 0))
             # (if random_hit then [CleanupExpired now_utc (Some 200)] else [])"
    unfolding consume_statements_def Let_def w' ws'
    using key by (simp add: window_row_def make_interval_secs_def greatest_def)
qed

lemma rate_limit_consume_window_state:
  assumes key: "pg_trim (coalesce p_bucket_key '''') = k" "k \<noteq> ''''"
    and w: "w = clamp_window_seconds p_window_seconds"
    and ws: "canonical_window_start now_utc w = ws"
    and st: "window_state k ws w n t tbl" and bound: "int n < 2147483647"
  shows "\<exists>tbl'. rate_limit_consume now_utc random_hit p_bucket_key p_max_requests
                   p_window_seconds tbl
                 = Inr (consume_return now_utc p_max_requests (window_row k ws w now_utc (Suc n)), tbl')
             \<and> window_state k ws w (Suc n) now_utc tbl'"
proof -
  have wb: "0 < w" by (auto simp: w clamp_window_seconds_def)
  have w': "greatest 1 (least (coalesce p_window_seconds 1) 86400) = w"
    by (simp add: w clamp_window_seconds_def greatest_def least_def)
  have ws': "to_timestamp (\<lfloor>extract_epoch now_utc / of_int w\<rfloor> * w) = ws"
    using ws by (simp add: canonical_window_start_def to_timestamp_def extract_epoch_def)
  have ex: "\<lparr>bucket_key = k, window_started_at = ws, window_seconds = w, request_count = 1,
       window_ends_at = ws + make_interval_secs w,
       expires_at = ws + make_interval_secs w + make_interval_secs (greatest w 600),
       updated_at = now_utc\<rparr> = window_row k ws w now_utc (Suc 0)"
    by (simp add: window_row_def make_interval_secs_def greatest_def)
  from upsert_window_state[OF st bound, of now_utc] obtain tbl1 where
    ins: "insert_on_conflict (window_row k ws w now_utc (Suc 0)) tbl
            = Inr (window_row k ws w now_utc (Suc n), tbl1)"
    and st1: "window_state k ws w (Suc n) now_utc tbl1"
    by blast
  define tbl2 where "tbl2 = (if random_hit
      then snd (rate_limit_cleanup_expired now_utc (Some 200) tbl1) else tbl1)"
  from consume_statements_eq(2)[OF key w ws]
  have st2: "window_state k ws w (Suc n) now_utc tbl2"
    unfolding tbl2_def using cleanup_window_state[OF st1] st1 by simp
  have "rate_limit_consume now_utc random_hit p_bucket_key p_max_requests p_window_seconds tbl
      = Inr (consume_return now_utc p_max_requests (window_row k ws w now_utc (Suc n)), tbl2)"
    unfolding rate_limit_consume_def Let_def key(1) w' ws' ex ins
    using key(2) by (simp add: consume_return_def Let_def tbl2_def)
  with st2 show ?thesis by blast
qed

text \<open>
  A schedule of statements of the calls, and the calls in the order of their upserts
  run one after the other, from tables whose window has counted the same.
\<close>

lemma upserts_Cons_insert: "upserts ((c, InsertOnConflict ex) # ss) = Suc (upserts ss)"
  by (simp add: upserts_def)

lemma upserts_Cons_cleanup: "upserts ((c, CleanupExpired t p) # ss) = upserts ss"
  by (simp add: upserts_def)

lemma exec_schedule_serial:
  assumes key: "pg_trim (coalesce p_bucket_key '''') = k" "k \<noteq> ''''"
    and w: "w = clamp_window_seconds p_window_seconds"
    and win: "\<forall>c < length calls. canonical_window_start (fst (calls ! c)) w = ws"
  shows "\<forall>(c, s) \<in> set ss. c < length calls
           \<and> s \<in> set (consume_statements (fst (calls ! c)) (fst (snd (calls ! c)))
                        p_bucket_key p_window_seconds)
    \<Longrightarrow> window_state k ws w n t tbl \<Longrightarrow> window_state k ws w n t tbl_s
    \<Longrightarrow> int n + int (upserts ss) \<le> 2147483647
    \<Longrightarrow> \<exists>obs tbl' tbl_s' t'. exec_schedule ss tbl = Inr (obs, tbl')
        \<and> map fst obs
            = map fst (filter (\<lambda>(c, s). case s of InsertOnConflict _ \<Rightarrow> True | _ \<Rightarrow> False) ss)
        \<and> map (\<lambda>(c, rl). request_count rl) obs = map int [Suc n..<Suc (n + upserts ss)]
        \<and> window_state k ws w (n + upserts ss) t' tbl'
        \<and> consume_serially p_bucket_key p_window_seconds (map (\<lambda>c. calls ! c) (map fst obs)) tbl_s
            = Inr (map (\<lambda>(c, rl). consume_return (fst (calls ! c)) (snd (snd (calls ! c))) rl) obs,
                   tbl_s')
        \<and> window_state k ws w (n + upserts ss) t' tbl_s'"
proof (induction ss arbitrary: n t tbl tbl_s)
  case Nil
  then show ?case by (auto simp: upserts_def)
next
  case (Cons cs ss)
  obtain c s where cs: "cs = (c, s)" by (cases cs)
  obtain now_utc random_hit p_max where call: "calls ! c = (now_utc, random_hit, p_max)"
    by (cases "calls ! c")
  from Cons.prems(1) cs call have c: "c < length calls"
    and s: "s \<in> set (consume_statements now_utc random_hit p_bucket_key p_window_seconds)"
    and rest: "\<forall>(c, s) \<in> set ss. c < length calls
           \<and> s \<in> set (consume_statements (fst (calls ! c)) (fst (snd (calls ! c)))
                        p_bucket_key p_window_seconds)"
    by auto
  from win c call have ws: "canonical_window_start now_utc w = ws" by fastforce
  note eq = consume_statements_eq[OF key w ws]
  from s eq(1)[of random_hit]
  have "s = InsertOnConflict (window_row k ws w now_utc (Suc 0)) \<or> s = CleanupExpired now_utc (Some 200)"
    by (auto split: if_splits)
  then show ?case
  proof
    assume ins: "s = InsertOnConflict (window_row k ws w now_utc (Suc 0))"
    have ups: "upserts (cs # ss) = Suc (upserts ss)"
      by (simp add: cs ins upserts_Cons_insert)
    with Cons.prems(4) have b: "int n < 2147483647"
      and b': "int (Suc n) + int (upserts ss) \<le> 2147483647"
      by simp_all
    from upsert_window_state[OF Cons.prems(2) b, of now_utc] obtain tbl1 where
      i1: "insert_on_conflict (window_row k ws w now_utc (Suc 0)) tbl
            = Inr (window_row k ws w now_utc (Suc n), tbl1)"
      and st1: "window_state k ws w (Suc n) now_utc tbl1"
      by blast
    from rate_limit_consume_window_state[OF key w ws Cons.prems(3) b, of random_hit p_max]
    obtain tbl_s1 where
      r1: "rate_limit_consume now_utc random_hit p_bucket_key p_max p_window_seconds tbl_s
            = Inr (consume_return now_utc p_max (window_row k ws w now_utc (Suc n)), tbl_s1)"
      and sts1: "window_state k ws w (Suc n) now_utc tbl_s1"
      by blast
    from Cons.IH[OF rest st1 sts1 b'] obtain obs tbl' tbl_s' t' where
      ih: "exec_schedule ss tbl1 = Inr (obs, tbl')"
        "map fst obs
          = map fst (filter (\<lambda>(c, s). case s of InsertOnConflict _ \<Rightarrow> True | _ \<Rightarrow> False) ss)"
        "map (\<lambda>(c, rl). request_count rl) obs = map int [Suc (Suc n)..<Suc (Suc n + upserts ss)]"
        "window_state k ws w (Suc n + upserts ss) t' tbl'"
        "consume_serially p_bucket_key p_window_seconds (map (\<lambda>c. calls ! c) (map fst obs)) tbl_s1
          = Inr (map (\<lambda>(c, rl). consume_return (fst (calls ! c)) (snd (snd (calls ! c))) rl) obs,
                 tbl_s')"
        "window_state k ws w (Suc n + upserts ss) t' tbl_s'"
      by blast
    let ?obs = "(c, window_row k ws w now_utc (Suc n)) # obs"
    have e1: "exec_schedule (cs # ss) tbl = Inr (?obs, tbl')"
      by (simp add: cs ins i1 ih(1))
    have e2: "map fst ?obs
        = map fst (filter (\<lambda>(c, s). case s of InsertOnConflict _ \<Rightarrow> True | _ \<Rightarrow> False) (cs # ss))"
      by (simp add: cs ins ih(2))
    have "[Suc n..<Suc (n + Suc (upserts ss))] = Suc n # [Suc (Suc n)..<Suc (Suc n + upserts ss)]"
      by (simp add: upt_conv_Cons)
    then have e3: "map (\<lambda>(c, rl). request_count rl) ?obs
        = map int [Suc n..<Suc (n + upserts (cs # ss))]"
      unfolding ups by (simp add: ih(3) window_row_def)
    have e4: "consume_serially p_bucket_key p_window_seconds (map (\<lambda>c. calls ! c) (map fst ?obs)) tbl_s
        = Inr (map (\<lambda>(c, rl). consume_return (fst (calls ! c)) (snd (snd (calls ! c))) rl) ?obs,
               tbl_s')"
      using ih(5) by (simp add: call r1)
    from ih(4,6) have e5: "window_state k ws w (n + upserts (cs # ss)) t' tbl'"
        "window_state k ws w (n + upserts (cs # ss)) t' tbl_s'"
      by (simp_all add: ups)
    from e1 e2 e3 e4 e5 show ?thesis by blast
  next
    assume cl: "s = CleanupExpired now_utc (Some 200)"
    have ups: "upserts (cs # ss) = upserts ss"
      by (simp add: cs cl upserts_Cons_cleanup)
    let ?tbl1 = "snd (rate_limit_cleanup_expired now_utc (Some 200) tbl)"
    from cleanup_window_state[OF Cons.prems(2) eq(2)]
    have st1: "window_state k ws w n t ?tbl1" .
    from Cons.prems(4) have b': "int n + int (upserts ss) \<le> 2147483647"
      by (simp add: ups)
    from Cons.IH[OF rest st1 Cons.prems(3) b'] obtain obs tbl' tbl_s' t' where
      ih: "exec_schedule ss ?tbl1 = Inr (obs, tbl')"
        "map fst obs
          = map fst (filter (\<lambda>(c, s). case s of InsertOnConflict _ \<Rightarrow> True | _ \<Rightarrow> False) ss)"
        "map (\<lambda>(c, rl). request_count rl) obs = map int [Suc n..<Suc (n + upserts ss)]"
        "window_state k ws w (n + upserts ss) t' tbl'"
        "consume_serially p_bucket_key p_window_seconds (map (\<lambda>c. calls ! c) (map fst obs)) tbl_s
          = Inr (map (\<lambda>(c, rl). consume_return (fst (calls ! c)) (snd (snd (calls ! c))) rl) obs,
                 tbl_s')"
        "window_state k ws w (n + upserts ss) t' tbl_s'"
      by blast
    have e1: "exec_schedule (cs # ss) tbl = Inr (obs, tbl')"
      by (simp add: cs cl ih(1))
    have e2: "map fst obs
        = map fst (filter (\<lambda>(c, s). case s of InsertOnConflict _ \<Rightarrow> True | _ \<Rightarrow> False) (cs # ss))"
      by (simp add: cs cl ih(2))
    from e1 e2 ih(3-6) show ?thesis unfolding ups by blast
  qed
qed

text \<open>
  Claim C3. \<open>N\<close> concurrent calls of \<open>rate_limit_consume\<close> on one key, with
  timestamps in one aligned window that has not counted yet: whatever the interleaving
  of their statements, every statement succeeds, each call is returned one row, the
  rows returned carry the counts \<open>1, 2, ..., N\<close> in the order of the upserts, and the
  stored \<open>request_count\<close> ends at \<open>N\<close>. The rows the calls compute from what they
  observed are the rows that \<open>rate_limit_consume\<close> returns when the same calls run one
  after the other in the order of their upserts, and that run leaves the same bucket row:
  no increment is lost, the increment-or-reset decision and the write being the single
  upsert statement.
\<close>

theorem concurrent_consume_no_lost_update:
  assumes key: "pg_trim (coalesce p_bucket_key '''') = k" "k \<noteq> ''''"
    and w: "w = clamp_window_seconds p_window_seconds"
    and same_window: "\<forall>(now_utc, random_hit, p_max) \<in> set calls.
                        canonical_window_start now_utc w = ws"
    and pk: "buckets_pkey tbl"
    and fresh: "\<forall>rl. bucket_row tbl k = Some rl
                  \<longrightarrow> \<not> (window_started_at rl = ws \<and> window_seconds rl = w)"
    and n: "calls \<noteq> []" "int (length calls) \<le> 2147483647"
    and sched: "interleaving (concurrent_statements p_bucket_key p_window_seconds calls) schedule"
  shows "\<exists>obs tbl' rl tbl_s.
           exec_schedule schedule tbl = Inr (obs, tbl')
         \<and> bucket_row tbl' k = Some rl \<and> request_count rl = int (length calls)
         \<and> mset (map fst obs) = mset [0..<length calls]
         \<and> map (\<lambda>(c, rl). request_count rl) obs = map int [1..<Suc (length calls)]
         \<and> consume_serially p_bucket_key p_window_seconds (map (\<lambda>c. calls ! c) (map fst obs)) tbl
             = Inr (map (\<lambda>(c, rl). consume_return (fst (calls ! c)) (snd (snd (calls ! c))) rl) obs,
                    tbl_s)
         \<and> bucket_row tbl_s k = Some rl"
proof -
  let ?P = "\<lambda>(c :: nat, s). case s of InsertOnConflict _ \<Rightarrow> True | _ \<Rightarrow> False"
  let ?stmts = "\<lambda>(c, now_utc, random_hit, p_max :: int option).
      map (Pair c) (consume_statements now_utc random_hit p_bucket_key p_window_seconds)"
  have win: "\<forall>c < length calls. canonical_window_start (fst (calls ! c)) w = ws"
  proof (intro allI impI)
    fix c assume "c < length calls"
    then have "calls ! c \<in> set calls" by simp
    with same_window show "canonical_window_start (fst (calls ! c)) w = ws"
      by (cases "calls ! c") auto
  qed
  have member: "\<forall>(c, s) \<in> set schedule. c < length calls
           \<and> s \<in> set (consume_statements (fst (calls ! c)) (fst (snd (calls ! c)))
                        p_bucket_key p_window_seconds)"
  proof -
    have "c < length calls \<and> s \<in> set (consume_statements (fst (calls ! c)) (fst (snd (calls ! c)))
                        p_bucket_key p_window_seconds)"
      if "(c, s) \<in> set schedule" for c s
    proof -
      from that interleaving_set[OF sched] obtain xs where
        xs: "xs \<in> set (concurrent_statements p_bucket_key p_window_seconds calls)" "(c, s) \<in> set xs"
        by auto
      then obtain c' now_utc random_hit p_max where
        e: "(c', now_utc, random_hit, p_max) \<in> set (enumerate 0 calls)"
           "xs = map (Pair c') (consume_statements now_utc random_hit p_bucket_key p_window_seconds)"
        by (auto simp: concurrent_statements_def)
      from e(1) have "c' < length calls" "calls ! c' = (now_utc, random_hit, p_max)"
        by (auto simp: in_set_enumerate_eq)
      with xs(2) e(2) show ?thesis by auto
    qed
    then show ?thesis by auto
  qed
  have one: "map fst (filter ?P (?stmts x)) = [fst x]" if "x \<in> set (enumerate 0 calls)" for x
  proof -
    obtain c now_utc random_hit p_max where x: "x = (c, now_utc, random_hit, p_max)"
      by (cases x) auto
    with that have "c < length calls" "calls ! c = (now_utc, random_hit, p_max)"
      by (auto simp: in_set_enumerate_eq)
    with win have "canonical_window_start now_utc w = ws" by fastforce
    from consume_statements_eq(1)[OF key w this, of random_hit] show ?thesis
      by (simp add: x)
  qed
  have "map (\<lambda>x. mset (map fst (filter ?P (?stmts x)))) (enumerate 0 calls)
      = map (\<lambda>x. {#fst x#}) (enumerate 0 calls)"
  proof (rule map_cong[OF refl])
    fix x assume "x \<in> set (enumerate 0 calls)"
    from one[OF this] show "mset (map fst (filter ?P (?stmts x))) = {#fst x#}"
      by (simp only: mset.simps)
  qed
  then have "(\<Sum>xs\<leftarrow>map ?stmts (enumerate 0 calls). mset (map fst (filter ?P xs)))
      = (\<Sum>x\<leftarrow>enumerate 0 calls. {#fst x#})"
    by (simp only: map_map o_def)
  also have "\<dots> = mset (map fst (enumerate 0 calls))"
    by (rule sum_list_singletons)
  also have "\<dots> = mset [0..<length calls]"
    by (simp only: map_fst_enumerate add_0)
  finally have "(\<Sum>xs\<leftarrow>concurrent_statements p_bucket_key p_window_seconds calls.
                   mset (map fst (filter ?P xs))) = mset [0..<length calls]"
    by (simp only: concurrent_statements_def)
  with interleaving_filter_map[OF sched, of fst ?P]
  have callers: "mset (map fst (filter ?P schedule)) = mset [0..<length calls]"
    by (simp only:)
  from mset_eq_length[OF callers] have ups: "upserts schedule = length calls"
    by (simp add: upserts_def)
  have start: "window_state k ws w 0 0 tbl"
    using pk fresh by (auto simp: window_state_def split: option.splits)
  have bound: "int 0 + int (upserts schedule) \<le> 2147483647"
    using n(2) ups by simp
  from exec_schedule_serial[OF key w win member start start bound]
  obtain obs tbl' tbl_s t' where
    r: "exec_schedule schedule tbl = Inr (obs, tbl')"
      "map fst obs = map fst (filter ?P schedule)"
      "map (\<lambda>(c, rl). request_count rl) obs = map int [Suc 0..<Suc (0 + upserts schedule)]"
      "window_state k ws w (0 + upserts schedule) t' tbl'"
      "consume_serially p_bucket_key p_window_seconds (map (\<lambda>c. calls ! c) (map fst obs)) tbl
        = Inr (map (\<lambda>(c, rl). consume_return (fst (calls ! c)) (snd (snd (calls ! c))) rl) obs,
               tbl_s)"
      "window_state k ws w (0 + upserts schedule) t' tbl_s"
    by blast
  from n(1) have pos: "length calls \<noteq> 0" by simp
  from r(4,6) pos have rows: "bucket_row tbl' k = Some (window_row k ws w t' (length calls))"
      "bucket_row tbl_s k = Some (window_row k ws w t' (length calls))"
    by (simp_all add: ups window_state_def)
  have cnt: "request_count (window_row k ws w t' (length calls)) = int (length calls)"
    by (simp add: window_row_def)
  from r(3) have counts: "map (\<lambda>(c, rl). request_count rl) obs = map int [1..<Suc (length calls)]"
    by (simp add: ups)
  from r(2) callers have perm: "mset (map fst obs) = mset [0..<length calls]" by simp
  from r(1) rows cnt perm counts r(5) show ?thesis by blast
qed

theorem concurrent_consume_no_lost_update_witness:
  "interleaving (concurrent_statements (Some ''k'') (Some 60) example_calls) example_schedule
   \<and> exec_schedule example_schedule []
       = Inr ([(1, window_row ''k'' 120000000 60 130000000 1),
               (0, window_row ''k'' 120000000 60 125000000 2),
               (2, window_row ''k'' 120000000 60 140000000 3)],
              [window_row ''k'' 120000000 60 140000000 3])
   \<and> (\<exists>tbl_s. consume_serially (Some ''k'') (Some 60)
                  [example_calls ! 1, example_calls ! 0, example_calls ! 2] []
                = Inr ([\<lparr>allowed = True, remaining = 1, retry_after_seconds = 0,
                          out_window_ends_at = 180000000\<rparr>,
                        \<lparr>allowed = True, remaining = 0, retry_after_seconds = 0,
                          out_window_ends_at = 180000000\<rparr>,
                        \<lparr>allowed = False, remaining = 0, retry_after_seconds = 40,
                          out_window_ends_at = 180000000\<rparr>], tbl_s)
              \<and> bucket_row tbl_s ''k'' = Some (window_row ''k'' 120000000 60 140000000 3))"
proof -
  let ?obs = "[(1 :: nat, window_row ''k'' 120000000 60 130000000 1),
               (0, window_row ''k'' 120000000 60 125000000 2),
               (2, window_row ''k'' 120000000 60 140000000 3)]"
  have key: "pg_trim (coalesce (Some ''k'') '''') = ''k''" "''k'' \<noteq> ''''"
    by (simp_all add: pg_trim_def coalesce_def)
  have w: "(60::int) = clamp_window_seconds (Some 60)"
    by (simp add: clamp_window_seconds_def coalesce_def)
  have sw: "\<forall>(now_utc, random_hit, p_max) \<in> set example_calls.
      canonical_window_start now_utc 60 = 120000000"
    by (simp add: example_calls_def canonical_window_start_div)
  have pk: "buckets_pkey []" by (simp add: buckets_pkey_def)
  have fresh: "\<forall>rl. bucket_row [] ''k'' = Some rl
      \<longrightarrow> \<not> (window_started_at rl = 120000000 \<and> window_seconds rl = 60)"
    by (simp add: bucket_row_def)
  have n: "example_calls \<noteq> []" "int (length example_calls) \<le> 2147483647"
    by (simp_all add: example_calls_def)
  have stmts: "concurrent_statements (Some ''k'') (Some 60) example_calls
      = [[example_schedule ! 1], [example_schedule ! 0, example_schedule ! 2], [example_schedule ! 3]]"
    by code_simp
  define s0 where "s0 = example_schedule ! 0"
  define s1 where "s1 = example_schedule ! 1"
  define s2 where "s2 = example_schedule ! 2"
  define s3 where "s3 = example_schedule ! 3"
  have sched: "example_schedule = [s0, s1, s2, s3]"
    by (simp add: s0_def s1_def s2_def s3_def example_schedule_def)
  have stmts': "concurrent_statements (Some ''k'') (Some 60) example_calls
      = [[s1], [s0, s2], [s3]]"
    using stmts by (simp only: s0_def s1_def s2_def s3_def)
  have "interleaving [[s1], [s0, s2], [s3]] [s0, s1, s2, s3]"
    apply (rule interleaving_Cons[where i = 1 and xs = "[s2]"], simp, simp)
    apply (rule interleaving_Cons[where i = 0 and xs = "[]"], simp, simp)
    apply (rule interleaving_Cons[where i = 1 and xs = "[]"], simp, simp)
    apply (rule interleaving_Cons[where i = 2 and xs = "[]"], simp, simp)
    apply (rule interleaving_Nil, simp)
    done
  then have il: "interleaving (concurrent_statements (Some ''k'') (Some 60) example_calls)
      example_schedule"
    by (simp only: stmts' sched)
  have ev: "exec_schedule example_schedule [] = Inr (?obs, [window_row ''k'' 120000000 60 140000000 3])"
    by code_simp
  have resp: "map (\<lambda>(c, rl). consume_return (fst (example_calls ! c)) (snd (snd (example_calls ! c))) rl)
                ?obs
      = [\<lparr>allowed = True, remaining = 1, retry_after_seconds = 0, out_window_ends_at = 180000000\<rparr>,
         \<lparr>allowed = True, remaining = 0, retry_after_seconds = 0, out_window_ends_at = 180000000\<rparr>,
         \<lparr>allowed = False, remaining = 0, retry_after_seconds = 40, out_window_ends_at = 180000000\<rparr>]"
    by code_simp
  have row: "bucket_row [window_row ''k'' 120000000 60 140000000 3] ''k''
      = Some (window_row ''k'' 120000000 60 140000000 3)"
    by code_simp
  from concurrent_consume_no_lost_update[OF key w sw pk fresh n il]
  obtain obs tbl' rl tbl_s where
    r: "exec_schedule example_schedule [] = Inr (obs, tbl')"
      "bucket_row tbl' ''k'' = Some rl"
      "consume_serially (Some ''k'') (Some 60) (map (\<lambda>c. example_calls ! c) (map fst obs)) []
        = Inr (map (\<lambda>(c, rl). consume_return (fst (example_calls ! c))
                                 (snd (snd (example_calls ! c))) rl) obs, tbl_s)"
      "bucket_row tbl_s ''k'' = Some rl"
    by blast
  from r(1) ev have obs: "obs = ?obs" and tbl': "tbl' = [window_row ''k'' 120000000 60 140000000 3]"
    by simp_all
  from r(2) row have rl: "rl = window_row ''k'' 120000000 60 140000000 3"
    unfolding tbl' by simp
  from r(3) have "consume_serially (Some ''k'') (Some 60)
                  [example_calls ! 1, example_calls ! 0, example_calls ! 2] []
      = Inr (map (\<lambda>(c, rl). consume_return (fst (example_calls ! c))
                                 (snd (snd (example_calls ! c))) rl) ?obs, tbl_s)"
    unfolding obs by simp
  with resp r(4) rl il ev show ?thesis by (simp only:) blast
qed

section \<open>Properties of the rate limiter\<close>

lemma normalizeKeyPart_nonempty: "fallback \<noteq> [] \<Longrightarrow> normalizeKeyPart v fallback \<noteq> []"
  by (auto simp: normalizeKeyPart_def Let_def)

lemma toHashedKeyPart_nonempty:
  assumes "\<forall>s. length (sha256_hex s) = 64"
  shows "toHashedKeyPart sha256_hex v \<noteq> []"
proof -
  have "sha256_hex s \<noteq> []" for s
    using assms[rule_format, of s] by auto
  then show ?thesis by (simp add: toHashedKeyPart_def Let_def)
qed

lemma normalize_targets_length:
  assumes "\<forall>s. length (sha256_hex s) = 64"
  shows "length (normalize_targets sha256_hex ts) = length ts"
proof -
  have "filter (\<lambda>(sc, ident, r). length ident > 0)
       (map (\<lambda>target.
               (normalizeKeyPart (scope target) ''scope'',
                (if hashIdentifier target = Some True
                 then toHashedKeyPart sha256_hex (target_identifier target)
                 else normalizeKeyPart (target_identifier target) ''unknown''),
                rule target)) ts)
     = map (\<lambda>target.
               (normalizeKeyPart (scope target) ''scope'',
                (if hashIdentifier target = Some True
                 then toHashedKeyPart sha256_hex (target_identifier target)
                 else normalizeKeyPart (target_identifier target) ''unknown''),
                rule target)) ts"
    using toHashedKeyPart_nonempty[OF assms] normalizeKeyPart_nonempty[of "''unknown''"]
    by (intro filter_True) auto
  then show ?thesis by (simp add: normalize_targets_def)
qed

lemma client_rpc_log:
  "client_rpc env k m w b = (resp, b') \<Longrightarrow> rpc_log b' = rpc_log b @ [(k, m, w)]"
  by (auto simp: client_rpc_def Let_def split: option.splits sum.splits if_splits)

lemma rate_limit_consume_blocked_retry:
  "rate_limit_consume now_utc hit k m w tbl = Inr (row, tbl') \<Longrightarrow> \<not> allowed row
     \<Longrightarrow> 1 \<le> retry_after_seconds row"
  by (auto simp: rate_limit_consume_def Let_def greatest_def split: if_splits sum.splits)

lemma js_trim_prefix:
  assumes "b \<noteq> []" "\<not> js_is_space (hd b)" "\<not> js_is_space (last b)"
  shows "\<exists>d. js_trim (b @ x) = b @ d"
proof -
  have h: "dropWhile js_is_space (b @ x) = b @ x"
    using assms(1,2) by (cases b) simp_all
  have l: "dropWhile js_is_space (rev b) = rev b"
    using assms(1,3) by (cases "rev b") (simp_all add: last_rev[symmetric] del: last_rev)
  have t: "js_trim (b @ x) = rev (dropWhile js_is_space (rev x @ rev b))"
    by (simp only: js_trim_def h rev_append)
  show ?thesis
  proof (cases "\<forall>c \<in> set (rev x). js_is_space c")
    case True
    then have "dropWhile js_is_space (rev x @ rev b) = rev b"
      using l by (simp add: dropWhile_append del: set_rev)
    with t have "js_trim (b @ x) = b @ []" by simp
    then show ?thesis by blast
  next
    case False
    then have "dropWhile js_is_space (rev x @ rev b) = dropWhile js_is_space (rev x) @ rev b"
      by (auto simp add: dropWhile_append)
    with t have "js_trim (b @ x) = b @ rev (dropWhile js_is_space (rev x))" by simp
    then show ?thesis by blast
  qed
qed

lemma js_trim_base:
  "\<exists>d. js_trim (''Rate-limit backend unavailable.'' @ x) = ''Rate-limit backend unavailable.'' @ d"
  by (rule js_trim_prefix) (simp_all add: js_is_space_def)

lemma client_rpc_data:
  assumes "client_rpc env k m w b = (RpcData rows, b')"
  shows "transport_error env = None
     \<and> (\<exists>row tbl'. rows = [row]
           \<and> rate_limit_consume (rpc_now env) (rpc_random_hit env) (Some k) (Some m) (Some w)
                (buckets b) = Inr (row, tbl'))"
  using assms by (auto simp: client_rpc_def Let_def split: option.splits sum.splits if_splits)

text \<open>An answer of the store and the promise \<open>consumeBucket\<close> makes of it.\<close>

lemma client_rpc_reply:
  assumes "client_rpc env k m w b = (resp, b')"
  shows "(\<exists>msg. resp = RpcError msg)
       \<or> (\<exists>row. resp = RpcData [row] \<and> transport_error env = None
             \<and> (\<not> allowed row \<longrightarrow> 1 \<le> retry_after_seconds row))"
proof (cases resp)
  case (RpcError msg)
  then show ?thesis by simp
next
  case (RpcData rows)
  from client_rpc_data[OF assms[unfolded RpcData]] obtain row tbl' where
    d: "transport_error env = None" "rows = [row]"
       "rate_limit_consume (rpc_now env) (rpc_random_hit env) (Some k) (Some m) (Some w)
          (buckets b) = Inr (row, tbl')"
    by blast
  from rate_limit_consume_blocked_retry[OF d(3)] d(1,2) RpcData show ?thesis by simp
qed

lemma client_rpc_transport_error:
  assumes "client_rpc env k m w b = (resp, b')" "transport_error env \<noteq> None"
  shows "\<exists>msg. resp = RpcError msg"
  using client_rpc_reply[OF assms(1)] assms(2) by auto

lemma consumeBucket_reply:
  assumes creds: "service_credentials js"
    and c: "client_rpc env k (fst (normalizeRule r)) (snd (normalizeRule r)) b = (resp, b1)"
  shows "\<exists>p. consumeBucket js env k r b = (p, b1)
      \<and> ((\<exists>msg d. resp = RpcError msg
              \<and> p = Inl (Error (''Rate-limit backend unavailable.'' @ d))
              \<and> (node_env_production js \<longrightarrow> d = []))
         \<or> (\<exists>row. resp = RpcData [row]
              \<and> (\<not> allowed row \<longrightarrow> 1 \<le> retry_after_seconds row)
              \<and> p = Inr \<lparr>result_allowed = allowed row,
                             retryAfterSeconds = max 0 (retry_after_seconds row)\<rparr>))"
proof (cases resp)
  case (RpcError message)
  show ?thesis
  proof (cases "node_env_production js")
    case True
    with creds c RpcError
    have "consumeBucket js env k r b
        = (Inl (Error (''Rate-limit backend unavailable.'' @ [])), b1)"
      by (simp add: consumeBucket_def Let_def)
    with True RpcError show ?thesis by blast
  next
    case False
    obtain d where "js_trim (''Rate-limit backend unavailable.''
          @ (if message \<noteq> [] then '' '' @ message else []))
        = ''Rate-limit backend unavailable.'' @ d"
      using js_trim_base by blast
    with creds c RpcError False
    have "consumeBucket js env k r b
        = (Inl (Error (''Rate-limit backend unavailable.'' @ d)), b1)"
      by (simp add: consumeBucket_def Let_def del: append.simps)
    with False RpcError show ?thesis by blast
  qed
next
  case (RpcData rows)
  from client_rpc_reply[OF c] RpcData obtain row where
    row: "rows = [row]" "\<not> allowed row \<longrightarrow> 1 \<le> retry_after_seconds row"
    by auto
  from creds c RpcData row(1)
  have "consumeBucket js env k r b
      = (Inr \<lparr>result_allowed = allowed row,
                retryAfterSeconds = max 0 (retry_after_seconds row)\<rparr>, b1)"
    by (simp add: consumeBucket_def Let_def asConsumeRow_def)
  with RpcData row show ?thesis by blast
qed

lemma store_replies_log:
  "store_replies envs i reqs b = (replies, b')
    \<Longrightarrow> length replies = length reqs \<and> rpc_log b' = rpc_log b @ reqs
      \<and> (\<forall>j < length reqs. transport_error (envs (i + j)) \<noteq> None
            \<longrightarrow> (\<exists>msg. replies ! j = RpcError msg))
      \<and> (\<forall>resp \<in> set replies. (\<exists>msg. resp = RpcError msg) \<or> (\<exists>row. resp = RpcData [row]))"
proof (induction reqs arbitrary: i b replies b')
  case Nil
  then show ?case by simp
next
  case (Cons q reqs)
  obtain k m w where q: "q = (k, m, w)" by (cases q)
  obtain resp b1 where c: "client_rpc (envs i) k m w b = (resp, b1)"
    by (cases "client_rpc (envs i) k m w b")
  obtain resps b2 where r: "store_replies envs (Suc i) reqs b1 = (resps, b2)"
    by (cases "store_replies envs (Suc i) reqs b1")
  from Cons.prems[unfolded q store_replies.simps c r Let_def prod.case]
  have e: "replies = resp # resps" "b' = b2" by simp_all
  note ih = Cons.IH[OF r]
  have tr: "\<exists>msg. replies ! j = RpcError msg"
    if "j < length (q # reqs)" "transport_error (envs (i + j)) \<noteq> None" for j
  proof (cases j)
    case 0
    with that client_rpc_transport_error[OF c] e show ?thesis by simp
  next
    case (Suc j')
    with that ih e show ?thesis by simp
  qed
  from client_rpc_reply[OF c]
  have shape: "(\<exists>msg. resp = RpcError msg) \<or> (\<exists>row. resp = RpcData [row])" by blast
  from ih client_rpc_log[OF c] e q tr shape show ?case by auto
qed

lemma consumeBuckets_replies:
  assumes creds: "service_credentials js"
  shows "store_replies envs i (map (bucket_request act) ts) b = (replies, b')
    \<Longrightarrow> \<exists>ps. consumeBuckets js envs i act ts b = (ps, b')
        \<and> list_all2
             (\<lambda>resp p.
                (\<exists>msg d. resp = RpcError msg
                   \<and> p = Inl (Error (''Rate-limit backend unavailable.'' @ d))
                   \<and> (node_env_production js \<longrightarrow> d = []))
                \<or> (\<exists>row. resp = RpcData [row]
                     \<and> (\<not> allowed row \<longrightarrow> 1 \<le> retry_after_seconds row)
                     \<and> p = Inr \<lparr>result_allowed = allowed row,
                                    retryAfterSeconds = max 0 (retry_after_seconds row)\<rparr>))
             replies ps"
proof (induction ts arbitrary: i b replies b')
  case Nil
  then show ?case by simp
next
  case (Cons t ts)
  obtain sc ident r where t: "t = (sc, ident, r)" by (cases t)
  let ?k = "''rl:'' @ act @ '':'' @ sc @ '':'' @ ident"
  have q: "bucket_request act t = (?k, fst (normalizeRule r), snd (normalizeRule r))"
    by (simp add: bucket_request_def t)
  obtain resp b1 where
    c: "client_rpc (envs i) ?k (fst (normalizeRule r)) (snd (normalizeRule r)) b = (resp, b1)"
    by (cases "client_rpc (envs i) ?k (fst (normalizeRule r)) (snd (normalizeRule r)) b")
  obtain resps b2 where
    r: "store_replies envs (Suc i) (map (bucket_request act) ts) b1 = (resps, b2)"
    by (cases "store_replies envs (Suc i) (map (bucket_request act) ts) b1")
  from Cons.prems[unfolded list.map q store_replies.simps c r Let_def prod.case]
  have e: "replies = resp # resps" "b' = b2" by simp_all
  from Cons.IH[OF r] obtain ps where
    ps: "consumeBuckets js envs (Suc i) act ts b1 = (ps, b2)"
    and rel: "list_all2
             (\<lambda>resp p.
                (\<exists>msg d. resp = RpcError msg
                   \<and> p = Inl (Error (''Rate-limit backend unavailable.'' @ d))
                   \<and> (node_env_production js \<longrightarrow> d = []))
                \<or> (\<exists>row. resp = RpcData [row]
                     \<and> (\<not> allowed row \<longrightarrow> 1 \<le> retry_after_seconds row)
                     \<and> p = Inr \<lparr>result_allowed = allowed row,
                                    retryAfterSeconds = max 0 (retry_after_seconds row)\<rparr>))
             resps ps"
    by blast
  from consumeBucket_reply[OF creds c] obtain p where
    p: "consumeBucket js (envs i) ?k r b = (p, b1)"
    and one: "(\<exists>msg d. resp = RpcError msg
                   \<and> p = Inl (Error (''Rate-limit backend unavailable.'' @ d))
                   \<and> (node_env_production js \<longrightarrow> d = []))
                \<or> (\<exists>row. resp = RpcData [row]
                     \<and> (\<not> allowed row \<longrightarrow> 1 \<le> retry_after_seconds row)
                     \<and> p = Inr \<lparr>result_allowed = allowed row,
                                    retryAfterSeconds = max 0 (retry_after_seconds row)\<rparr>)"
    by blast
  have "consumeBuckets js envs i act (t # ts) b = (p # ps, b2)"
    unfolding t consumeBuckets.simps p ps Let_def prod.case ..
  with one rel e show ?case by (simp del: append.simps)
qed

lemma replies_all_data:
  assumes rel: "list_all2
             (\<lambda>resp p.
                (\<exists>msg d. resp = RpcError msg
                   \<and> p = Inl (Error (''Rate-limit backend unavailable.'' @ d))
                   \<and> (node_env_production js \<longrightarrow> d = []))
                \<or> (\<exists>row. resp = RpcData [row]
                     \<and> (\<not> allowed row \<longrightarrow> 1 \<le> retry_after_seconds row)
                     \<and> p = Inr \<lparr>result_allowed = allowed row,
                                    retryAfterSeconds = max 0 (retry_after_seconds row)\<rparr>))
             replies ps"
    and data: "\<forall>resp \<in> set replies. \<exists>row. resp = RpcData [row]"
  shows "ps = map (\<lambda>row. Inr \<lparr>result_allowed = allowed row,
                               retryAfterSeconds = max 0 (retry_after_seconds row)\<rparr>)
                (concat (map reply_rows replies))
       \<and> (\<forall>row \<in> set (concat (map reply_rows replies)).
             \<not> allowed row \<longrightarrow> 1 \<le> retry_after_seconds row)"
  using rel data
proof (induction rule: list_all2_induct)
  case Nil
  then show ?case by simp
next
  case (Cons resp replies p ps)
  from Cons.prems obtain row where row: "resp = RpcData [row]" by auto
  with Cons.hyps(1) have "\<not> allowed row \<longrightarrow> 1 \<le> retry_after_seconds row"
      "p = Inr \<lparr>result_allowed = allowed row,
                retryAfterSeconds = max 0 (retry_after_seconds row)\<rparr>"
    by auto
  with Cons.IH Cons.prems row show ?case by (simp add: reply_rows_def)
qed

lemma replies_some_error:
  assumes rel: "list_all2
             (\<lambda>resp p.
                (\<exists>msg d. resp = RpcError msg
                   \<and> p = Inl (Error (''Rate-limit backend unavailable.'' @ d))
                   \<and> (node_env_production js \<longrightarrow> d = []))
                \<or> (\<exists>row. resp = RpcData [row]
                     \<and> (\<not> allowed row \<longrightarrow> 1 \<le> retry_after_seconds row)
                     \<and> p = Inr \<lparr>result_allowed = allowed row,
                                    retryAfterSeconds = max 0 (retry_after_seconds row)\<rparr>))
             replies ps"
  shows "((\<exists>resp \<in> set replies. \<exists>msg. resp = RpcError msg) \<longrightarrow> (\<exists>p \<in> set ps. isl p))
       \<and> (\<forall>p \<in> set ps. isl p \<longrightarrow>
             (\<exists>d. p = Inl (Error (''Rate-limit backend unavailable.'' @ d))
                  \<and> (node_env_production js \<longrightarrow> d = [])))"
  using rel
proof (induction rule: list_all2_induct)
  case Nil
  then show ?case by simp
next
  case (Cons resp replies p ps)
  from Cons.hyps(1) have
    "((\<exists>msg. resp = RpcError msg) \<longrightarrow> isl p)
     \<and> (isl p \<longrightarrow> (\<exists>d. p = Inl (Error (''Rate-limit backend unavailable.'' @ d))
                  \<and> (node_env_production js \<longrightarrow> d = [])))"
    by (auto simp del: append.simps)
  with Cons.IH show ?case by (auto simp del: append.simps)
qed

lemma promise_all_fulfilled:
  "\<forall>p \<in> set ps. \<not> isl p \<Longrightarrow> promise_all settle_order ps = Inr (map projr ps)"
proof -
  assume a: "\<forall>p \<in> set ps. \<not> isl p"
  then have "filter (\<lambda>i. i < length ps \<and> isl (ps ! i)) settle_order = []"
    by (auto simp: filter_empty_conv)
  moreover from a have "filter isl ps = []" by (auto simp: filter_empty_conv)
  ultimately show ?thesis by (simp add: promise_all_def)
qed

lemma promise_all_rejected:
  assumes "\<exists>p \<in> set ps. isl p"
  shows "\<exists>p \<in> set ps. isl p \<and> promise_all settle_order ps = Inl (projl p)"
proof (cases "filter (\<lambda>i. i < length ps \<and> isl (ps ! i)) settle_order")
  case Nil
  from assms obtain p qs where f: "filter isl ps = p # qs"
    by (cases "filter isl ps") (auto simp: filter_empty_conv)
  then have "p \<in> set (filter isl ps)" by simp
  then have "p \<in> set ps" "isl p" by auto
  with Nil f show ?thesis by (auto simp: promise_all_def)
next
  case (Cons i rest)
  then have "i \<in> set (filter (\<lambda>i. i < length ps \<and> isl (ps ! i)) settle_order)" by simp
  then have "i < length ps" "isl (ps ! i)" by auto
  with Cons show ?thesis by (auto simp: promise_all_def)
qed

lemma foldl_max:
  "foldl (\<lambda>m r. max m (f r)) (a::int) xs = Max (insert a (f ` set xs))"
proof (induction xs arbitrary: a)
  case Nil
  then show ?case by simp
next
  case (Cons x xs)
  have "Max (insert (max a (f x)) (f ` set xs)) = Max (insert a (insert (f x) (f ` set xs)))"
    by (cases "set xs = {}") (simp_all add: max.assoc)
  with Cons show ?case by simp
qed


text \<open>
  Claim C4. \<open>enforceDurableRateLimit\<close> puts one consume request to the store for
  each target, in order: the request of a target carries the key
  \<open>rl:action:scope:identifier\<close> and the normalised rule of that target, and the store
  ends in the state these requests leave. When the store answers every request with a
  row, the call raises \<open>RateLimitExceededError\<close> exactly when some row is not allowed,
  and the error carries the maximum \<open>retry_after_seconds\<close> over the rows that are not
  allowed. When some request is answered with an error, as every request that does
  not reach the store is, the call raises a plain \<open>Error\<close> "Rate-limit backend
  unavailable." instead, a value of another type than \<open>RateLimitExceededError\<close>.
\<close>

theorem enforceDurableRateLimit_outcome:
  assumes sha: "\<forall>s. length (sha256_hex s) = 64"
    and creds: "service_credentials js"
    and reqs: "reqs = map (bucket_request (normalizeKeyPart (action options) ''action''))
                       (normalize_targets sha256_hex (targets options))"
    and store: "store_replies envs 0 reqs b = (replies, b')"
  shows "length reqs = length (targets options)
     \<and> length replies = length reqs
     \<and> rpc_log b' = rpc_log b @ reqs
     \<and> snd (enforceDurableRateLimit sha256_hex js envs settle_order options b) = b'
     \<and> (\<forall>j < length replies. transport_error (envs j) \<noteq> None
           \<longrightarrow> (\<exists>msg. replies ! j = RpcError msg))
     \<and> (\<forall>resp \<in> set replies. (\<exists>msg. resp = RpcError msg) \<or> (\<exists>row. resp = RpcData [row]))
     \<and> ((\<forall>resp \<in> set replies. \<exists>row. resp = RpcData [row]) \<longrightarrow>
          fst (enforceDurableRateLimit sha256_hex js envs settle_order options b) =
            (let blocked = filter (\<lambda>row. \<not> allowed row) (concat (map reply_rows replies))
             in if blocked = [] then Inr ()
                else Inl (RateLimitExceededError (Max (retry_after_seconds ` set blocked)))))
     \<and> ((\<exists>resp \<in> set replies. \<exists>msg. resp = RpcError msg) \<longrightarrow>
          (\<exists>d. fst (enforceDurableRateLimit sha256_hex js envs settle_order options b) =
                 Inl (Error (''Rate-limit backend unavailable.'' @ d))
               \<and> (node_env_production js \<longrightarrow> d = [])))"
proof -
  let ?act = "normalizeKeyPart (action options) ''action''"
  let ?ts = "normalize_targets sha256_hex (targets options)"
  let ?conv = "\<lambda>row. \<lparr>result_allowed = allowed row,
                         retryAfterSeconds = max 0 (retry_after_seconds row)\<rparr>"
  have len: "length reqs = length (targets options)"
    unfolding reqs using normalize_targets_length[OF sha] by simp
  note log = store_replies_log[OF store, unfolded add_0]
  from consumeBuckets_replies[OF creds store[unfolded reqs]] obtain ps where
    run: "consumeBuckets js envs 0 ?act ?ts b = (ps, b')"
    and rel: "list_all2
             (\<lambda>resp p.
                (\<exists>msg d. resp = RpcError msg
                   \<and> p = Inl (Error (''Rate-limit backend unavailable.'' @ d))
                   \<and> (node_env_production js \<longrightarrow> d = []))
                \<or> (\<exists>row. resp = RpcData [row]
                     \<and> (\<not> allowed row \<longrightarrow> 1 \<le> retry_after_seconds row)
                     \<and> p = Inr (?conv row)))
             replies ps"
    by blast
  have empty: "ps = [] \<and> b' = b" if "?ts = []"
    using run that by simp
  have state: "snd (enforceDurableRateLimit sha256_hex js envs settle_order options b) = b'"
  proof (cases "?ts = []")
    case True
    with empty show ?thesis by (simp add: enforceDurableRateLimit_def Let_def)
  next
    case False
    with run show ?thesis
      by (simp add: enforceDurableRateLimit_def Let_def split: sum.splits)
  qed
  have ok: "fst (enforceDurableRateLimit sha256_hex js envs settle_order options b) =
            (let blocked = filter (\<lambda>row. \<not> allowed row) (concat (map reply_rows replies))
             in if blocked = [] then Inr ()
                else Inl (RateLimitExceededError (Max (retry_after_seconds ` set blocked))))"
    if data: "\<forall>resp \<in> set replies. \<exists>row. resp = RpcData [row]"
  proof (cases "?ts = []")
    case True
    with reqs log have "replies = []" by simp
    with True show ?thesis by (simp add: enforceDurableRateLimit_def Let_def)
  next
    case False
    define rows where "rows = concat (map reply_rows replies)"
    define blocked where "blocked = filter (\<lambda>row. \<not> allowed row) rows"
    from replies_all_data[OF rel data]
    have ps: "ps = map (\<lambda>row. Inr (?conv row)) rows"
      and ge: "\<forall>row \<in> set rows. \<not> allowed row \<longrightarrow> 1 \<le> retry_after_seconds row"
      by (simp_all add: rows_def)
    have ful: "\<forall>p \<in> set ps. \<not> isl p" by (auto simp: ps)
    have res: "map projr ps = map ?conv rows" by (simp add: ps o_def)
    have pa: "promise_all settle_order ps = Inr (map ?conv rows)"
      using promise_all_fulfilled[OF ful, of settle_order] res by simp
    have fb: "filter (\<lambda>result. \<not> result_allowed result) (map ?conv rows) = map ?conv blocked"
      by (simp add: blocked_def filter_map o_def)
    have retry: "retryAfterSeconds ` set (map ?conv blocked) = retry_after_seconds ` set blocked"
    proof -
      have "max 0 (retry_after_seconds row) = retry_after_seconds row" if "row \<in> set blocked" for row
        using that ge by (auto simp: blocked_def)
      then show ?thesis by (auto simp: image_iff)
    qed
    have ge': "1 \<le> x" if "x \<in> retry_after_seconds ` set blocked" for x
      using that ge by (auto simp: blocked_def)
    have mx: "max 1 (foldl (\<lambda>m r. max m (retryAfterSeconds r)) 1 (map ?conv blocked))
        = Max (retry_after_seconds ` set blocked)" if "blocked \<noteq> []"
    proof -
      from that have ne: "retry_after_seconds ` set blocked \<noteq> {}" by simp
      have "Max (insert 1 (retry_after_seconds ` set blocked))
          = max 1 (Max (retry_after_seconds ` set blocked))"
        using ne by (simp add: Max_insert)
      also have "\<dots> = Max (retry_after_seconds ` set blocked)"
        using ne ge' by (simp add: max_def Max_ge_iff)
      finally have m: "Max (insert 1 (retry_after_seconds ` set blocked))
          = Max (retry_after_seconds ` set blocked)" .
      have "1 \<le> Max (retry_after_seconds ` set blocked)"
        using ne ge' by (simp add: Max_ge_iff)
      with m show ?thesis
        unfolding foldl_max retry by simp
    qed
    from False run pa show ?thesis
      unfolding enforceDurableRateLimit_def Let_def rows_def[symmetric] blocked_def[symmetric]
      by (simp add: fb mx new_RateLimitExceededError_def del: foldl.simps)
  qed
  have bad: "\<exists>d. fst (enforceDurableRateLimit sha256_hex js envs settle_order options b) =
                 Inl (Error (''Rate-limit backend unavailable.'' @ d))
               \<and> (node_env_production js \<longrightarrow> d = [])"
    if err: "\<exists>resp \<in> set replies. \<exists>msg. resp = RpcError msg"
  proof -
    from replies_some_error[OF rel] err have rej: "\<exists>p \<in> set ps. isl p"
      and shape: "\<forall>p \<in> set ps. isl p \<longrightarrow>
             (\<exists>d. p = Inl (Error (''Rate-limit backend unavailable.'' @ d))
                  \<and> (node_env_production js \<longrightarrow> d = []))"
      by blast+
    from promise_all_rejected[OF rej, of settle_order] obtain p where
      p: "p \<in> set ps" "isl p" "promise_all settle_order ps = Inl (projl p)"
      by blast
    with shape obtain d where
      d: "p = Inl (Error (''Rate-limit backend unavailable.'' @ d))"
         "node_env_production js \<longrightarrow> d = []"
      by blast
    have "?ts \<noteq> []" using empty rej by auto
    with p(3) d run show ?thesis
      by (auto simp: enforceDurableRateLimit_def Let_def simp del: append.simps)
  qed
  from log have l1: "length replies = length reqs"
    and l2: "rpc_log b' = rpc_log b @ reqs"
    and l3: "\<forall>j < length reqs. transport_error (envs j) \<noteq> None
           \<longrightarrow> (\<exists>msg. replies ! j = RpcError msg)"
    and l4: "\<forall>resp \<in> set replies. (\<exists>msg. resp = RpcError msg) \<or> (\<exists>row. resp = RpcData [row])"
    by blast+
  from l3 have l3': "\<forall>j < length replies. transport_error (envs j) \<noteq> None
           \<longrightarrow> (\<exists>msg. replies ! j = RpcError msg)"
    by (simp only: l1)
  show ?thesis
    by (intro conjI impI; (rule len l1 l2 state l3' l4 | erule ok | erule bad))
qed

theorem enforceDurableRateLimit_outcome_witness:
  "rpc_log (snd (enforceDurableRateLimit example_sha256_hex example_js_env example_envs
        [0, 1, 2] example_options example_backend)) = example_requests
   \<and> map request_count (buckets (snd (enforceDurableRateLimit example_sha256_hex example_js_env
        example_envs [0, 1, 2] example_options example_backend))) = [2, 3, 1]
   \<and> fst (enforceDurableRateLimit example_sha256_hex example_js_env example_envs
        [0, 1, 2] example_options example_backend) = Inl (RateLimitExceededError 3475)
   \<and> rpc_log (snd (enforceDurableRateLimit example_sha256_hex example_js_env
        example_envs_unreachable [2, 1, 0] example_options example_backend)) = example_requests
   \<and> map request_count (buckets (snd (enforceDurableRateLimit example_sha256_hex example_js_env
        example_envs_unreachable [2, 1, 0] example_options example_backend))) = [2, 2, 1]
   \<and> fst (enforceDurableRateLimit example_sha256_hex example_js_env example_envs_unreachable
        [2, 1, 0] example_options example_backend)
       = Inl (Error ''Rate-limit backend unavailable.'')"
proof -
  have sha: "\<forall>s. length (example_sha256_hex s) = 64" by (simp add: example_sha256_hex_def)
  have creds: "service_credentials example_js_env" by (simp add: example_js_env_def)
  have prod: "node_env_production example_js_env" by (simp add: example_js_env_def)
  have reqs: "example_requests
      = map (bucket_request (normalizeKeyPart (action example_options) ''action''))
          (normalize_targets example_sha256_hex (targets example_options))"
    by code_simp
  have log0: "rpc_log example_backend = []" by (simp add: example_backend_def)
  define ok where "ok = store_replies example_envs 0 example_requests example_backend"
  define un where "un = store_replies example_envs_unreachable 0 example_requests example_backend"
  have ok_replies: "fst ok =
      [RpcData [\<lparr>allowed = False, remaining = 0, retry_after_seconds = 55,
                 out_window_ends_at = 180000000\<rparr>],
       RpcData [\<lparr>allowed = False, remaining = 0, retry_after_seconds = 3475,
                 out_window_ends_at = 3600000000\<rparr>],
       RpcData [\<lparr>allowed = True, remaining = 4, retry_after_seconds = 0,
                 out_window_ends_at = 180000000\<rparr>]]"
    unfolding ok_def by code_simp
  have ok_counts: "map request_count (buckets (snd ok)) = [2, 3, 1]"
    unfolding ok_def by code_simp
  have un_counts: "map request_count (buckets (snd un)) = [2, 2, 1]"
    unfolding un_def by code_simp
  have lost: "transport_error (example_envs_unreachable 1) \<noteq> None"
    by (simp add: example_envs_unreachable_def)
  have ok_store: "store_replies example_envs 0 example_requests example_backend = (fst ok, snd ok)"
    by (simp add: ok_def)
  have un_store: "store_replies example_envs_unreachable 0 example_requests example_backend
      = (fst un, snd un)"
    by (simp add: un_def)
  note t_ok = enforceDurableRateLimit_outcome[OF sha creds reqs ok_store, of "[0, 1, 2]"]
  note t_un = enforceDurableRateLimit_outcome[OF sha creds reqs un_store, of "[2, 1, 0]"]
  from t_ok have a1: "rpc_log (snd (enforceDurableRateLimit example_sha256_hex example_js_env
        example_envs [0, 1, 2] example_options example_backend)) = example_requests"
    and a2: "snd (enforceDurableRateLimit example_sha256_hex example_js_env
        example_envs [0, 1, 2] example_options example_backend) = snd ok"
    by (simp_all add: log0)
  have data: "\<forall>resp \<in> set (fst ok). \<exists>row. resp = RpcData [row]"
    unfolding ok_replies by simp
  with t_ok have "fst (enforceDurableRateLimit example_sha256_hex example_js_env example_envs
        [0, 1, 2] example_options example_backend) =
            (let blocked = filter (\<lambda>row. \<not> allowed row) (concat (map reply_rows (fst ok)))
             in if blocked = [] then Inr ()
                else Inl (RateLimitExceededError (Max (retry_after_seconds ` set blocked))))"
    by blast
  then have a3: "fst (enforceDurableRateLimit example_sha256_hex example_js_env example_envs
        [0, 1, 2] example_options example_backend) = Inl (RateLimitExceededError 3475)"
    unfolding ok_replies by (simp add: reply_rows_def)
  from t_un have b1: "rpc_log (snd (enforceDurableRateLimit example_sha256_hex example_js_env
        example_envs_unreachable [2, 1, 0] example_options example_backend)) = example_requests"
    and b2: "snd (enforceDurableRateLimit example_sha256_hex example_js_env
        example_envs_unreachable [2, 1, 0] example_options example_backend) = snd un"
    and len: "length (fst un) = length example_requests"
    and tr: "\<forall>j < length (fst un). transport_error (example_envs_unreachable j) \<noteq> None
           \<longrightarrow> (\<exists>msg. fst un ! j = RpcError msg)"
    by (simp_all add: log0)
  from len have l3: "length (fst un) = 3" by (simp add: example_requests_def)
  with tr lost obtain msg where "fst un ! 1 = RpcError msg" by fastforce
  with l3 have "\<exists>resp \<in> set (fst un). \<exists>msg. resp = RpcError msg"
    by (metis nth_mem one_less_numeral_iff semiring_norm(77))
  with t_un prod obtain d where "fst (enforceDurableRateLimit example_sha256_hex example_js_env
        example_envs_unreachable [2, 1, 0] example_options example_backend)
       = Inl (Error (''Rate-limit backend unavailable.'' @ d))" "d = []"
    by blast
  then have b3: "fst (enforceDurableRateLimit example_sha256_hex example_js_env
        example_envs_unreachable [2, 1, 0] example_options example_backend)
       = Inl (Error ''Rate-limit backend unavailable.'')"
    by simp
  from a1 a2 ok_counts a3 b1 b2 un_counts b3 show ?thesis by simp
qed

text \<open>
  Claim C10. With an empty \<open>targets\<close> array \<open>enforceDurableRateLimit\<close> returns
  normally for every action string and leaves the backend as it was: no consume
  request is sent, no bucket is created or incremented and no error is raised.
\<close>

theorem enforceDurableRateLimit_no_targets:
  "enforceDurableRateLimit sha256_hex js envs settle_order \<lparr>action = a, targets = []\<rparr> b = (Inr (), b)"
  by (simp add: enforceDurableRateLimit_def normalize_targets_def)

theorem enforceDurableRateLimit_no_targets_witness:
  "enforceDurableRateLimit (\<lambda>s. replicate 64 (CHR ''0''))
      \<lparr>service_credentials = True, node_env_production = True\<rparr>
      (\<lambda>i. \<lparr>transport_error = None, rpc_now = 125000000, rpc_random_hit = False\<rparr>) []
      \<lparr>action = ''auth-start-otp'', targets = []\<rparr>
      \<lparr>buckets = [], rpc_log = []\<rparr>
   = (Inr (), \<lparr>buckets = [], rpc_log = []\<rparr>)"
  by (rule enforceDurableRateLimit_no_targets)

section \<open>Properties of the reorder protocol\<close>

lemma select_profiles_own:
  "p \<in> set (select_profiles (Some u) d) \<and> p_id p = u \<longleftrightarrow> p \<in> set (profiles d) \<and> p_id p = u"
  by (auto simp: select_profiles_def profiles_owner_def)

lemma vehicles_owner_iff:
  "vehicles_owner (Some u) d v \<longleftrightarrow> v_profile_id v = u \<and> u \<in> p_id ` set (profiles d)"
  by (auto simp: vehicles_owner_def select_profiles_def profiles_owner_def)

lemma vehicles_owner_anon: "\<not> vehicles_owner None d v"
  by (simp add: vehicles_owner_def)

lemma for_update_vehicles_iff:
  "v \<in> set (for_update_vehicles (Some u) d)
     \<longleftrightarrow> v \<in> set (vehicles d) \<and> v_profile_id v = u \<and> u \<in> p_id ` set (profiles d)"
  by (auto simp: for_update_vehicles_def select_vehicles_def vehicles_owner_iff)

lemma for_update_vehicles_eq:
  "for_update_vehicles (Some u) d
     = (if u \<in> p_id ` set (profiles d) then filter (\<lambda>v. v_profile_id v = u) (vehicles d) else [])"
proof -
  have "for_update_vehicles (Some u) d
      = filter (\<lambda>v. v_profile_id v = u \<and> u \<in> p_id ` set (profiles d)) (vehicles d)"
    unfolding for_update_vehicles_def select_vehicles_def filter_filter
    by (rule filter_cong) (auto simp: vehicles_owner_iff)
  then show ?thesis by simp
qed

lemma select_vehicles_own:
  "v \<in> set (select_vehicles (Some u) d) \<and> v_profile_id v = u \<and> u \<in> p_id ` set (profiles d)
     \<longleftrightarrow> v \<in> set (vehicles d) \<and> v_profile_id v = u \<and> u \<in> p_id ` set (profiles d)"
  by (auto simp: select_vehicles_def vehicles_owner_iff)

lemma mods_owner_iff:
  "mods_owner (Some u) d m
     \<longleftrightarrow> (\<exists>v \<in> set (vehicles d). v_id v = m_vehicle_id m \<and> v_profile_id v = u)
         \<and> u \<in> p_id ` set (profiles d)"
proof
  assume "mods_owner (Some u) d m"
  then obtain v p where "v \<in> set (select_vehicles (Some u) d)" "p \<in> set (select_profiles (Some u) d)"
      "p_id p = v_profile_id v" "v_id v = m_vehicle_id m" "p_id p = u"
    by (auto simp: mods_owner_def)
  then show "(\<exists>v \<in> set (vehicles d). v_id v = m_vehicle_id m \<and> v_profile_id v = u)
         \<and> u \<in> p_id ` set (profiles d)"
    by (auto simp: select_vehicles_def select_profiles_def intro: rev_image_eqI)
next
  assume a: "(\<exists>v \<in> set (vehicles d). v_id v = m_vehicle_id m \<and> v_profile_id v = u)
         \<and> u \<in> p_id ` set (profiles d)"
  then obtain v p where v: "v \<in> set (vehicles d)" "v_id v = m_vehicle_id m" "v_profile_id v = u"
    and p: "p \<in> set (profiles d)" "p_id p = u" by auto
  from p have ps: "p \<in> set (select_profiles (Some u) d)"
    using select_profiles_own[of p u d] by simp
  from v a have "v \<in> set (select_vehicles (Some u) d)"
    using select_vehicles_own[of v u d] by simp
  with ps v p show "mods_owner (Some u) d m"
    by (auto simp: mods_owner_def)
qed

lemma for_update_mods_iff:
  "m \<in> set (for_update_mods (Some u) d)
     \<longleftrightarrow> m \<in> set (mods d)
         \<and> (\<exists>v \<in> set (vehicles d). v_id v = m_vehicle_id m \<and> v_profile_id v = u)
         \<and> u \<in> p_id ` set (profiles d)"
  by (auto simp: for_update_mods_def select_mods_def mods_owner_iff)

lemma select_into_filter_None:
  "(\<forall>r \<in> set rows. \<not> P r) \<Longrightarrow> select_into (filter P rows) = None"
  by (simp add: select_into_def filter_empty_conv[THEN iffD2] split: list.splits)

text \<open>
  Claim C7. With a valid direction, a reorder call returns the single outcome
  \<open>not_found\<close>, and changes nothing, when the caller is unauthenticated and when no
  row with the given id is owned by the caller: a row that does not exist and a row of
  another owner give the same result.
\<close>

theorem reorder_not_found:
  assumes dir: "p_direction = Some ''up'' \<or> p_direction = Some ''down''"
  shows "(auth_uid = None
          \<or> \<not> (\<exists>v \<in> set (vehicles d). Some (v_id v) = p_vehicle_id \<and> Some (v_profile_id v) = auth_uid)
        \<longrightarrow> reorder_vehicle_swap now_utc auth_uid p_vehicle_id p_direction d = Inr (''not_found'', d))
     \<and> (auth_uid = None
          \<or> \<not> (\<exists>m \<in> set (mods d). Some (m_id m) = p_mod_id \<and> Some (m_vehicle_id m) = p_vehicle_id
                 \<and> (\<exists>v \<in> set (vehicles d). v_id v = m_vehicle_id m \<and> Some (v_profile_id v) = auth_uid))
        \<longrightarrow> reorder_mod_swap now_utc auth_uid p_vehicle_id p_mod_id p_direction d = Inr (''not_found'', d))"
proof (intro conjI impI)
  assume a: "auth_uid = None
      \<or> \<not> (\<exists>v \<in> set (vehicles d). Some (v_id v) = p_vehicle_id \<and> Some (v_profile_id v) = auth_uid)"
  show "reorder_vehicle_swap now_utc auth_uid p_vehicle_id p_direction d = Inr (''not_found'', d)"
  proof (cases auth_uid)
    case None
    with dir show ?thesis by (auto simp: reorder_vehicle_swap_def)
  next
    case (Some u)
    with a have "\<forall>v \<in> set (for_update_vehicles auth_uid d).
        \<not> (Some (v_id v) = p_vehicle_id \<and> v_profile_id v = u)"
      by (auto simp: for_update_vehicles_iff)
    from select_into_filter_None[OF this] Some dir show ?thesis
      by (auto simp: reorder_vehicle_swap_def)
  qed
next
  assume a: "auth_uid = None
      \<or> \<not> (\<exists>m \<in> set (mods d). Some (m_id m) = p_mod_id \<and> Some (m_vehicle_id m) = p_vehicle_id
             \<and> (\<exists>v \<in> set (vehicles d). v_id v = m_vehicle_id m \<and> Some (v_profile_id v) = auth_uid))"
  show "reorder_mod_swap now_utc auth_uid p_vehicle_id p_mod_id p_direction d = Inr (''not_found'', d)"
  proof (cases auth_uid)
    case None
    with dir show ?thesis by (auto simp: reorder_mod_swap_def)
  next
    case (Some u)
    with a have "\<forall>m \<in> set (for_update_mods auth_uid d).
        \<not> ((\<exists>v \<in> set (select_vehicles auth_uid d). v_id v = m_vehicle_id m \<and> v_profile_id v = u)
           \<and> Some (m_id m) = p_mod_id \<and> Some (m_vehicle_id m) = p_vehicle_id)"
      by (auto simp: for_update_mods_iff)
    from select_into_filter_None[OF this] Some dir show ?thesis
      by (auto simp: reorder_mod_swap_def)
  qed
qed

lemma vehicle_before_key:
  "vehicle_before v c \<longleftrightarrow> vehicle_order_key v < vehicle_order_key c"
  by (auto simp: vehicle_before_def vehicle_order_key_def less_prod_def)

lemma vehicle_after_key:
  "vehicle_after v c \<longleftrightarrow> vehicle_order_key c < vehicle_order_key v"
  by (auto simp: vehicle_after_def vehicle_order_key_def less_prod_def)

lemma mod_before_key:
  "mod_before m c \<longleftrightarrow> mod_order_key m < mod_order_key c"
  by (auto simp: mod_before_def mod_order_key_def less_prod_def)

lemma mod_after_key:
  "mod_after m c \<longleftrightarrow> mod_order_key c < mod_order_key m"
  by (auto simp: mod_after_def mod_order_key_def less_prod_def)

lemma sorted_hd_le:
  "sorted (map f ys) \<Longrightarrow> y \<in> set ys \<Longrightarrow> f (hd ys) \<le> f y"
  by (cases ys) auto

lemma sorted_last_ge:
  "sorted (map f ys) \<Longrightarrow> y \<in> set ys \<Longrightarrow> f y \<le> f (last ys)"
  by (induction ys) (auto split: if_splits)

lemma sort_key_hd_le: "x \<in> set xs \<Longrightarrow> f (hd (sort_key f xs)) \<le> f x"
  by (rule sorted_hd_le) simp_all

lemma sort_key_last_ge: "x \<in> set xs \<Longrightarrow> f x \<le> f (last (sort_key f xs))"
  by (rule sorted_last_ge) simp_all

lemma sort_key_Nil_iff: "sort_key f xs = [] \<longleftrightarrow> xs = []"
  by (metis length_0_conv length_sort)

lemma sort_key_hd_in: "xs \<noteq> [] \<Longrightarrow> hd (sort_key f xs) \<in> set xs"
  by (metis hd_in_set set_sort sort_key_Nil_iff)

lemma sort_key_last_in: "xs \<noteq> [] \<Longrightarrow> last (sort_key f xs) \<in> set xs"
  by (metis last_in_set set_sort sort_key_Nil_iff)

lemma filter_pkey:
  "distinct (map f xs) \<Longrightarrow> x \<in> set xs \<Longrightarrow> filter (\<lambda>v. f v = f x) xs = [x]"
proof (induction xs)
  case Nil
  then show ?case by simp
next
  case (Cons a xs)
  show ?case
  proof (cases "a = x")
    case True
    with Cons.prems have "f x \<notin> f ` set xs" by simp
    then have "\<forall>v \<in> set xs. f v \<noteq> f x" by (metis imageI)
    then have "filter (\<lambda>v. f v = f x) xs = []" by (simp add: filter_empty_conv)
    with True show ?thesis by simp
  next
    case False
    with Cons.prems have "x \<in> set xs" "f a \<noteq> f x" by auto
    with Cons show ?thesis by simp
  qed
qed

lemma select_into_limit_1_Nil [simp]:
  "select_into (limit_1 (order_by_desc k [])) = None"
  "select_into (limit_1 (order_by_asc k [])) = None"
  by (simp_all add: select_into_def limit_1_def order_by_desc_def order_by_asc_def)

lemma vehicle_current:
  assumes c: "db_constraints d" and x: "x \<in> set (vehicles d)" "v_profile_id x = u"
  shows "u \<in> p_id ` set (profiles d)"
    and "select_into (filter (\<lambda>v. Some (v_id v) = Some (v_id x) \<and> v_profile_id v = u)
            (for_update_vehicles (Some u) d)) = Some x"
proof -
  from c x show u: "u \<in> p_id ` set (profiles d)"
    by (auto simp: db_constraints_def foreign_keys_def list_all_iff)
  have pk: "distinct (map v_id (vehicles d))"
    using c by (simp add: db_constraints_def primary_keys_def)
  have "filter (\<lambda>v. Some (v_id v) = Some (v_id x) \<and> v_profile_id v = u)
            (for_update_vehicles (Some u) d)
      = filter (\<lambda>v. v_profile_id v = u) (filter (\<lambda>v. v_id v = v_id x) (vehicles d))"
    using u by (auto simp: for_update_vehicles_eq intro: filter_cong)
  also have "\<dots> = [x]" using filter_pkey[OF pk x(1)] x(2) by simp
  finally show "select_into (filter (\<lambda>v. Some (v_id v) = Some (v_id x) \<and> v_profile_id v = u)
            (for_update_vehicles (Some u) d)) = Some x"
    by (simp add: select_into_def)
qed

lemma reorder_vehicle_boundary_up:
  assumes c: "db_constraints d" and ne: "vehicle_siblings u d \<noteq> []"
  shows "reorder_vehicle_swap now_utc (Some u) (Some (v_id (hd (vehicle_siblings u d))))
           (Some ''up'') d = Inr (''boundary'', d)"
proof -
  define x where "x = hd (vehicle_siblings u d)"
  let ?sibs = "filter (\<lambda>v. v_profile_id v = u) (vehicles d)"
  from ne have ne': "?sibs \<noteq> []" by (auto simp: vehicle_siblings_def)
  have xin: "x \<in> set ?sibs"
    unfolding x_def vehicle_siblings_def by (rule sort_key_hd_in[OF ne'])
  then have x: "x \<in> set (vehicles d)" "v_profile_id x = u" by auto
  note cur = vehicle_current[OF c x]
  have "\<forall>v \<in> set (for_update_vehicles (Some u) d). \<not> (v_profile_id v = u \<and> vehicle_before v x)"
  proof
    fix v assume "v \<in> set (for_update_vehicles (Some u) d)"
    then have "v \<in> set ?sibs" by (auto simp: for_update_vehicles_iff)
    then have "vehicle_order_key x \<le> vehicle_order_key v"
      unfolding x_def vehicle_siblings_def by (rule sort_key_hd_le)
    then show "\<not> (v_profile_id v = u \<and> vehicle_before v x)"
      by (auto simp: vehicle_before_key)
  qed
  then have "filter (\<lambda>v. v_profile_id v = u \<and> vehicle_before v x)
      (for_update_vehicles (Some u) d) = []"
    by (simp add: filter_empty_conv)
  with cur(2) show ?thesis
    unfolding x_def[symmetric] by (simp add: reorder_vehicle_swap_def)
qed

lemma reorder_vehicle_boundary_down:
  assumes c: "db_constraints d" and ne: "vehicle_siblings u d \<noteq> []"
  shows "reorder_vehicle_swap now_utc (Some u) (Some (v_id (last (vehicle_siblings u d))))
           (Some ''down'') d = Inr (''boundary'', d)"
proof -
  define x where "x = last (vehicle_siblings u d)"
  let ?sibs = "filter (\<lambda>v. v_profile_id v = u) (vehicles d)"
  from ne have ne': "?sibs \<noteq> []" by (auto simp: vehicle_siblings_def)
  have xin: "x \<in> set ?sibs"
    unfolding x_def vehicle_siblings_def by (rule sort_key_last_in[OF ne'])
  then have x: "x \<in> set (vehicles d)" "v_profile_id x = u" by auto
  note cur = vehicle_current[OF c x]
  have "\<forall>v \<in> set (for_update_vehicles (Some u) d). \<not> (v_profile_id v = u \<and> vehicle_after v x)"
  proof
    fix v assume "v \<in> set (for_update_vehicles (Some u) d)"
    then have "v \<in> set ?sibs" by (auto simp: for_update_vehicles_iff)
    then have "vehicle_order_key v \<le> vehicle_order_key x"
      unfolding x_def vehicle_siblings_def by (rule sort_key_last_ge)
    then show "\<not> (v_profile_id v = u \<and> vehicle_after v x)"
      by (auto simp: vehicle_after_key)
  qed
  then have "filter (\<lambda>v. v_profile_id v = u \<and> vehicle_after v x)
      (for_update_vehicles (Some u) d) = []"
    by (simp add: filter_empty_conv)
  with cur(2) show ?thesis
    unfolding x_def[symmetric] by (simp add: reorder_vehicle_swap_def)
qed


lemma for_update_mods_eq:
  "for_update_mods (Some u) d
     = filter (\<lambda>m. (\<exists>v \<in> set (vehicles d). v_id v = m_vehicle_id m \<and> v_profile_id v = u)
                   \<and> u \<in> p_id ` set (profiles d)) (mods d)"
  unfolding for_update_mods_def select_mods_def filter_filter
  by (rule filter_cong) (auto simp: mods_owner_iff)

lemma mod_current:
  assumes c: "db_constraints d" and x: "x \<in> set (mods d)" "m_vehicle_id x = vid"
    and own: "v \<in> set (vehicles d)" "v_id v = vid" "v_profile_id v = u"
  shows "u \<in> p_id ` set (profiles d)"
    and "select_into
           (filter (\<lambda>m. (\<exists>v \<in> set (select_vehicles (Some u) d).
                             v_id v = m_vehicle_id m \<and> v_profile_id v = u)
                        \<and> Some (m_id m) = Some (m_id x)
                        \<and> Some (m_vehicle_id m) = Some vid)
              (for_update_mods (Some u) d)) = Some x"
proof -
  from c own show u: "u \<in> p_id ` set (profiles d)"
    by (auto simp: db_constraints_def foreign_keys_def list_all_iff)
  have pk: "distinct (map m_id (mods d))"
    using c by (simp add: db_constraints_def primary_keys_def)
  have sv: "v \<in> set (select_vehicles (Some u) d)"
    using select_vehicles_own[of v u d] own u by simp
  let ?P = "\<lambda>m. (\<exists>v \<in> set (select_vehicles (Some u) d).
                             v_id v = m_vehicle_id m \<and> v_profile_id v = u)
                \<and> m_vehicle_id m = vid
                \<and> (\<exists>v \<in> set (vehicles d). v_id v = m_vehicle_id m \<and> v_profile_id v = u)
                \<and> u \<in> p_id ` set (profiles d)"
  have "filter (\<lambda>m. (\<exists>v \<in> set (select_vehicles (Some u) d).
                             v_id v = m_vehicle_id m \<and> v_profile_id v = u)
                        \<and> Some (m_id m) = Some (m_id x)
                        \<and> Some (m_vehicle_id m) = Some vid)
              (for_update_mods (Some u) d)
      = filter ?P (filter (\<lambda>m. m_id m = m_id x) (mods d))"
    unfolding for_update_mods_eq filter_filter by (rule filter_cong) auto
  also have "\<dots> = filter ?P [x]" using filter_pkey[OF pk x(1)] by simp
  also have "\<dots> = [x]" using x own u sv by auto
  finally show "select_into
           (filter (\<lambda>m. (\<exists>v \<in> set (select_vehicles (Some u) d).
                             v_id v = m_vehicle_id m \<and> v_profile_id v = u)
                        \<and> Some (m_id m) = Some (m_id x)
                        \<and> Some (m_vehicle_id m) = Some vid)
              (for_update_mods (Some u) d)) = Some x"
    by (simp add: select_into_def)
qed

lemma reorder_mod_boundary_up:
  assumes c: "db_constraints d" and ne: "mod_siblings vid d \<noteq> []"
    and own: "v \<in> set (vehicles d)" "v_id v = vid" "v_profile_id v = u"
  shows "reorder_mod_swap now_utc (Some u) (Some vid) (Some (m_id (hd (mod_siblings vid d))))
           (Some ''up'') d = Inr (''boundary'', d)"
proof -
  define x where "x = hd (mod_siblings vid d)"
  let ?sibs = "filter (\<lambda>m. m_vehicle_id m = vid) (mods d)"
  from ne have ne': "?sibs \<noteq> []" by (auto simp: mod_siblings_def)
  have xin: "x \<in> set ?sibs"
    unfolding x_def mod_siblings_def by (rule sort_key_hd_in[OF ne'])
  then have x: "x \<in> set (mods d)" "m_vehicle_id x = vid" by auto
  note cur = mod_current[OF c x own]
  have "\<forall>m \<in> set (for_update_mods (Some u) d).
      \<not> (Some (m_vehicle_id m) = Some vid \<and> mod_before m x)"
  proof
    fix m assume "m \<in> set (for_update_mods (Some u) d)"
    then have "m \<in> set (mods d)" by (auto simp: for_update_mods_iff)
    then have "m_vehicle_id m = vid \<Longrightarrow> mod_order_key x \<le> mod_order_key m"
      unfolding x_def mod_siblings_def by (intro sort_key_hd_le) simp
    then show "\<not> (Some (m_vehicle_id m) = Some vid \<and> mod_before m x)"
      by (auto simp: mod_before_key)
  qed
  then have "filter (\<lambda>m. Some (m_vehicle_id m) = Some vid \<and> mod_before m x)
      (for_update_mods (Some u) d) = []"
    by (simp add: filter_empty_conv)
  with cur(2) show ?thesis
    unfolding x_def[symmetric] by (simp add: reorder_mod_swap_def)
qed

lemma reorder_mod_boundary_down:
  assumes c: "db_constraints d" and ne: "mod_siblings vid d \<noteq> []"
    and own: "v \<in> set (vehicles d)" "v_id v = vid" "v_profile_id v = u"
  shows "reorder_mod_swap now_utc (Some u) (Some vid) (Some (m_id (last (mod_siblings vid d))))
           (Some ''down'') d = Inr (''boundary'', d)"
proof -
  define x where "x = last (mod_siblings vid d)"
  let ?sibs = "filter (\<lambda>m. m_vehicle_id m = vid) (mods d)"
  from ne have ne': "?sibs \<noteq> []" by (auto simp: mod_siblings_def)
  have xin: "x \<in> set ?sibs"
    unfolding x_def mod_siblings_def by (rule sort_key_last_in[OF ne'])
  then have x: "x \<in> set (mods d)" "m_vehicle_id x = vid" by auto
  note cur = mod_current[OF c x own]
  have "\<forall>m \<in> set (for_update_mods (Some u) d).
      \<not> (Some (m_vehicle_id m) = Some vid \<and> mod_after m x)"
  proof
    fix m assume "m \<in> set (for_update_mods (Some u) d)"
    then have "m \<in> set (mods d)" by (auto simp: for_update_mods_iff)
    then have "m_vehicle_id m = vid \<Longrightarrow> mod_order_key m \<le> mod_order_key x"
      unfolding x_def mod_siblings_def by (intro sort_key_last_ge) simp
    then show "\<not> (Some (m_vehicle_id m) = Some vid \<and> mod_after m x)"
      by (auto simp: mod_after_key)
  qed
  then have "filter (\<lambda>m. Some (m_vehicle_id m) = Some vid \<and> mod_after m x)
      (for_update_mods (Some u) d) = []"
    by (simp add: filter_empty_conv)
  with cur(2) show ?thesis
    unfolding x_def[symmetric] by (simp add: reorder_mod_swap_def)
qed

text \<open>
  Claim C8. With the siblings ordered by \<open>(sort_order, created_at, id)\<close> ascending,
  reordering the first one \<open>up\<close>, or the last one \<open>down\<close>, returns \<open>boundary\<close> and
  leaves every row, hence every \<open>sort_order\<close>, unchanged.
\<close>

theorem reorder_boundary:
  assumes c: "db_constraints d"
  shows "(vehicle_siblings u d \<noteq> [] \<longrightarrow>
            reorder_vehicle_swap now_utc (Some u) (Some (v_id (hd (vehicle_siblings u d))))
              (Some ''up'') d = Inr (''boundary'', d)
          \<and> reorder_vehicle_swap now_utc (Some u) (Some (v_id (last (vehicle_siblings u d))))
              (Some ''down'') d = Inr (''boundary'', d))
       \<and> (mod_siblings vid d \<noteq> []
            \<and> (\<exists>v \<in> set (vehicles d). v_id v = vid \<and> v_profile_id v = u) \<longrightarrow>
            reorder_mod_swap now_utc (Some u) (Some vid) (Some (m_id (hd (mod_siblings vid d))))
              (Some ''up'') d = Inr (''boundary'', d)
          \<and> reorder_mod_swap now_utc (Some u) (Some vid) (Some (m_id (last (mod_siblings vid d))))
              (Some ''down'') d = Inr (''boundary'', d))"
  using reorder_vehicle_boundary_up[OF c] reorder_vehicle_boundary_down[OF c]
    reorder_mod_boundary_up[OF c] reorder_mod_boundary_down[OF c]
  by blast

lemma garage0_constraints: "db_constraints garage0"
  by (simp add: db_constraints_def primary_keys_def foreign_keys_def garage0_def
      images_exactly_one_parent_def)

lemma garage0_for_update: "for_update_vehicles (Some 7) garage0 = vehicles garage0"
  by (simp add: for_update_vehicles_eq garage0_def)

lemma garage1_for_update: "for_update_vehicles (Some 7) garage1 = vehicles garage1"
  by (simp add: for_update_vehicles_eq garage1_def)

theorem reorder_not_found_witness:
  "reorder_vehicle_swap 20 (Some 8) (Some 1) (Some ''up'') garage0 = Inr (''not_found'', garage0)
   \<and> reorder_mod_swap 20 (Some 8) (Some 1) (Some 11) (Some ''up'') garage0
        = Inr (''not_found'', garage0)"
  using reorder_not_found[of "Some ''up''" "Some 8" garage0 "Some 1" 20 "Some 11"]
  by (simp add: garage0_def)

theorem reorder_boundary_witness:
  "db_constraints garage0
   \<and> reorder_vehicle_swap 20 (Some 7) (Some 2) (Some ''up'') garage0 = Inr (''boundary'', garage0)
   \<and> reorder_vehicle_swap 20 (Some 7) (Some 1) (Some ''down'') garage0 = Inr (''boundary'', garage0)
   \<and> reorder_mod_swap 20 (Some 7) (Some 1) (Some 11) (Some ''up'') garage0
        = Inr (''boundary'', garage0)
   \<and> reorder_mod_swap 20 (Some 7) (Some 1) (Some 12) (Some ''down'') garage0
        = Inr (''boundary'', garage0)"
proof -
  have v: "map v_id (vehicle_siblings 7 garage0) = [2, 3, 1]"
    by (simp add: vehicle_siblings_def garage0_def vehicle_order_key_def less_eq_prod_def less_prod_def)
  have m: "map m_id (mod_siblings 1 garage0) = [11, 12]"
    by (simp add: mod_siblings_def garage0_def mod_order_key_def less_eq_prod_def less_prod_def)
  have own: "\<exists>v \<in> set (vehicles garage0). v_id v = 1 \<and> v_profile_id v = 7"
    by (simp add: garage0_def)
  from v have vh: "vehicle_siblings 7 garage0 \<noteq> []" "v_id (hd (vehicle_siblings 7 garage0)) = 2"
      "v_id (last (vehicle_siblings 7 garage0)) = 1"
    by (auto simp: hd_map[symmetric] last_map[symmetric] simp del: hd_map last_map)
  from m have mh: "mod_siblings 1 garage0 \<noteq> []" "m_id (hd (mod_siblings 1 garage0)) = 11"
      "m_id (last (mod_siblings 1 garage0)) = 12"
    by (auto simp: hd_map[symmetric] last_map[symmetric] simp del: hd_map last_map)
  from reorder_boundary[OF garage0_constraints, of 7 20 1] vh mh own garage0_constraints
  show ?thesis by simp
qed


subsection \<open>The swap\<close>

lemma pkey_inj:
  "distinct (map f xs) \<Longrightarrow> a \<in> set xs \<Longrightarrow> b \<in> set xs \<Longrightarrow> f a = f b \<Longrightarrow> a = b"
  by (auto simp: distinct_map inj_on_def)

lemma select_into_SomeD: "select_into rows = Some r \<Longrightarrow> r \<in> set rows"
  by (auto simp: select_into_def split: list.splits)

lemma select_into_desc:
  assumes "n \<in> set cand" "\<forall>v \<in> set cand. key v \<le> key n" "inj_on key (set cand)"
  shows "select_into (limit_1 (order_by_desc key cand)) = Some n"
proof -
  let ?ys = "sort_key key cand"
  from assms(1) have ne: "cand \<noteq> []" by auto
  then have ys: "?ys \<noteq> []" by (simp add: sort_key_Nil_iff)
  have l: "last ?ys \<in> set cand" by (rule sort_key_last_in[OF ne])
  have "key n \<le> key (last ?ys)" by (rule sort_key_last_ge[OF assms(1)])
  moreover have "key (last ?ys) \<le> key n" using assms(2) l by blast
  ultimately have "last ?ys = n" using assms(3) l assms(1) by (auto simp: inj_on_def)
  moreover have "take 1 (rev ?ys) = [last ?ys]"
    using ys by (cases ?ys rule: rev_cases) simp_all
  ultimately show ?thesis
    by (simp add: select_into_def limit_1_def order_by_desc_def)
qed

lemma select_into_asc:
  assumes "n \<in> set cand" "\<forall>v \<in> set cand. key n \<le> key v" "inj_on key (set cand)"
  shows "select_into (limit_1 (order_by_asc key cand)) = Some n"
proof -
  let ?ys = "sort_key key cand"
  from assms(1) have ne: "cand \<noteq> []" by auto
  then have ys: "?ys \<noteq> []" by (simp add: sort_key_Nil_iff)
  have l: "hd ?ys \<in> set cand" by (rule sort_key_hd_in[OF ne])
  have "key (hd ?ys) \<le> key n" by (rule sort_key_hd_le[OF assms(1)])
  moreover have "key n \<le> key (hd ?ys)" using assms(2) l by blast
  ultimately have "hd ?ys = n" using assms(3) l assms(1) by (auto simp: inj_on_def)
  moreover have "take 1 ?ys = [hd ?ys]"
    using ys by (cases ?ys) simp_all
  ultimately show ?thesis
    by (simp add: select_into_def limit_1_def order_by_asc_def)
qed

lemma select_into_limit_1_in:
  "select_into (limit_1 (order_by_desc key cand)) = Some n \<Longrightarrow> n \<in> set cand"
  "select_into (limit_1 (order_by_asc key cand)) = Some n \<Longrightarrow> n \<in> set cand"
  by (auto simp: limit_1_def order_by_desc_def order_by_asc_def
      dest!: select_into_SomeD in_set_takeD)

lemma vehicle_key_inj:
  "distinct (map v_id xs) \<Longrightarrow> set ys \<subseteq> set xs \<Longrightarrow> inj_on vehicle_order_key (set ys)"
  by (auto simp: inj_on_def vehicle_order_key_def dest: pkey_inj)

lemma vehicles_pkey: "db_constraints d \<Longrightarrow> distinct (map v_id (vehicles d))"
  by (simp add: db_constraints_def primary_keys_def)

lemma vehicle_siblings_set:
  "set (vehicle_siblings u d) = {v \<in> set (vehicles d). v_profile_id v = u}"
  by (auto simp: vehicle_siblings_def)

lemma vehicle_swap_map:
  assumes pk: "distinct (map v_id (vehicles d))"
    and a: "a \<in> set (for_update_vehicles (Some u) d)"
    and b: "b \<in> set (for_update_vehicles (Some u) d)"
  shows "map (\<lambda>v. if v \<in> set (for_update_vehicles (Some u) d)
                     \<and> v_id v \<in> {v_id a, v_id b} \<and> v_profile_id v = u
                   then v\<lparr>v_sort_order :=
                            (if v_id v = v_id a then v_sort_order b
                             else if v_id v = v_id b then v_sort_order a
                             else v_sort_order v),
                          v_updated_at := now_utc\<rparr>
                   else v) (vehicles d)
       = map (swap_vehicle_sort_order now_utc a b) (vehicles d)"
proof (rule map_cong[OF refl])
  fix v assume v: "v \<in> set (vehicles d)"
  from a b have ab: "a \<in> set (vehicles d)" "b \<in> set (vehicles d)"
      "v_profile_id a = u" "v_profile_id b = u"
    by (auto simp: for_update_vehicles_iff)
  have "v = a" if "v_id v = v_id a" using pkey_inj[OF pk v ab(1) that] .
  moreover have "v = b" if "v_id v = v_id b" using pkey_inj[OF pk v ab(2) that] .
  ultimately show "(if v \<in> set (for_update_vehicles (Some u) d)
                     \<and> v_id v \<in> {v_id a, v_id b} \<and> v_profile_id v = u
                   then v\<lparr>v_sort_order :=
                            (if v_id v = v_id a then v_sort_order b
                             else if v_id v = v_id b then v_sort_order a
                             else v_sort_order v),
                          v_updated_at := now_utc\<rparr>
                   else v) = swap_vehicle_sort_order now_utc a b v"
    using a b ab by (auto simp: swap_vehicle_sort_order_def)
qed

lemma reorder_vehicle_moved_frame:
  assumes c: "db_constraints d"
    and r: "reorder_vehicle_swap now_utc auth_uid p_vehicle_id p_direction d = Inr (''moved'', d')"
  shows "\<exists>a b. a \<in> set (vehicles d) \<and> b \<in> set (vehicles d)
           \<and> d' = d\<lparr>vehicles := map (swap_vehicle_sort_order now_utc a b) (vehicles d)\<rparr>"
proof -
  from r obtain u where u: "auth_uid = Some u"
    by (cases auth_uid) (auto simp: reorder_vehicle_swap_def split: if_splits)
  let ?fu = "for_update_vehicles (Some u) d"
  from r u obtain a where a: "select_into
      (filter (\<lambda>v. Some (v_id v) = p_vehicle_id \<and> v_profile_id v = u) ?fu) = Some a"
    by (auto simp: reorder_vehicle_swap_def split: if_splits option.splits)
  from r u a obtain b where b: "select_into
       (if p_direction = Some ''up''
        then limit_1 (order_by_desc vehicle_order_key
               (filter (\<lambda>v. v_profile_id v = u \<and> vehicle_before v a) ?fu))
        else limit_1 (order_by_asc vehicle_order_key
               (filter (\<lambda>v. v_profile_id v = u \<and> vehicle_after v a) ?fu))) = Some b"
    by (auto simp: reorder_vehicle_swap_def split: if_splits option.splits)
  from select_into_SomeD[OF a] have ain: "a \<in> set ?fu" by simp
  from b have bin: "b \<in> set ?fu"
    by (auto split: if_splits dest!: select_into_limit_1_in)
  from r u a b have "d' = d\<lparr>vehicles :=
      map (\<lambda>v. if v \<in> set ?fu \<and> v_id v \<in> {v_id a, v_id b} \<and> v_profile_id v = u
                   then v\<lparr>v_sort_order :=
                            (if v_id v = v_id a then v_sort_order b
                             else if v_id v = v_id b then v_sort_order a
                             else v_sort_order v),
                          v_updated_at := now_utc\<rparr>
                   else v) (vehicles d)\<rparr>"
    by (auto simp: reorder_vehicle_swap_def split: if_splits)
  then have "d' = d\<lparr>vehicles := map (swap_vehicle_sort_order now_utc a b) (vehicles d)\<rparr>"
    by (simp only: vehicle_swap_map[OF vehicles_pkey[OF c] ain bin])
  with ain bin show ?thesis by (auto simp: for_update_vehicles_iff)
qed


lemma swap_vehicle_simps [simp]:
  "v_id (swap_vehicle_sort_order t a b v) = v_id v"
  "v_profile_id (swap_vehicle_sort_order t a b v) = v_profile_id v"
  "v_created_at (swap_vehicle_sort_order t a b v) = v_created_at v"
  "is_public (swap_vehicle_sort_order t a b v) = is_public v"
  "v_sort_order (swap_vehicle_sort_order t a b v)
     = (if v_id v = v_id a then v_sort_order b
        else if v_id v = v_id b then v_sort_order a else v_sort_order v)"
  by (simp_all add: swap_vehicle_sort_order_def)

lemma swap_vehicle_constraints:
  assumes "db_constraints d"
  shows "db_constraints (d\<lparr>vehicles := map (swap_vehicle_sort_order t a b) (vehicles d)\<rparr>)"
proof -
  have "map v_id (map (swap_vehicle_sort_order t a b) (vehicles d)) = map v_id (vehicles d)"
    by simp
  moreover have "v_id ` swap_vehicle_sort_order t a b ` set (vehicles d) = v_id ` set (vehicles d)"
    by (simp add: image_image)
  ultimately show ?thesis
    using assms
    by (auto simp: db_constraints_def primary_keys_def foreign_keys_def list_all_iff o_def
        split: option.splits)
qed

lemma vehicle_siblings_swap:
  "set (vehicle_siblings u (d\<lparr>vehicles := map (swap_vehicle_sort_order t a b) (vehicles d)\<rparr>))
     = swap_vehicle_sort_order t a b ` set (vehicle_siblings u d)"
  by (auto simp: vehicle_siblings_set)

lemma find_pkey:
  "distinct (map f xs) \<Longrightarrow> x \<in> set xs \<Longrightarrow> find (\<lambda>v. f v = f x) xs = Some x"
proof (induction xs)
  case Nil
  then show ?case by simp
next
  case (Cons a xs)
  then show ?case by (cases "a = x") (auto simp: image_iff)
qed

lemma vehicle_row_swap:
  assumes pk: "distinct (map v_id (vehicles d))" and v: "v \<in> set (vehicles d)"
  shows "vehicle_row (d\<lparr>vehicles := map (swap_vehicle_sort_order t a b) (vehicles d)\<rparr>) (v_id v)
           = Some (swap_vehicle_sort_order t a b v)"
proof -
  have "distinct (map v_id (map (swap_vehicle_sort_order t a b) (vehicles d)))"
    using pk by (simp add: o_def)
  moreover have "swap_vehicle_sort_order t a b v \<in> set (map (swap_vehicle_sort_order t a b) (vehicles d))"
    using v by simp
  ultimately have "find (\<lambda>w. v_id w = v_id (swap_vehicle_sort_order t a b v))
      (map (swap_vehicle_sort_order t a b) (vehicles d)) = Some (swap_vehicle_sort_order t a b v)"
    by (rule find_pkey)
  then show ?thesis by (simp add: vehicle_row_def)
qed

lemma reorder_vehicle_down_result:
  assumes c: "db_constraints d" and x: "x \<in> set (vehicles d)" "v_profile_id x = u"
  shows "(reorder_vehicle_swap now_utc (Some u) (Some (v_id x)) (Some ''down'') d = Inr (''boundary'', d)
          \<and> (\<forall>v \<in> set (vehicle_siblings u d). \<not> vehicle_order_key x < vehicle_order_key v))
       \<or> (\<exists>y \<in> set (vehicle_siblings u d). vehicle_order_key x < vehicle_order_key y
            \<and> (\<forall>v \<in> set (vehicle_siblings u d).
                  vehicle_order_key x < vehicle_order_key v \<longrightarrow> vehicle_order_key y \<le> vehicle_order_key v)
            \<and> reorder_vehicle_swap now_utc (Some u) (Some (v_id x)) (Some ''down'') d
                = Inr (''moved'', d\<lparr>vehicles := map (swap_vehicle_sort_order now_utc x y) (vehicles d)\<rparr>))"
proof -
  note cur = vehicle_current[OF c x]
  let ?fu = "for_update_vehicles (Some u) d"
  let ?cand = "filter (\<lambda>v. v_profile_id v = u \<and> vehicle_after v x) ?fu"
  have fu: "set ?fu = set (vehicle_siblings u d)"
    using cur(1) by (auto simp: for_update_vehicles_iff vehicle_siblings_set)
  have xfu: "x \<in> set ?fu" using x fu by (simp add: vehicle_siblings_set)
  show ?thesis
  proof (cases "?cand = []")
    case True
    then have "\<forall>v \<in> set (vehicle_siblings u d). \<not> vehicle_order_key x < vehicle_order_key v"
      using fu by (auto simp: filter_empty_conv vehicle_after_key vehicle_siblings_set)
    moreover from True cur(2)
    have "reorder_vehicle_swap now_utc (Some u) (Some (v_id x)) (Some ''down'') d = Inr (''boundary'', d)"
      by (simp add: reorder_vehicle_swap_def)
    ultimately show ?thesis by blast
  next
    case False
    define y where "y = hd (sort_key vehicle_order_key ?cand)"
    have yc: "y \<in> set ?cand" unfolding y_def by (rule sort_key_hd_in[OF False])
    then have y: "y \<in> set ?fu" "vehicle_order_key x < vehicle_order_key y"
      by (auto simp: vehicle_after_key)
    have ymin: "\<forall>v \<in> set (vehicle_siblings u d).
        vehicle_order_key x < vehicle_order_key v \<longrightarrow> vehicle_order_key y \<le> vehicle_order_key v"
    proof (intro ballI impI)
      fix v assume "v \<in> set (vehicle_siblings u d)" "vehicle_order_key x < vehicle_order_key v"
      then have "v \<in> set ?cand" using fu by (auto simp: vehicle_after_key vehicle_siblings_set)
      then show "vehicle_order_key y \<le> vehicle_order_key v"
        unfolding y_def by (rule sort_key_hd_le)
    qed
    have "sort_key vehicle_order_key ?cand \<noteq> []" using False by (simp add: sort_key_Nil_iff)
    then have "select_into (limit_1 (order_by_asc vehicle_order_key ?cand)) = Some y"
      unfolding y_def by (cases "sort_key vehicle_order_key ?cand")
        (simp_all add: select_into_def limit_1_def order_by_asc_def)
    with cur(2)
    have "reorder_vehicle_swap now_utc (Some u) (Some (v_id x)) (Some ''down'') d
        = Inr (''moved'', d\<lparr>vehicles := map (swap_vehicle_sort_order now_utc x y) (vehicles d)\<rparr>)"
      by (simp add: reorder_vehicle_swap_def
          vehicle_swap_map[OF vehicles_pkey[OF c] xfu y(1), simplified])
    with y ymin fu show ?thesis by blast
  qed
qed

lemma reorder_vehicle_up_result:
  assumes c: "db_constraints d" and x: "x \<in> set (vehicles d)" "v_profile_id x = u"
  shows "(reorder_vehicle_swap now_utc (Some u) (Some (v_id x)) (Some ''up'') d = Inr (''boundary'', d)
          \<and> (\<forall>v \<in> set (vehicle_siblings u d). \<not> vehicle_order_key v < vehicle_order_key x))
       \<or> (\<exists>y \<in> set (vehicle_siblings u d). vehicle_order_key y < vehicle_order_key x
            \<and> (\<forall>v \<in> set (vehicle_siblings u d).
                  vehicle_order_key v < vehicle_order_key x \<longrightarrow> vehicle_order_key v \<le> vehicle_order_key y)
            \<and> reorder_vehicle_swap now_utc (Some u) (Some (v_id x)) (Some ''up'') d
                = Inr (''moved'', d\<lparr>vehicles := map (swap_vehicle_sort_order now_utc x y) (vehicles d)\<rparr>))"
proof -
  note cur = vehicle_current[OF c x]
  let ?fu = "for_update_vehicles (Some u) d"
  let ?cand = "filter (\<lambda>v. v_profile_id v = u \<and> vehicle_before v x) ?fu"
  have fu: "set ?fu = set (vehicle_siblings u d)"
    using cur(1) by (auto simp: for_update_vehicles_iff vehicle_siblings_set)
  have xfu: "x \<in> set ?fu" using x fu by (simp add: vehicle_siblings_set)
  show ?thesis
  proof (cases "?cand = []")
    case True
    then have "\<forall>v \<in> set (vehicle_siblings u d). \<not> vehicle_order_key v < vehicle_order_key x"
      using fu by (auto simp: filter_empty_conv vehicle_before_key vehicle_siblings_set)
    moreover from True cur(2)
    have "reorder_vehicle_swap now_utc (Some u) (Some (v_id x)) (Some ''up'') d = Inr (''boundary'', d)"
      by (simp add: reorder_vehicle_swap_def)
    ultimately show ?thesis by blast
  next
    case False
    define y where "y = last (sort_key vehicle_order_key ?cand)"
    have yc: "y \<in> set ?cand" unfolding y_def by (rule sort_key_last_in[OF False])
    then have y: "y \<in> set ?fu" "vehicle_order_key y < vehicle_order_key x"
      by (auto simp: vehicle_before_key)
    have ymax: "\<forall>v \<in> set (vehicle_siblings u d).
        vehicle_order_key v < vehicle_order_key x \<longrightarrow> vehicle_order_key v \<le> vehicle_order_key y"
    proof (intro ballI impI)
      fix v assume "v \<in> set (vehicle_siblings u d)" "vehicle_order_key v < vehicle_order_key x"
      then have "v \<in> set ?cand" using fu by (auto simp: vehicle_before_key vehicle_siblings_set)
      then show "vehicle_order_key v \<le> vehicle_order_key y"
        unfolding y_def by (rule sort_key_last_ge)
    qed
    have "sort_key vehicle_order_key ?cand \<noteq> []" using False by (simp add: sort_key_Nil_iff)
    then have "select_into (limit_1 (order_by_desc vehicle_order_key ?cand)) = Some y"
      unfolding y_def by (cases "sort_key vehicle_order_key ?cand" rule: rev_cases)
        (simp_all add: select_into_def limit_1_def order_by_desc_def)
    with cur(2)
    have "reorder_vehicle_swap now_utc (Some u) (Some (v_id x)) (Some ''up'') d
        = Inr (''moved'', d\<lparr>vehicles := map (swap_vehicle_sort_order now_utc x y) (vehicles d)\<rparr>)"
      by (simp add: reorder_vehicle_swap_def
          vehicle_swap_map[OF vehicles_pkey[OF c] xfu y(1), simplified])
    with y ymax fu show ?thesis by blast
  qed
qed


lemma vehicle_key_eq:
  assumes "distinct (map v_id (vehicles d))" "a \<in> set (vehicles d)" "b \<in> set (vehicles d)"
    and "vehicle_order_key a = vehicle_order_key b"
  shows "a = b"
  using assms by (auto simp: vehicle_order_key_def dest: pkey_inj)

lemma reorder_vehicle_round_trip:
  assumes c: "db_constraints d"
    and adj: "adjacent_vehicles u d n x"
    and nt: "no_third_vehicle_tie u d n x"
  shows "reorder_vehicle_swap t1 (Some u) (Some (v_id x)) (Some ''up'') d
           = Inr (''moved'', d\<lparr>vehicles := map (swap_vehicle_sort_order t1 x n) (vehicles d)\<rparr>)
       \<and> (\<exists>outcome d2 n2 x2.
            reorder_vehicle_swap t2 (Some u) (Some (v_id x)) (Some ''down'')
                (d\<lparr>vehicles := map (swap_vehicle_sort_order t1 x n) (vehicles d)\<rparr>)
              = Inr (outcome, d2)
          \<and> vehicle_row d2 (v_id n) = Some n2 \<and> vehicle_row d2 (v_id x) = Some x2
          \<and> vehicle_order_key n2 < vehicle_order_key x2)"
proof -
  define d1 where "d1 = d\<lparr>vehicles := map (swap_vehicle_sort_order t1 x n) (vehicles d)\<rparr>"
  define x1 where "x1 = swap_vehicle_sort_order t1 x n x"
  define n1 where "n1 = swap_vehicle_sort_order t1 x n n"
  note pk = vehicles_pkey[OF c]
  from adj have n: "n \<in> set (vehicles d)" "v_profile_id n = u"
    and x: "x \<in> set (vehicles d)" "v_profile_id x = u"
    and nx: "vehicle_order_key n < vehicle_order_key x"
    and btw: "\<And>v. v \<in> set (vehicle_siblings u d) \<Longrightarrow>
        \<not> (vehicle_order_key n < vehicle_order_key v \<and> vehicle_order_key v < vehicle_order_key x)"
    by (auto simp: adjacent_vehicles_def vehicle_siblings_set list_all_iff)
  have nsib: "n \<in> set (vehicle_siblings u d)" and xsib: "x \<in> set (vehicle_siblings u d)"
    using n x by (simp_all add: vehicle_siblings_set)
  from nt have tie: "\<And>v. v \<in> set (vehicle_siblings u d) \<Longrightarrow> v_id v \<noteq> v_id n \<Longrightarrow> v_id v \<noteq> v_id x
      \<Longrightarrow> v_sort_order v \<noteq> v_sort_order n \<and> v_sort_order v \<noteq> v_sort_order x"
    by (auto simp: no_third_vehicle_tie_def list_all_iff)
  have idne: "v_id x \<noteq> v_id n"
    using pkey_inj[OF pk x(1) n(1)] nx by auto
  note kn = vehicle_order_key_def[of n] and kx = vehicle_order_key_def[of x]
  note nx' = nx[unfolded kn kx]
  have sle: "v_sort_order n \<le> v_sort_order x"
    using nx' by (auto simp: less_prod_def)
  \<comment> \<open>the first call\<close>
  have up: "reorder_vehicle_swap t1 (Some u) (Some (v_id x)) (Some ''up'') d = Inr (''moved'', d1)"
    using reorder_vehicle_up_result[OF c x, of t1]
  proof (elim disjE conjE bexE)
    assume "\<forall>v \<in> set (vehicle_siblings u d). \<not> vehicle_order_key v < vehicle_order_key x"
    with nsib nx show ?thesis by blast
  next
    fix y assume y: "y \<in> set (vehicle_siblings u d)" "vehicle_order_key y < vehicle_order_key x"
      and ymax: "\<forall>v \<in> set (vehicle_siblings u d).
        vehicle_order_key v < vehicle_order_key x \<longrightarrow> vehicle_order_key v \<le> vehicle_order_key y"
      and r: "reorder_vehicle_swap t1 (Some u) (Some (v_id x)) (Some ''up'') d
        = Inr (''moved'', d\<lparr>vehicles := map (swap_vehicle_sort_order t1 x y) (vehicles d)\<rparr>)"
    from ymax nsib nx have "vehicle_order_key n \<le> vehicle_order_key y" by blast
    moreover from btw[OF y(1)] y(2) have "vehicle_order_key y \<le> vehicle_order_key n" by auto
    ultimately have "vehicle_order_key y = vehicle_order_key n" by simp
    with y(1) n(1) have "y = n"
      by (intro vehicle_key_eq[OF pk]) (auto simp: vehicle_siblings_set)
    with r show ?thesis by (simp add: d1_def)
  qed
  \<comment> \<open>the state between the calls\<close>
  have c1: "db_constraints d1"
    unfolding d1_def by (rule swap_vehicle_constraints[OF c])
  have pk1: "distinct (map v_id (vehicles d1))" by (rule vehicles_pkey[OF c1])
  have x1in: "x1 \<in> set (vehicles d1)" "v_profile_id x1 = u" "v_id x1 = v_id x"
    and n1in: "n1 \<in> set (vehicles d1)" "v_profile_id n1 = u" "v_id n1 = v_id n"
    using x n by (simp_all add: d1_def x1_def n1_def)
  have x1k: "vehicle_order_key x1 = (v_sort_order n, v_created_at x, v_id x)"
    and n1k: "vehicle_order_key n1 = (v_sort_order x, v_created_at n, v_id n)"
    using idne by (simp_all add: vehicle_order_key_def x1_def n1_def)
  have sib1: "set (vehicle_siblings u d1) = swap_vehicle_sort_order t1 x n ` set (vehicle_siblings u d)"
    unfolding d1_def by (rule vehicle_siblings_swap)
  have n1sib: "n1 \<in> set (vehicle_siblings u d1)"
    using nsib by (simp add: sib1 n1_def)
  have row_n1: "vehicle_row d1 (v_id n) = Some n1" and row_x1: "vehicle_row d1 (v_id x) = Some x1"
    unfolding d1_def n1_def x1_def by (rule vehicle_row_swap[OF pk n(1)], rule vehicle_row_swap[OF pk x(1)])
  \<comment> \<open>the second call\<close>
  have "\<exists>outcome d2 n2 x2.
      reorder_vehicle_swap t2 (Some u) (Some (v_id x)) (Some ''down'') d1 = Inr (outcome, d2)
      \<and> vehicle_row d2 (v_id n) = Some n2 \<and> vehicle_row d2 (v_id x) = Some x2
      \<and> vehicle_order_key n2 < vehicle_order_key x2"
    using reorder_vehicle_down_result[OF c1 x1in(1,2), of t2, unfolded x1in(3)]
  proof (elim disjE conjE bexE)
    assume r: "reorder_vehicle_swap t2 (Some u) (Some (v_id x)) (Some ''down'') d1 = Inr (''boundary'', d1)"
      and last: "\<forall>v \<in> set (vehicle_siblings u d1). \<not> vehicle_order_key x1 < vehicle_order_key v"
    from last n1sib have "\<not> vehicle_order_key x1 < vehicle_order_key n1" by blast
    then have "v_sort_order n = v_sort_order x"
      using sle by (auto simp: x1k n1k less_prod_def)
    then have "vehicle_order_key n1 < vehicle_order_key x1"
      using nx' by (auto simp: x1k n1k less_prod_def)
    with r row_n1 row_x1 show ?thesis by blast
  next
    fix y1 assume y1: "y1 \<in> set (vehicle_siblings u d1)" "vehicle_order_key x1 < vehicle_order_key y1"
      and ymin: "\<forall>v \<in> set (vehicle_siblings u d1).
        vehicle_order_key x1 < vehicle_order_key v \<longrightarrow> vehicle_order_key y1 \<le> vehicle_order_key v"
      and r: "reorder_vehicle_swap t2 (Some u) (Some (v_id x)) (Some ''down'') d1
        = Inr (''moved'', d1\<lparr>vehicles := map (swap_vehicle_sort_order t2 x1 y1) (vehicles d1)\<rparr>)"
    define d2 where "d2 = d1\<lparr>vehicles := map (swap_vehicle_sort_order t2 x1 y1) (vehicles d1)\<rparr>"
    have y1in: "y1 \<in> set (vehicles d1)" using y1(1) by (simp add: vehicle_siblings_set)
    have row_n2: "vehicle_row d2 (v_id n) = Some (swap_vehicle_sort_order t2 x1 y1 n1)"
      and row_x2: "vehicle_row d2 (v_id x) = Some (swap_vehicle_sort_order t2 x1 y1 x1)"
      using vehicle_row_swap[OF pk1 n1in(1), of t2 x1 y1] vehicle_row_swap[OF pk1 x1in(1), of t2 x1 y1]
      by (simp_all add: d2_def n1in x1in)
    have xk2: "vehicle_order_key (swap_vehicle_sort_order t2 x1 y1 x1)
        = (v_sort_order y1, v_created_at x, v_id x)"
      by (simp add: vehicle_order_key_def x1in) (simp add: x1_def)
    have "vehicle_order_key (swap_vehicle_sort_order t2 x1 y1 n1)
        < vehicle_order_key (swap_vehicle_sort_order t2 x1 y1 x1)"
    proof (cases "v_sort_order n = v_sort_order x")
      case True
      then have "vehicle_order_key n1 < vehicle_order_key x1"
        using nx' by (auto simp: x1k n1k less_prod_def)
      with y1(2) have "vehicle_order_key n1 < vehicle_order_key y1" by simp
      then have "v_id y1 \<noteq> v_id n1"
        using pkey_inj[OF pk1 y1in n1in(1)] by auto
      then have nk2: "vehicle_order_key (swap_vehicle_sort_order t2 x1 y1 n1)
          = (v_sort_order x, v_created_at n, v_id n)"
        using idne by (simp add: vehicle_order_key_def n1in x1in) (simp add: n1_def)
      have "v_sort_order x \<le> v_sort_order y1"
        using y1(2) True by (auto simp: x1k vehicle_order_key_def[of y1] less_prod_def)
      with nx' True show ?thesis
        by (auto simp: xk2 nk2 less_prod_def)
    next
      case False
      with sle have lt: "v_sort_order n < v_sort_order x" by simp
      then have xn1: "vehicle_order_key x1 < vehicle_order_key n1"
        by (simp add: x1k n1k less_prod_def)
      with ymin n1sib have le: "vehicle_order_key y1 \<le> vehicle_order_key n1" by blast
      from y1(1) obtain v where v: "v \<in> set (vehicle_siblings u d)"
          "y1 = swap_vehicle_sort_order t1 x n v"
        by (auto simp: sib1)
      have "v_id v = v_id n"
      proof (rule ccontr)
        assume ne: "v_id v \<noteq> v_id n"
        have nex: "v_id v \<noteq> v_id x"
        proof
          assume "v_id v = v_id x"
          with v(1) x(1) have "v = x"
            by (intro pkey_inj[OF pk]) (auto simp: vehicle_siblings_set)
          with v(2) y1(2) show False by (simp add: x1_def)
        qed
        from tie[OF v(1) ne nex] have t: "v_sort_order v \<noteq> v_sort_order n"
            "v_sort_order v \<noteq> v_sort_order x" by simp_all
        have yv: "y1 = v" using v(2) ne nex by (simp add: swap_vehicle_sort_order_def)
        from y1(2) t(1) have gt: "v_sort_order n < v_sort_order v"
          by (auto simp: yv x1k vehicle_order_key_def[of v] less_prod_def)
        from le t(2) have "v_sort_order v < v_sort_order x"
          by (auto simp: yv n1k vehicle_order_key_def[of v] less_prod_def less_eq_prod_def)
        then have "vehicle_order_key v < vehicle_order_key x"
          by (simp add: kx vehicle_order_key_def[of v] less_prod_def)
        moreover from gt have "vehicle_order_key n < vehicle_order_key v"
          by (simp add: kn vehicle_order_key_def[of v] less_prod_def)
        ultimately show False using btw[OF v(1)] by blast
      qed
      with v(1) n(1) have "v = n"
        by (intro pkey_inj[OF pk]) (auto simp: vehicle_siblings_set)
      with v(2) have yn: "y1 = n1" by (simp add: n1_def)
      have "vehicle_order_key (swap_vehicle_sort_order t2 x1 n1 n1)
          = (v_sort_order n, v_created_at n, v_id n)"
        using idne by (simp add: vehicle_order_key_def n1in x1in) (simp add: n1_def x1_def)
      moreover have "vehicle_order_key (swap_vehicle_sort_order t2 x1 n1 x1)
          = (v_sort_order x, v_created_at x, v_id x)"
        using idne by (simp add: vehicle_order_key_def n1in x1in) (simp add: n1_def x1_def)
      ultimately show ?thesis
        using nx' by (simp add: yn)
    qed
    with r row_n2 row_x2 show ?thesis unfolding d2_def by blast
  qed
  with up show ?thesis unfolding d1_def by blast
qed

lemma mods_pkey: "db_constraints d \<Longrightarrow> distinct (map m_id (mods d))"
  by (simp add: db_constraints_def primary_keys_def)

lemma mod_siblings_set:
  "set (mod_siblings vid d) = {m \<in> set (mods d). m_vehicle_id m = vid}"
  by (auto simp: mod_siblings_def)

lemma mod_swap_map:
  assumes pk: "distinct (map m_id (mods d))"
    and a: "a \<in> set (for_update_mods (Some u) d)" "m_vehicle_id a = vid"
    and b: "b \<in> set (for_update_mods (Some u) d)" "m_vehicle_id b = vid"
  shows "map (\<lambda>m. if m \<in> set (for_update_mods (Some u) d)
                     \<and> m_id m \<in> {m_id a, m_id b} \<and> Some (m_vehicle_id m) = Some vid
                   then m\<lparr>m_sort_order :=
                            (if m_id m = m_id a then m_sort_order b
                             else if m_id m = m_id b then m_sort_order a
                             else m_sort_order m),
                          m_updated_at := now_utc\<rparr>
                   else m) (mods d)
       = map (swap_mod_sort_order now_utc a b) (mods d)"
proof (rule map_cong[OF refl])
  fix m assume m: "m \<in> set (mods d)"
  from a b have ab: "a \<in> set (mods d)" "b \<in> set (mods d)"
    by (auto simp: for_update_mods_iff)
  have "m = a" if "m_id m = m_id a" using pkey_inj[OF pk m ab(1) that] .
  moreover have "m = b" if "m_id m = m_id b" using pkey_inj[OF pk m ab(2) that] .
  ultimately show "(if m \<in> set (for_update_mods (Some u) d)
                     \<and> m_id m \<in> {m_id a, m_id b} \<and> Some (m_vehicle_id m) = Some vid
                   then m\<lparr>m_sort_order :=
                            (if m_id m = m_id a then m_sort_order b
                             else if m_id m = m_id b then m_sort_order a
                             else m_sort_order m),
                          m_updated_at := now_utc\<rparr>
                   else m) = swap_mod_sort_order now_utc a b m"
    using a b by (auto simp: swap_mod_sort_order_def)
qed

lemma reorder_mod_moved_frame:
  assumes c: "db_constraints d"
    and r: "reorder_mod_swap now_utc auth_uid p_vehicle_id p_mod_id p_direction d = Inr (''moved'', d')"
  shows "\<exists>a b. a \<in> set (mods d) \<and> b \<in> set (mods d)
           \<and> d' = d\<lparr>mods := map (swap_mod_sort_order now_utc a b) (mods d)\<rparr>"
proof -
  from r obtain u where u: "auth_uid = Some u"
    by (cases auth_uid) (auto simp: reorder_mod_swap_def split: if_splits)
  let ?fu = "for_update_mods (Some u) d"
  from r u obtain a where a: "select_into
      (filter (\<lambda>m. (\<exists>v \<in> set (select_vehicles (Some u) d).
                       v_id v = m_vehicle_id m \<and> v_profile_id v = u)
                   \<and> Some (m_id m) = p_mod_id \<and> Some (m_vehicle_id m) = p_vehicle_id) ?fu) = Some a"
    by (auto simp: reorder_mod_swap_def split: if_splits option.splits)
  from r u a obtain b where b: "select_into
       (if p_direction = Some ''up''
        then limit_1 (order_by_desc mod_order_key
               (filter (\<lambda>m. Some (m_vehicle_id m) = p_vehicle_id \<and> mod_before m a) ?fu))
        else limit_1 (order_by_asc mod_order_key
               (filter (\<lambda>m. Some (m_vehicle_id m) = p_vehicle_id \<and> mod_after m a) ?fu))) = Some b"
    by (auto simp: reorder_mod_swap_def split: if_splits option.splits)
  from select_into_SomeD[OF a] have ain: "a \<in> set ?fu" "p_vehicle_id = Some (m_vehicle_id a)"
    by auto
  from b have bin: "b \<in> set ?fu" "Some (m_vehicle_id b) = p_vehicle_id"
    by (auto split: if_splits dest!: select_into_limit_1_in)
  then have bv: "m_vehicle_id b = m_vehicle_id a" using ain(2) by simp
  from r u a b have "d' = d\<lparr>mods :=
      map (\<lambda>m. if m \<in> set ?fu \<and> m_id m \<in> {m_id a, m_id b}
                     \<and> Some (m_vehicle_id m) = Some (m_vehicle_id a)
                   then m\<lparr>m_sort_order :=
                            (if m_id m = m_id a then m_sort_order b
                             else if m_id m = m_id b then m_sort_order a
                             else m_sort_order m),
                          m_updated_at := now_utc\<rparr>
                   else m) (mods d)\<rparr>"
    unfolding ain(2) by (auto simp: reorder_mod_swap_def split: if_splits)
  then have "d' = d\<lparr>mods := map (swap_mod_sort_order now_utc a b) (mods d)\<rparr>"
    by (simp only: mod_swap_map[OF mods_pkey[OF c] ain(1) refl bin(1) bv])
  with ain bin show ?thesis by (auto simp: for_update_mods_iff)
qed

lemma swap_mod_simps [simp]:
  "m_id (swap_mod_sort_order t a b m) = m_id m"
  "m_vehicle_id (swap_mod_sort_order t a b m) = m_vehicle_id m"
  "m_created_at (swap_mod_sort_order t a b m) = m_created_at m"
  "m_sort_order (swap_mod_sort_order t a b m)
     = (if m_id m = m_id a then m_sort_order b
        else if m_id m = m_id b then m_sort_order a else m_sort_order m)"
  by (simp_all add: swap_mod_sort_order_def)

lemma swap_mod_constraints:
  assumes "db_constraints d"
  shows "db_constraints (d\<lparr>mods := map (swap_mod_sort_order t a b) (mods d)\<rparr>)"
proof -
  have "map m_id (map (swap_mod_sort_order t a b) (mods d)) = map m_id (mods d)"
    by simp
  moreover have "m_id ` swap_mod_sort_order t a b ` set (mods d) = m_id ` set (mods d)"
    by (simp add: image_image)
  ultimately show ?thesis
    using assms
    by (auto simp: db_constraints_def primary_keys_def foreign_keys_def list_all_iff o_def
        split: option.splits)
qed

lemma mod_siblings_swap:
  "set (mod_siblings vid (d\<lparr>mods := map (swap_mod_sort_order t a b) (mods d)\<rparr>))
     = swap_mod_sort_order t a b ` set (mod_siblings vid d)"
  by (auto simp: mod_siblings_set)

lemma mod_row_swap:
  assumes pk: "distinct (map m_id (mods d))" and m: "m \<in> set (mods d)"
  shows "mod_row_of (d\<lparr>mods := map (swap_mod_sort_order t a b) (mods d)\<rparr>) (m_id m)
           = Some (swap_mod_sort_order t a b m)"
proof -
  have "distinct (map m_id (map (swap_mod_sort_order t a b) (mods d)))"
    using pk by (simp add: o_def)
  moreover have "swap_mod_sort_order t a b m \<in> set (map (swap_mod_sort_order t a b) (mods d))"
    using m by simp
  ultimately have "find (\<lambda>w. m_id w = m_id (swap_mod_sort_order t a b m))
      (map (swap_mod_sort_order t a b) (mods d)) = Some (swap_mod_sort_order t a b m)"
    by (rule find_pkey)
  then show ?thesis by (simp add: mod_row_of_def)
qed

lemma for_update_mods_siblings:
  assumes c: "db_constraints d" and own: "v \<in> set (vehicles d)" "v_id v = vid" "v_profile_id v = u"
  shows "{m \<in> set (for_update_mods (Some u) d). m_vehicle_id m = vid} = set (mod_siblings vid d)"
proof -
  from c own have "u \<in> p_id ` set (profiles d)"
    by (auto simp: db_constraints_def foreign_keys_def list_all_iff)
  with own show ?thesis
    by (auto simp: for_update_mods_iff mod_siblings_set)
qed

lemma reorder_mod_down_result:
  assumes c: "db_constraints d" and x: "x \<in> set (mods d)" "m_vehicle_id x = vid"
    and own: "v \<in> set (vehicles d)" "v_id v = vid" "v_profile_id v = u"
  shows "(reorder_mod_swap now_utc (Some u) (Some vid) (Some (m_id x)) (Some ''down'') d
            = Inr (''boundary'', d)
          \<and> (\<forall>m \<in> set (mod_siblings vid d). \<not> mod_order_key x < mod_order_key m))
       \<or> (\<exists>y \<in> set (mod_siblings vid d). mod_order_key x < mod_order_key y
            \<and> (\<forall>m \<in> set (mod_siblings vid d).
                  mod_order_key x < mod_order_key m \<longrightarrow> mod_order_key y \<le> mod_order_key m)
            \<and> reorder_mod_swap now_utc (Some u) (Some vid) (Some (m_id x)) (Some ''down'') d
                = Inr (''moved'', d\<lparr>mods := map (swap_mod_sort_order now_utc x y) (mods d)\<rparr>))"
proof -
  note cur = mod_current[OF c x own]
  let ?fu = "for_update_mods (Some u) d"
  let ?cand = "filter (\<lambda>m. Some (m_vehicle_id m) = Some vid \<and> mod_after m x) ?fu"
  note fu = for_update_mods_siblings[OF c own]
  have xfu: "x \<in> set ?fu" using x fu by (auto simp: mod_siblings_set)
  show ?thesis
  proof (cases "?cand = []")
    case True
    then have "\<forall>m \<in> set (mod_siblings vid d). \<not> mod_order_key x < mod_order_key m"
      using fu by (auto simp: filter_empty_conv mod_after_key)
    moreover from True cur(2)
    have "reorder_mod_swap now_utc (Some u) (Some vid) (Some (m_id x)) (Some ''down'') d
        = Inr (''boundary'', d)"
      by (simp add: reorder_mod_swap_def)
    ultimately show ?thesis by blast
  next
    case False
    define y where "y = hd (sort_key mod_order_key ?cand)"
    have yc: "y \<in> set ?cand" unfolding y_def by (rule sort_key_hd_in[OF False])
    then have y: "y \<in> set ?fu" "m_vehicle_id y = vid" "mod_order_key x < mod_order_key y"
      by (auto simp: mod_after_key)
    then have ysib: "y \<in> set (mod_siblings vid d)" using fu by auto
    have ymin: "\<forall>m \<in> set (mod_siblings vid d).
        mod_order_key x < mod_order_key m \<longrightarrow> mod_order_key y \<le> mod_order_key m"
    proof (intro ballI impI)
      fix m assume "m \<in> set (mod_siblings vid d)" "mod_order_key x < mod_order_key m"
      then have "m \<in> set ?cand" using fu by (auto simp: mod_after_key)
      then show "mod_order_key y \<le> mod_order_key m"
        unfolding y_def by (rule sort_key_hd_le)
    qed
    have "sort_key mod_order_key ?cand \<noteq> []" using False by (simp add: sort_key_Nil_iff)
    then have "select_into (limit_1 (order_by_asc mod_order_key ?cand)) = Some y"
      unfolding y_def by (cases "sort_key mod_order_key ?cand")
        (simp_all add: select_into_def limit_1_def order_by_asc_def)
    with cur(2)
    have "reorder_mod_swap now_utc (Some u) (Some vid) (Some (m_id x)) (Some ''down'') d
        = Inr (''moved'', d\<lparr>mods := map (swap_mod_sort_order now_utc x y) (mods d)\<rparr>)"
      by (simp add: reorder_mod_swap_def
          mod_swap_map[OF mods_pkey[OF c] xfu x(2) y(1,2), simplified])
    with y ymin ysib show ?thesis by blast
  qed
qed

lemma reorder_mod_up_result:
  assumes c: "db_constraints d" and x: "x \<in> set (mods d)" "m_vehicle_id x = vid"
    and own: "v \<in> set (vehicles d)" "v_id v = vid" "v_profile_id v = u"
  shows "(reorder_mod_swap now_utc (Some u) (Some vid) (Some (m_id x)) (Some ''up'') d
            = Inr (''boundary'', d)
          \<and> (\<forall>m \<in> set (mod_siblings vid d). \<not> mod_order_key m < mod_order_key x))
       \<or> (\<exists>y \<in> set (mod_siblings vid d). mod_order_key y < mod_order_key x
            \<and> (\<forall>m \<in> set (mod_siblings vid d).
                  mod_order_key m < mod_order_key x \<longrightarrow> mod_order_key m \<le> mod_order_key y)
            \<and> reorder_mod_swap now_utc (Some u) (Some vid) (Some (m_id x)) (Some ''up'') d
                = Inr (''moved'', d\<lparr>mods := map (swap_mod_sort_order now_utc x y) (mods d)\<rparr>))"
proof -
  note cur = mod_current[OF c x own]
  let ?fu = "for_update_mods (Some u) d"
  let ?cand = "filter (\<lambda>m. Some (m_vehicle_id m) = Some vid \<and> mod_before m x) ?fu"
  note fu = for_update_mods_siblings[OF c own]
  have xfu: "x \<in> set ?fu" using x fu by (auto simp: mod_siblings_set)
  show ?thesis
  proof (cases "?cand = []")
    case True
    then have "\<forall>m \<in> set (mod_siblings vid d). \<not> mod_order_key m < mod_order_key x"
      using fu by (auto simp: filter_empty_conv mod_before_key)
    moreover from True cur(2)
    have "reorder_mod_swap now_utc (Some u) (Some vid) (Some (m_id x)) (Some ''up'') d
        = Inr (''boundary'', d)"
      by (simp add: reorder_mod_swap_def)
    ultimately show ?thesis by blast
  next
    case False
    define y where "y = last (sort_key mod_order_key ?cand)"
    have yc: "y \<in> set ?cand" unfolding y_def by (rule sort_key_last_in[OF False])
    then have y: "y \<in> set ?fu" "m_vehicle_id y = vid" "mod_order_key y < mod_order_key x"
      by (auto simp: mod_before_key)
    then have ysib: "y \<in> set (mod_siblings vid d)" using fu by auto
    have ymax: "\<forall>m \<in> set (mod_siblings vid d).
        mod_order_key m < mod_order_key x \<longrightarrow> mod_order_key m \<le> mod_order_key y"
    proof (intro ballI impI)
      fix m assume "m \<in> set (mod_siblings vid d)" "mod_order_key m < mod_order_key x"
      then have "m \<in> set ?cand" using fu by (auto simp: mod_before_key)
      then show "mod_order_key m \<le> mod_order_key y"
        unfolding y_def by (rule sort_key_last_ge)
    qed
    have "sort_key mod_order_key ?cand \<noteq> []" using False by (simp add: sort_key_Nil_iff)
    then have "select_into (limit_1 (order_by_desc mod_order_key ?cand)) = Some y"
      unfolding y_def by (cases "sort_key mod_order_key ?cand" rule: rev_cases)
        (simp_all add: select_into_def limit_1_def order_by_desc_def)
    with cur(2)
    have "reorder_mod_swap now_utc (Some u) (Some vid) (Some (m_id x)) (Some ''up'') d
        = Inr (''moved'', d\<lparr>mods := map (swap_mod_sort_order now_utc x y) (mods d)\<rparr>)"
      by (simp add: reorder_mod_swap_def
          mod_swap_map[OF mods_pkey[OF c] xfu x(2) y(1,2), simplified])
    with y ymax ysib show ?thesis by blast
  qed
qed

lemma mod_key_eq:
  assumes "distinct (map m_id (mods d))" "a \<in> set (mods d)" "b \<in> set (mods d)"
    and "mod_order_key a = mod_order_key b"
  shows "a = b"
  using assms by (auto simp: mod_order_key_def dest: pkey_inj)

lemma reorder_mod_round_trip:
  assumes c: "db_constraints d"
    and own: "veh \<in> set (vehicles d)" "v_id veh = vid" "v_profile_id veh = u"
    and adj: "adjacent_mods vid d n x"
    and nt: "no_third_mod_tie vid d n x"
  shows "reorder_mod_swap t1 (Some u) (Some vid) (Some (m_id x)) (Some ''up'') d
           = Inr (''moved'', d\<lparr>mods := map (swap_mod_sort_order t1 x n) (mods d)\<rparr>)
       \<and> (\<exists>outcome d2 n2 x2.
            reorder_mod_swap t2 (Some u) (Some vid) (Some (m_id x)) (Some ''down'')
                (d\<lparr>mods := map (swap_mod_sort_order t1 x n) (mods d)\<rparr>)
              = Inr (outcome, d2)
          \<and> mod_row_of d2 (m_id n) = Some n2 \<and> mod_row_of d2 (m_id x) = Some x2
          \<and> mod_order_key n2 < mod_order_key x2)"
proof -
  define d1 where "d1 = d\<lparr>mods := map (swap_mod_sort_order t1 x n) (mods d)\<rparr>"
  define x1 where "x1 = swap_mod_sort_order t1 x n x"
  define n1 where "n1 = swap_mod_sort_order t1 x n n"
  note pk = mods_pkey[OF c]
  from adj have n: "n \<in> set (mods d)" "m_vehicle_id n = vid"
    and x: "x \<in> set (mods d)" "m_vehicle_id x = vid"
    and nx: "mod_order_key n < mod_order_key x"
    and btw: "\<And>v. v \<in> set (mod_siblings vid d) \<Longrightarrow>
        \<not> (mod_order_key n < mod_order_key v \<and> mod_order_key v < mod_order_key x)"
    by (auto simp: adjacent_mods_def mod_siblings_set list_all_iff)
  have nsib: "n \<in> set (mod_siblings vid d)" and xsib: "x \<in> set (mod_siblings vid d)"
    using n x by (simp_all add: mod_siblings_set)
  from nt have tie: "\<And>v. v \<in> set (mod_siblings vid d) \<Longrightarrow> m_id v \<noteq> m_id n \<Longrightarrow> m_id v \<noteq> m_id x
      \<Longrightarrow> m_sort_order v \<noteq> m_sort_order n \<and> m_sort_order v \<noteq> m_sort_order x"
    by (auto simp: no_third_mod_tie_def list_all_iff)
  have idne: "m_id x \<noteq> m_id n"
    using pkey_inj[OF pk x(1) n(1)] nx by auto
  note kn = mod_order_key_def[of n] and kx = mod_order_key_def[of x]
  note nx' = nx[unfolded kn kx]
  have sle: "m_sort_order n \<le> m_sort_order x"
    using nx' by (auto simp: less_prod_def)
  \<comment> \<open>the first call\<close>
  have up: "reorder_mod_swap t1 (Some u) (Some vid) (Some (m_id x)) (Some ''up'') d = Inr (''moved'', d1)"
    using reorder_mod_up_result[OF c x own, of t1]
  proof (elim disjE conjE bexE)
    assume "\<forall>v \<in> set (mod_siblings vid d). \<not> mod_order_key v < mod_order_key x"
    with nsib nx show ?thesis by blast
  next
    fix y assume y: "y \<in> set (mod_siblings vid d)" "mod_order_key y < mod_order_key x"
      and ymax: "\<forall>v \<in> set (mod_siblings vid d).
        mod_order_key v < mod_order_key x \<longrightarrow> mod_order_key v \<le> mod_order_key y"
      and r: "reorder_mod_swap t1 (Some u) (Some vid) (Some (m_id x)) (Some ''up'') d
        = Inr (''moved'', d\<lparr>mods := map (swap_mod_sort_order t1 x y) (mods d)\<rparr>)"
    from ymax nsib nx have "mod_order_key n \<le> mod_order_key y" by blast
    moreover from btw[OF y(1)] y(2) have "mod_order_key y \<le> mod_order_key n" by auto
    ultimately have "mod_order_key y = mod_order_key n" by simp
    with y(1) n(1) have "y = n"
      by (intro mod_key_eq[OF pk]) (auto simp: mod_siblings_set)
    with r show ?thesis by (simp add: d1_def)
  qed
  \<comment> \<open>the state between the calls\<close>
  have c1: "db_constraints d1"
    unfolding d1_def by (rule swap_mod_constraints[OF c])
  have pk1: "distinct (map m_id (mods d1))" by (rule mods_pkey[OF c1])
  have own1: "veh \<in> set (vehicles d1)" "v_id veh = vid" "v_profile_id veh = u"
    using own by (simp_all add: d1_def)
  have x1in: "x1 \<in> set (mods d1)" "m_vehicle_id x1 = vid" "m_id x1 = m_id x"
    and n1in: "n1 \<in> set (mods d1)" "m_vehicle_id n1 = vid" "m_id n1 = m_id n"
    using x n by (simp_all add: d1_def x1_def n1_def)
  have x1k: "mod_order_key x1 = (m_sort_order n, m_created_at x, m_id x)"
    and n1k: "mod_order_key n1 = (m_sort_order x, m_created_at n, m_id n)"
    using idne by (simp_all add: mod_order_key_def x1_def n1_def)
  have sib1: "set (mod_siblings vid d1) = swap_mod_sort_order t1 x n ` set (mod_siblings vid d)"
    unfolding d1_def by (rule mod_siblings_swap)
  have n1sib: "n1 \<in> set (mod_siblings vid d1)"
    using nsib by (simp add: sib1 n1_def)
  have row_n1: "mod_row_of d1 (m_id n) = Some n1" and row_x1: "mod_row_of d1 (m_id x) = Some x1"
    unfolding d1_def n1_def x1_def by (rule mod_row_swap[OF pk n(1)], rule mod_row_swap[OF pk x(1)])
  \<comment> \<open>the second call\<close>
  have "\<exists>outcome d2 n2 x2.
      reorder_mod_swap t2 (Some u) (Some vid) (Some (m_id x)) (Some ''down'') d1 = Inr (outcome, d2)
      \<and> mod_row_of d2 (m_id n) = Some n2 \<and> mod_row_of d2 (m_id x) = Some x2
      \<and> mod_order_key n2 < mod_order_key x2"
    using reorder_mod_down_result[OF c1 x1in(1,2) own1, of t2, unfolded x1in(3)]
  proof (elim disjE conjE bexE)
    assume r: "reorder_mod_swap t2 (Some u) (Some vid) (Some (m_id x)) (Some ''down'') d1 = Inr (''boundary'', d1)"
      and last: "\<forall>v \<in> set (mod_siblings vid d1). \<not> mod_order_key x1 < mod_order_key v"
    from last n1sib have "\<not> mod_order_key x1 < mod_order_key n1" by blast
    then have "m_sort_order n = m_sort_order x"
      using sle by (auto simp: x1k n1k less_prod_def)
    then have "mod_order_key n1 < mod_order_key x1"
      using nx' by (auto simp: x1k n1k less_prod_def)
    with r row_n1 row_x1 show ?thesis by blast
  next
    fix y1 assume y1: "y1 \<in> set (mod_siblings vid d1)" "mod_order_key x1 < mod_order_key y1"
      and ymin: "\<forall>v \<in> set (mod_siblings vid d1).
        mod_order_key x1 < mod_order_key v \<longrightarrow> mod_order_key y1 \<le> mod_order_key v"
      and r: "reorder_mod_swap t2 (Some u) (Some vid) (Some (m_id x)) (Some ''down'') d1
        = Inr (''moved'', d1\<lparr>mods := map (swap_mod_sort_order t2 x1 y1) (mods d1)\<rparr>)"
    define d2 where "d2 = d1\<lparr>mods := map (swap_mod_sort_order t2 x1 y1) (mods d1)\<rparr>"
    have y1in: "y1 \<in> set (mods d1)" using y1(1) by (simp add: mod_siblings_set)
    have row_n2: "mod_row_of d2 (m_id n) = Some (swap_mod_sort_order t2 x1 y1 n1)"
      and row_x2: "mod_row_of d2 (m_id x) = Some (swap_mod_sort_order t2 x1 y1 x1)"
      using mod_row_swap[OF pk1 n1in(1), of t2 x1 y1] mod_row_swap[OF pk1 x1in(1), of t2 x1 y1]
      by (simp_all add: d2_def n1in x1in)
    have xk2: "mod_order_key (swap_mod_sort_order t2 x1 y1 x1)
        = (m_sort_order y1, m_created_at x, m_id x)"
      by (simp add: mod_order_key_def x1in) (simp add: x1_def)
    have "mod_order_key (swap_mod_sort_order t2 x1 y1 n1)
        < mod_order_key (swap_mod_sort_order t2 x1 y1 x1)"
    proof (cases "m_sort_order n = m_sort_order x")
      case True
      then have "mod_order_key n1 < mod_order_key x1"
        using nx' by (auto simp: x1k n1k less_prod_def)
      with y1(2) have "mod_order_key n1 < mod_order_key y1" by simp
      then have "m_id y1 \<noteq> m_id n1"
        using pkey_inj[OF pk1 y1in n1in(1)] by auto
      then have nk2: "mod_order_key (swap_mod_sort_order t2 x1 y1 n1)
          = (m_sort_order x, m_created_at n, m_id n)"
        using idne by (simp add: mod_order_key_def n1in x1in) (simp add: n1_def)
      have "m_sort_order x \<le> m_sort_order y1"
        using y1(2) True by (auto simp: x1k mod_order_key_def[of y1] less_prod_def)
      with nx' True show ?thesis
        by (auto simp: xk2 nk2 less_prod_def)
    next
      case False
      with sle have lt: "m_sort_order n < m_sort_order x" by simp
      then have xn1: "mod_order_key x1 < mod_order_key n1"
        by (simp add: x1k n1k less_prod_def)
      with ymin n1sib have le: "mod_order_key y1 \<le> mod_order_key n1" by blast
      from y1(1) obtain v where v: "v \<in> set (mod_siblings vid d)"
          "y1 = swap_mod_sort_order t1 x n v"
        by (auto simp: sib1)
      have "m_id v = m_id n"
      proof (rule ccontr)
        assume ne: "m_id v \<noteq> m_id n"
        have nex: "m_id v \<noteq> m_id x"
        proof
          assume "m_id v = m_id x"
          with v(1) x(1) have "v = x"
            by (intro pkey_inj[OF pk]) (auto simp: mod_siblings_set)
          with v(2) y1(2) show False by (simp add: x1_def)
        qed
        from tie[OF v(1) ne nex] have t: "m_sort_order v \<noteq> m_sort_order n"
            "m_sort_order v \<noteq> m_sort_order x" by simp_all
        have yv: "y1 = v" using v(2) ne nex by (simp add: swap_mod_sort_order_def)
        from y1(2) t(1) have gt: "m_sort_order n < m_sort_order v"
          by (auto simp: yv x1k mod_order_key_def[of v] less_prod_def)
        from le t(2) have "m_sort_order v < m_sort_order x"
          by (auto simp: yv n1k mod_order_key_def[of v] less_prod_def less_eq_prod_def)
        then have "mod_order_key v < mod_order_key x"
          by (simp add: kx mod_order_key_def[of v] less_prod_def)
        moreover from gt have "mod_order_key n < mod_order_key v"
          by (simp add: kn mod_order_key_def[of v] less_prod_def)
        ultimately show False using btw[OF v(1)] by blast
      qed
      with v(1) n(1) have "v = n"
        by (intro pkey_inj[OF pk]) (auto simp: mod_siblings_set)
      with v(2) have yn: "y1 = n1" by (simp add: n1_def)
      have "mod_order_key (swap_mod_sort_order t2 x1 n1 n1)
          = (m_sort_order n, m_created_at n, m_id n)"
        using idne by (simp add: mod_order_key_def n1in x1in) (simp add: n1_def x1_def)
      moreover have "mod_order_key (swap_mod_sort_order t2 x1 n1 x1)
          = (m_sort_order x, m_created_at x, m_id x)"
        using idne by (simp add: mod_order_key_def n1in x1in) (simp add: n1_def x1_def)
      ultimately show ?thesis
        using nx' by (simp add: yn)
    qed
    with r row_n2 row_x2 show ?thesis unfolding d2_def by blast
  qed
  with up show ?thesis unfolding d1_def by blast
qed

subsection \<open>The round trip\<close>

text \<open>
  Claim C9, as the code has it. Let \<open>n\<close> be the sibling just before \<open>x\<close> in the
  \<open>(sort_order, created_at, id)\<close> order, and let no third sibling have the
  \<open>sort_order\<close> of \<open>x\<close> or of \<open>n\<close>. Then \<open>reorder(x, up)\<close> returns \<open>moved\<close>, and
  after \<open>reorder(x, down)\<close> the two siblings are again in their original relative
  order, \<open>n\<close> before \<open>x\<close>. Every call that returns \<open>moved\<close> changes \<open>sort_order\<close>
  in at most two rows, which exchange their values. Both hold for vehicles and for
  mods.
\<close>

theorem reorder_round_trip_distinct:
  assumes c: "db_constraints d"
  shows "(adjacent_vehicles u d n x \<and> no_third_vehicle_tie u d n x \<longrightarrow>
            reorder_vehicle_swap t1 (Some u) (Some (v_id x)) (Some ''up'') d
              = Inr (''moved'', d\<lparr>vehicles := map (swap_vehicle_sort_order t1 x n) (vehicles d)\<rparr>)
          \<and> (\<exists>outcome d2 n2 x2.
                reorder_vehicle_swap t2 (Some u) (Some (v_id x)) (Some ''down'')
                    (d\<lparr>vehicles := map (swap_vehicle_sort_order t1 x n) (vehicles d)\<rparr>)
                  = Inr (outcome, d2)
              \<and> vehicle_row d2 (v_id n) = Some n2 \<and> vehicle_row d2 (v_id x) = Some x2
              \<and> vehicle_order_key n2 < vehicle_order_key x2))
       \<and> (adjacent_mods vid d mn mx \<and> no_third_mod_tie vid d mn mx
            \<and> (\<exists>v \<in> set (vehicles d). v_id v = vid \<and> v_profile_id v = u) \<longrightarrow>
            reorder_mod_swap t1 (Some u) (Some vid) (Some (m_id mx)) (Some ''up'') d
              = Inr (''moved'', d\<lparr>mods := map (swap_mod_sort_order t1 mx mn) (mods d)\<rparr>)
          \<and> (\<exists>outcome d2 n2 x2.
                reorder_mod_swap t2 (Some u) (Some vid) (Some (m_id mx)) (Some ''down'')
                    (d\<lparr>mods := map (swap_mod_sort_order t1 mx mn) (mods d)\<rparr>)
                  = Inr (outcome, d2)
              \<and> mod_row_of d2 (m_id mn) = Some n2 \<and> mod_row_of d2 (m_id mx) = Some x2
              \<and> mod_order_key n2 < mod_order_key x2))
       \<and> (reorder_vehicle_swap t1 auth_uid p_vehicle_id p_direction d = Inr (''moved'', d') \<longrightarrow>
            (\<exists>a b. a \<in> set (vehicles d) \<and> b \<in> set (vehicles d)
               \<and> d' = d\<lparr>vehicles := map (swap_vehicle_sort_order t1 a b) (vehicles d)\<rparr>))
       \<and> (reorder_mod_swap t1 auth_uid p_vehicle_id p_mod_id p_direction d = Inr (''moved'', d') \<longrightarrow>
            (\<exists>a b. a \<in> set (mods d) \<and> b \<in> set (mods d)
               \<and> d' = d\<lparr>mods := map (swap_mod_sort_order t1 a b) (mods d)\<rparr>))"
  using reorder_vehicle_round_trip[OF c, of u n x t1 t2]
    reorder_mod_round_trip[OF c _ _ _ _ _, of _ vid u mn mx t1 t2]
    reorder_vehicle_moved_frame[OF c, of t1 auth_uid p_vehicle_id p_direction d']
    reorder_mod_moved_frame[OF c, of t1 auth_uid p_vehicle_id p_mod_id p_direction d']
  by blast


theorem reorder_round_trip_distinct_witness:
  "db_constraints garage0
   \<and> adjacent_vehicles 7 garage0 (vehicles garage0 ! 1) (vehicles garage0 ! 2)
   \<and> no_third_vehicle_tie 7 garage0 (vehicles garage0 ! 1) (vehicles garage0 ! 2)
   \<and> adjacent_mods 1 garage0 (mods garage0 ! 0) (mods garage0 ! 1)
   \<and> no_third_mod_tie 1 garage0 (mods garage0 ! 0) (mods garage0 ! 1)
   \<and> reorder_vehicle_swap 20 (Some 7) (Some 3) (Some ''up'') garage0
        = Inr (''moved'', garage0\<lparr>vehicles :=
            map (swap_vehicle_sort_order 20 (vehicles garage0 ! 2) (vehicles garage0 ! 1))
              (vehicles garage0)\<rparr>)
   \<and> (\<exists>outcome d2 n2 x2.
         reorder_vehicle_swap 30 (Some 7) (Some 3) (Some ''down'')
             (garage0\<lparr>vehicles :=
                map (swap_vehicle_sort_order 20 (vehicles garage0 ! 2) (vehicles garage0 ! 1))
                  (vehicles garage0)\<rparr>)
           = Inr (outcome, d2)
       \<and> vehicle_row d2 2 = Some n2 \<and> vehicle_row d2 3 = Some x2
       \<and> vehicle_order_key n2 < vehicle_order_key x2)
   \<and> reorder_mod_swap 20 (Some 7) (Some 1) (Some 12) (Some ''up'') garage0
        = Inr (''moved'', garage0\<lparr>mods :=
            map (swap_mod_sort_order 20 (mods garage0 ! 1) (mods garage0 ! 0)) (mods garage0)\<rparr>)
   \<and> (\<exists>outcome d2 n2 x2.
         reorder_mod_swap 30 (Some 7) (Some 1) (Some 12) (Some ''down'')
             (garage0\<lparr>mods :=
                map (swap_mod_sort_order 20 (mods garage0 ! 1) (mods garage0 ! 0)) (mods garage0)\<rparr>)
           = Inr (outcome, d2)
       \<and> mod_row_of d2 11 = Some n2 \<and> mod_row_of d2 12 = Some x2
       \<and> mod_order_key n2 < mod_order_key x2)"
proof -
  have c: "db_constraints garage0"
    by (simp add: db_constraints_def primary_keys_def foreign_keys_def garage0_def
        images_exactly_one_parent_def)
  have v: "adjacent_vehicles 7 garage0 (vehicles garage0 ! 1) (vehicles garage0 ! 2)"
      "no_third_vehicle_tie 7 garage0 (vehicles garage0 ! 1) (vehicles garage0 ! 2)"
    by (simp_all add: adjacent_vehicles_def no_third_vehicle_tie_def vehicle_siblings_def
        garage0_def vehicle_order_key_def less_eq_prod_def less_prod_def)
  have m: "adjacent_mods 1 garage0 (mods garage0 ! 0) (mods garage0 ! 1)"
      "no_third_mod_tie 1 garage0 (mods garage0 ! 0) (mods garage0 ! 1)"
    by (simp_all add: adjacent_mods_def no_third_mod_tie_def mod_siblings_def
        garage0_def mod_order_key_def less_eq_prod_def less_prod_def)
  have own: "\<exists>v \<in> set (vehicles garage0). v_id v = 1 \<and> v_profile_id v = 7"
    by (simp add: garage0_def)
  have ids: "v_id (vehicles garage0 ! 1) = 2" "v_id (vehicles garage0 ! 2) = 3"
      "m_id (mods garage0 ! 0) = 11" "m_id (mods garage0 ! 1) = 12"
    by (simp_all add: garage0_def)
  from reorder_round_trip_distinct[OF c,
      of 7 "vehicles garage0 ! 1" "vehicles garage0 ! 2" 20 30 1 "mods garage0 ! 0" "mods garage0 ! 1"]
    v m own c
  show ?thesis unfolding ids by blast
qed

text \<open>
  Without the condition on ties the round trip fails. In \<open>garage0\<close> vehicle 3 is
  just before vehicle 1, and vehicle 2 shares \<open>sort_order = 0\<close> with vehicle 3.
  Moving vehicle 1 up swaps it with vehicle 3 and puts it first; moving it down then
  swaps it with vehicle 2, a swap of equal values; vehicle 1 stays before vehicle 3.
\<close>

theorem reorder_round_trip_counterexample:
  "reorder_vehicle_swap 20 (Some 7) (Some 1) (Some ''up'') garage0 = Inr (''moved'', garage1)
   \<and> reorder_vehicle_swap 30 (Some 7) (Some 1) (Some ''down'') garage1 = Inr (''moved'', garage2)
   \<and> map v_id (vehicle_siblings 7 garage0) = [2, 3, 1]
   \<and> map v_id (vehicle_siblings 7 garage1) = [1, 2, 3]
   \<and> map v_id (vehicle_siblings 7 garage2) = [1, 2, 3]"
proof -
  have f0: "for_update_vehicles (Some 7) garage0 = vehicles garage0"
    by (simp add: for_update_vehicles_eq garage0_def)
  have f1: "for_update_vehicles (Some 7) garage1 = vehicles garage1"
    by (simp add: for_update_vehicles_eq garage1_def)
  have a: "reorder_vehicle_swap 20 (Some 7) (Some 1) (Some ''up'') garage0 = Inr (''moved'', garage1)"
    unfolding reorder_vehicle_swap_def f0
    by (simp add: garage0_def garage1_def select_into_def limit_1_def order_by_desc_def
        vehicle_before_def vehicle_order_key_def less_eq_prod_def less_prod_def)
  have b: "reorder_vehicle_swap 30 (Some 7) (Some 1) (Some ''down'') garage1 = Inr (''moved'', garage2)"
    unfolding reorder_vehicle_swap_def f1
    by (simp add: garage1_def garage2_def select_into_def limit_1_def order_by_asc_def
        vehicle_after_def vehicle_order_key_def less_eq_prod_def less_prod_def)
  have c: "map v_id (vehicle_siblings 7 garage0) = [2, 3, 1]"
      "map v_id (vehicle_siblings 7 garage1) = [1, 2, 3]"
      "map v_id (vehicle_siblings 7 garage2) = [1, 2, 3]"
    by (simp_all add: vehicle_siblings_def garage0_def garage1_def garage2_def
        vehicle_order_key_def less_eq_prod_def less_prod_def)
  from a b c show ?thesis by simp
qed

section \<open>Properties of row-level security\<close>

subsection \<open>Public reads\<close>





















subsection \<open>Storage object paths\<close>

lemma hex_digit_in: "hex_digit n \<in> set ''0123456789abcdef''"
proof -
  have "n mod 16 < length ''0123456789abcdef''" by simp
  then show ?thesis unfolding hex_digit_def by (rule nth_mem)
qed

lemma uuid_hex_chars: "set (uuid_hex u) \<subseteq> set ''0123456789abcdef''"
  unfolding uuid_hex_def set_map by (rule image_subsetI) (rule hex_digit_in)

lemma uuid_text_notin:
  assumes "c \<notin> set ''0123456789abcdef''" "c \<noteq> CHR ''-''"
  shows "c \<notin> set (uuid_text u)"
proof -
  from assms(1) uuid_hex_chars[of u] have h: "c \<notin> set (uuid_hex u)" by blast
  then have t: "c \<notin> set (take n (uuid_hex u))" "c \<notin> set (drop k (uuid_hex u))"
      "c \<notin> set (take n (drop k (uuid_hex u)))" for n k
    by (blast dest: in_set_takeD in_set_dropD)+
  show ?thesis
    unfolding uuid_text_def Let_def using t assms(2) by simp
qed

lemma uuid_text_no_slash: "CHR ''/'' \<notin> set (uuid_text u)"
  by (rule uuid_text_notin) simp_all

lemma uuid_text_no_dot: "CHR ''.'' \<notin> set (uuid_text u)"
  by (rule uuid_text_notin) simp_all

lemma split_on_not_Nil: "split_on c s \<noteq> []"
  by (induction s) (auto split: list.splits)

lemma split_on_Cons:
  "split_on c s = p # ps \<Longrightarrow>
     c \<notin> set p \<and> ((ps = [] \<and> s = p) \<or> (\<exists>rest. s = p @ c # rest \<and> split_on c rest = ps))"
proof (induction s arbitrary: p ps)
  case Nil
  then show ?case by simp
next
  case (Cons x xs)
  show ?case
  proof (cases "x = c")
    case True
    with Cons.prems show ?thesis by auto
  next
    case False
    obtain q qs where q: "split_on c xs = q # qs"
      using split_on_not_Nil[of c xs] by (cases "split_on c xs") auto
    from Cons.prems False q have p: "p = x # q" "ps = qs" by auto
    from Cons.IH[OF q] False p show ?thesis by auto
  qed
qed

lemma split_on_three:
  assumes "split_on c s = [p1, p2, f]"
  shows "s = p1 @ c # p2 @ c # f \<and> c \<notin> set p1 \<and> c \<notin> set p2 \<and> c \<notin> set f"
proof -
  from split_on_Cons[OF assms] obtain r1 where
    r1: "c \<notin> set p1" "s = p1 @ c # r1" "split_on c r1 = [p2, f]" by auto
  from split_on_Cons[OF r1(3)] obtain r2 where
    r2: "c \<notin> set p2" "r1 = p2 @ c # r2" "split_on c r2 = [f]" by auto
  from split_on_Cons[OF r2(3)] have r3: "c \<notin> set f" "r2 = f"
    using split_on_not_Nil[of c] by auto
  from r1 r2 r3 show ?thesis by simp
qed

lemma butlast_two:
  assumes "array_length (butlast xs) = Some 2"
  shows "\<exists>a b c. xs = [a, b, c]"
proof -
  from assms have "length (butlast xs) = 2"
    by (simp add: array_length_def split: if_splits)
  then have "length xs = 3" by simp
  then show ?thesis
    by (auto simp: length_Suc_conv numeral_3_eq_3)
qed

text \<open>What an accepted name looks like: three fields, the last one not empty.\<close>

lemma can_write_fields:
  assumes "mygarage_object_owner_can_write auth_uid d (Some name) (Some r)"
  shows "\<exists>p1 p2 f. name = p1 @ CHR ''/'' # p2 @ CHR ''/'' # f
           \<and> CHR ''/'' \<notin> set p1 \<and> CHR ''/'' \<notin> set p2 \<and> CHR ''/'' \<notin> set f \<and> f \<noteq> []
           \<and> ((p1 = ''avatars'' \<and> p2 = uuid_text r)
              \<or> (p1 = ''vehicles''
                 \<and> (\<exists>v \<in> set (select_vehicles auth_uid d).
                       uuid_text (v_id v) = p2 \<and> v_profile_id v = r))
              \<or> (p1 = ''mods''
                 \<and> (\<exists>m \<in> set (select_mods auth_uid d).
                     \<exists>v \<in> set (select_vehicles auth_uid d).
                       v_id v = m_vehicle_id m \<and> uuid_text (m_id m) = p2
                       \<and> v_profile_id v = r)))"
proof -
  let ?xs = "string_to_array name"
  from assms have len: "array_length (butlast ?xs) = Some 2"
    and fn: "nullif (storage_filename name) '''' \<noteq> None"
    by (simp_all add: mygarage_object_owner_can_write_def Let_def storage_foldername_def)
  from butlast_two[OF len] obtain p1 p2 f where xs: "?xs = [p1, p2, f]" by blast
  then have sp: "split_on CHR ''/'' name = [p1, p2, f]"
    by (simp add: string_to_array_def split: if_splits)
  from fn xs have f: "f \<noteq> []"
    by (simp add: nullif_def storage_filename_def split: if_splits)
  from assms xs have own:
    "(p1 = ''avatars'' \<and> p2 = uuid_text r)
     \<or> (p1 = ''vehicles''
        \<and> (\<exists>v \<in> set (select_vehicles auth_uid d).
              uuid_text (v_id v) = p2 \<and> v_profile_id v = r))
     \<or> (p1 = ''mods''
        \<and> (\<exists>m \<in> set (select_mods auth_uid d).
            \<exists>v \<in> set (select_vehicles auth_uid d).
              v_id v = m_vehicle_id m \<and> uuid_text (m_id m) = p2
              \<and> v_profile_id v = r))"
    by (simp add: mygarage_object_owner_can_write_def Let_def storage_foldername_def)
  from split_on_three[OF sp] f own show ?thesis by blast
qed

lemma sublist_two_skip:
  assumes "sublist [x, c] (a @ c # b)" "x \<notin> set a" "x \<noteq> c"
  shows "sublist [x, c] b"
  using assms
proof (induction a)
  case Nil
  then show ?case by (simp add: sublist_Cons_right)
next
  case (Cons y a)
  then show ?case by (simp add: sublist_Cons_right)
qed

lemma sublist_two_mem: "sublist [x, c] b \<Longrightarrow> c \<in> set b"
  by (auto simp: sublist_def)

lemma sublist_dotdot_slash: "sublist ''../'' s \<Longrightarrow> sublist ''./'' s"
proof -
  assume "sublist ''../'' s"
  then obtain ps ss where "s = ps @ ''../'' @ ss" by (auto simp: sublist_def)
  then have "s = (ps @ ''.'') @ ''./'' @ ss" by simp
  then show ?thesis unfolding sublist_def by blast
qed

lemma select_vehicles_subset: "set (select_vehicles auth_uid d) \<subseteq> set (vehicles d)"
  by (simp add: select_vehicles_def)

lemma select_mods_subset: "set (select_mods auth_uid d) \<subseteq> set (mods d)"
  by (simp add: select_mods_def)

lemma can_write_no_dot_slash:
  assumes "mygarage_object_owner_can_write auth_uid d (Some name) (Some r)"
  shows "\<not> sublist ''./'' name"
proof
  assume s: "sublist ''./'' name"
  from can_write_fields[OF assms] obtain p1 p2 f where
    n: "name = p1 @ CHR ''/'' # p2 @ CHR ''/'' # f"
    and f: "CHR ''/'' \<notin> set f"
    and p1: "p1 = ''avatars'' \<or> p1 = ''vehicles'' \<or> p1 = ''mods''"
    and p2: "\<exists>u. p2 = uuid_text u" by blast
  from p1 have d1: "CHR ''.'' \<notin> set p1" by auto
  from p2 have d2: "CHR ''.'' \<notin> set p2" using uuid_text_no_dot by auto
  from s n have "sublist ''./'' (p1 @ CHR ''/'' # (p2 @ CHR ''/'' # f))" by simp
  from sublist_two_skip[OF this d1] have "sublist ''./'' (p2 @ CHR ''/'' # f)" by simp
  from sublist_two_skip[OF this d2] have "sublist ''./'' f" by simp
  from sublist_two_mem[OF this] f show False by simp
qed

text \<open>
  Claim C5. \<open>mygarage_object_owner_can_write\<close> returns true only for a name
  \<open>avatars/{requester}/f\<close>, a name \<open>vehicles/{id}/f\<close> where the vehicle \<open>id\<close> belongs to
  the requester, or a name \<open>mods/{id}/f\<close> where the vehicle of the mod \<open>id\<close> belongs to
  the requester (\<open>f\<close> a non-empty field without a slash); and it returns false for
  every name that contains \<open>../\<close> or \<open>//\<close> or has a field \<open>..\<close>, whoever the requester
  and the calling role are and whatever the tables hold.
\<close>

theorem object_owner_can_write_paths:
  "(mygarage_object_owner_can_write auth_uid d object_name requester \<longrightarrow>
      (\<exists>path uid f. object_name = Some path \<and> requester = Some uid
         \<and> f \<noteq> [] \<and> CHR ''/'' \<notin> set f
         \<and> (path = ''avatars/'' @ uuid_text uid @ ''/'' @ f
            \<or> (\<exists>v \<in> set (vehicles d). v_profile_id v = uid
                  \<and> path = ''vehicles/'' @ uuid_text (v_id v) @ ''/'' @ f)
            \<or> (\<exists>m \<in> set (mods d). \<exists>v \<in> set (vehicles d).
                  v_id v = m_vehicle_id m \<and> v_profile_id v = uid
                  \<and> path = ''mods/'' @ uuid_text (m_id m) @ ''/'' @ f))))
   \<and> (sublist ''../'' name \<or> sublist ''//'' name \<or> regex_dotdot_segment name \<longrightarrow>
        \<not> mygarage_object_owner_can_write auth_uid' d' (Some name) requester')"
proof (intro conjI impI)
  assume a: "mygarage_object_owner_can_write auth_uid d object_name requester"
  then obtain path uid where o: "object_name = Some path" "requester = Some uid"
    by (auto simp: mygarage_object_owner_can_write_def split: option.splits)
  from can_write_fields[OF a[unfolded o]] obtain p1 p2 f where
    n: "path = p1 @ CHR ''/'' # p2 @ CHR ''/'' # f"
    and f: "CHR ''/'' \<notin> set f" "f \<noteq> []"
    and own: "(p1 = ''avatars'' \<and> p2 = uuid_text uid)
       \<or> (p1 = ''vehicles''
          \<and> (\<exists>v \<in> set (select_vehicles auth_uid d).
                uuid_text (v_id v) = p2 \<and> v_profile_id v = uid))
       \<or> (p1 = ''mods''
          \<and> (\<exists>m \<in> set (select_mods auth_uid d).
              \<exists>v \<in> set (select_vehicles auth_uid d).
                v_id v = m_vehicle_id m \<and> uuid_text (m_id m) = p2
                \<and> v_profile_id v = uid))" by blast
  from own select_vehicles_subset[of auth_uid d] select_mods_subset[of auth_uid d]
  have "path = ''avatars/'' @ uuid_text uid @ ''/'' @ f
      \<or> (\<exists>v \<in> set (vehicles d). v_profile_id v = uid
            \<and> path = ''vehicles/'' @ uuid_text (v_id v) @ ''/'' @ f)
      \<or> (\<exists>m \<in> set (mods d). \<exists>v \<in> set (vehicles d).
            v_id v = m_vehicle_id m \<and> v_profile_id v = uid
            \<and> path = ''mods/'' @ uuid_text (m_id m) @ ''/'' @ f)"
    unfolding n by (elim disjE conjE bexE) (simp, (rule disjI2, auto)[1], (rule disjI2, auto)[1])
  with o f show "\<exists>path uid f. object_name = Some path \<and> requester = Some uid
         \<and> f \<noteq> [] \<and> CHR ''/'' \<notin> set f
         \<and> (path = ''avatars/'' @ uuid_text uid @ ''/'' @ f
            \<or> (\<exists>v \<in> set (vehicles d). v_profile_id v = uid
                  \<and> path = ''vehicles/'' @ uuid_text (v_id v) @ ''/'' @ f)
            \<or> (\<exists>m \<in> set (mods d). \<exists>v \<in> set (vehicles d).
                  v_id v = m_vehicle_id m \<and> v_profile_id v = uid
                  \<and> path = ''mods/'' @ uuid_text (m_id m) @ ''/'' @ f))" by blast
next
  assume t: "sublist ''../'' name \<or> sublist ''//'' name \<or> regex_dotdot_segment name"
  show "\<not> mygarage_object_owner_can_write auth_uid' d' (Some name) requester'"
  proof
    assume a: "mygarage_object_owner_can_write auth_uid' d' (Some name) requester'"
    then obtain r where r: "requester' = Some r"
      by (auto simp: mygarage_object_owner_can_write_def split: option.splits)
    from a r have "\<not> regex_dotdot_segment name" "\<not> sublist ''//'' name"
      by (simp_all add: mygarage_object_owner_can_write_def Let_def regex_double_slash_def)
    moreover from can_write_no_dot_slash[OF a[unfolded r]] sublist_dotdot_slash[of name]
    have "\<not> sublist ''../'' name" by blast
    ultimately show False using t by blast
  qed
qed

theorem object_owner_can_write_paths_witness:
  "mygarage_object_owner_can_write (Some 7) garage0
       (Some ''vehicles/00000000-0000-0000-0000-000000000001/a.png'') (Some 7)
   \<and> (\<exists>path uid f.
         Some ''vehicles/00000000-0000-0000-0000-000000000001/a.png'' = Some path
         \<and> Some (7 :: uuid) = Some uid \<and> f \<noteq> [] \<and> CHR ''/'' \<notin> set f
         \<and> (path = ''avatars/'' @ uuid_text uid @ ''/'' @ f
            \<or> (\<exists>v \<in> set (vehicles garage0). v_profile_id v = uid
                  \<and> path = ''vehicles/'' @ uuid_text (v_id v) @ ''/'' @ f)
            \<or> (\<exists>m \<in> set (mods garage0). \<exists>v \<in> set (vehicles garage0).
                  v_id v = m_vehicle_id m \<and> v_profile_id v = uid
                  \<and> path = ''mods/'' @ uuid_text (m_id m) @ ''/'' @ f)))
   \<and> sublist ''../'' ''vehicles/00000000-0000-0000-0000-000000000001/../a.png''
   \<and> \<not> mygarage_object_owner_can_write (Some 7) garage0
         (Some ''vehicles/00000000-0000-0000-0000-000000000001/../a.png'') (Some 7)"
proof -
  have h1: "mygarage_object_owner_can_write (Some 7) garage0
       (Some ''vehicles/00000000-0000-0000-0000-000000000001/a.png'') (Some 7)"
    by code_simp
  have h2: "sublist ''../'' ''vehicles/00000000-0000-0000-0000-000000000001/../a.png''"
    by code_simp
  from object_owner_can_write_paths[of "Some 7" garage0
      "Some ''vehicles/00000000-0000-0000-0000-000000000001/a.png''" "Some 7"
      "''vehicles/00000000-0000-0000-0000-000000000001/../a.png''" "Some 7" garage0 "Some 7"]
    h1 h2
  show ?thesis by blast
qed

subsection \<open>Ownership of images\<close>

lemma find_pkey_iff:
  assumes "distinct (map f xs)"
  shows "find (\<lambda>x. f x = k) xs = Some y \<longleftrightarrow> y \<in> set xs \<and> f y = k"
proof
  assume "find (\<lambda>x. f x = k) xs = Some y"
  then show "y \<in> set xs \<and> f y = k" by (auto simp: find_Some_iff)
next
  assume "y \<in> set xs \<and> f y = k"
  with find_pkey[OF assms, of y] show "find (\<lambda>x. f x = k) xs = Some y" by auto
qed

lemma vehicle_root_owner_iff:
  assumes "distinct (map v_id (vehicles d))"
  shows "vehicle_root_owner d vid = Some u \<longleftrightarrow> vehicle_owned_by d vid u"
proof
  assume "vehicle_root_owner d vid = Some u"
  then obtain v where "find (\<lambda>v. v_id v = vid) (vehicles d) = Some v" "v_profile_id v = u"
    by (auto simp: vehicle_root_owner_def)
  with find_pkey_iff[OF assms, of vid v] show "vehicle_owned_by d vid u"
    by (auto simp: vehicle_owned_by_def)
next
  assume "vehicle_owned_by d vid u"
  then obtain v where "v \<in> set (vehicles d)" "v_id v = vid" "v_profile_id v = u"
    by (auto simp: vehicle_owned_by_def)
  with find_pkey_iff[OF assms, of vid v] show "vehicle_root_owner d vid = Some u"
    by (simp add: vehicle_root_owner_def)
qed

lemma mod_root_owner_iff:
  assumes "primary_keys d"
  shows "mod_root_owner d mid = Some u \<longleftrightarrow> mod_owned_by d mid u"
proof
  from assms have pk: "distinct (map v_id (vehicles d))" "distinct (map m_id (mods d))"
    by (simp_all add: primary_keys_def)
  {
    assume "mod_root_owner d mid = Some u"
    then obtain m where "find (\<lambda>m. m_id m = mid) (mods d) = Some m"
        "vehicle_root_owner d (m_vehicle_id m) = Some u"
      by (auto simp: mod_root_owner_def split: option.splits)
    with find_pkey_iff[OF pk(2), of mid m] vehicle_root_owner_iff[OF pk(1)]
    show "mod_owned_by d mid u" by (auto simp: mod_owned_by_def)
  }
  {
    assume "mod_owned_by d mid u"
    then obtain m where "m \<in> set (mods d)" "m_id m = mid"
        "vehicle_owned_by d (m_vehicle_id m) u"
      by (auto simp: mod_owned_by_def)
    with find_pkey_iff[OF pk(2), of mid m] vehicle_root_owner_iff[OF pk(1)]
    show "mod_root_owner d mid = Some u" by (simp add: mod_root_owner_def)
  }
qed

lemma image_parent_owner_iff:
  assumes "primary_keys d"
  shows "image_parent_owner d i = Some u \<longleftrightarrow> parent_owned_by d i u"
proof -
  from assms have pk: "distinct (map v_id (vehicles d))" by (simp add: primary_keys_def)
  show ?thesis
    unfolding image_parent_owner_def parent_owned_by_def
    using mod_root_owner_iff[OF assms] vehicle_root_owner_iff[OF pk]
    by (simp split: option.splits)
qed

lemma image_ownership_iff:
  assumes "primary_keys d"
  shows "image_ownership d \<longleftrightarrow> (\<forall>i \<in> set (images d). parent_owned_by d i (i_profile_id i))"
  unfolding image_ownership_def list_all_iff using image_parent_owner_iff[OF assms] by simp

lemma parent_owned_by_mono:
  assumes "parent_owned_by d i u"
    and "\<And>vid. i_vehicle_id i = Some vid \<Longrightarrow> vehicle_owned_by d vid u \<Longrightarrow> vehicle_owned_by d' vid u"
    and "\<And>mid. i_mod_id i = Some mid \<Longrightarrow> mod_owned_by d mid u \<Longrightarrow> mod_owned_by d' mid u"
  shows "parent_owned_by d' i u"
  using assms unfolding parent_owned_by_def by (auto split: option.splits)

lemma parent_owned_by_cong:
  assumes "vehicles d' = vehicles d" "mods d' = mods d"
  shows "parent_owned_by d' i u = parent_owned_by d i u"
  by (simp add: parent_owned_by_def mod_owned_by_def vehicle_owned_by_def assms
      cong: option.case_cong)

lemma image_ownership_cong:
  assumes "vehicles d' = vehicles d" "mods d' = mods d" "images d' = images d"
  shows "image_ownership d' = image_ownership d"
  by (simp add: image_ownership_def image_parent_owner_def mod_root_owner_def
      vehicle_root_owner_def assms cong: option.case_cong)

text \<open>What the owner predicates say for an authenticated caller.\<close>

lemma profiles_owner_iff: "profiles_owner auth_uid p \<longleftrightarrow> auth_uid = Some (p_id p)"
  by (simp add: profiles_owner_def)

lemma for_update_profiles_iff:
  "p \<in> set (for_update_profiles auth_uid d) \<longleftrightarrow> p \<in> set (profiles d) \<and> auth_uid = Some (p_id p)"
  by (auto simp: for_update_profiles_def select_profiles_def profiles_owner_def)

lemma vehicles_owner_SomeD:
  "vehicles_owner auth_uid d v \<Longrightarrow> auth_uid = Some (v_profile_id v)"
  by (auto simp: vehicles_owner_def)

lemma for_update_vehicles_SomeD:
  "v \<in> set (for_update_vehicles auth_uid d) \<Longrightarrow> v \<in> set (vehicles d) \<and> auth_uid = Some (v_profile_id v)"
  by (auto simp: for_update_vehicles_def select_vehicles_def dest: vehicles_owner_SomeD)

lemma mods_owner_SomeD:
  "mods_owner auth_uid d m \<Longrightarrow> \<exists>u. auth_uid = Some u \<and> vehicle_owned_by d (m_vehicle_id m) u"
  by (auto simp: mods_owner_def select_vehicles_def vehicle_owned_by_def)

lemma for_update_mods_SomeD:
  "m \<in> set (for_update_mods auth_uid d) \<Longrightarrow>
     m \<in> set (mods d) \<and> (\<exists>u. auth_uid = Some u \<and> vehicle_owned_by d (m_vehicle_id m) u)"
  by (auto simp: for_update_mods_def select_mods_def dest: mods_owner_SomeD)

lemma images_owner_SomeD:
  assumes "images_owner auth_uid d i" "images_exactly_one_parent i"
  shows "auth_uid = Some (i_profile_id i) \<and> parent_owned_by d i (i_profile_id i)"
proof -
  from assms(1) have u: "auth_uid = Some (i_profile_id i)" by (auto simp: images_owner_def)
  from assms(1) have
    "(i_vehicle_id i \<noteq> None
        \<and> (\<exists>v \<in> set (vehicles d). Some (v_id v) = i_vehicle_id i \<and> v_profile_id v = i_profile_id i))
     \<or> (i_mod_id i \<noteq> None
        \<and> (\<exists>m \<in> set (mods d). \<exists>v \<in> set (vehicles d).
              v_id v = m_vehicle_id m \<and> Some (m_id m) = i_mod_id i
              \<and> v_profile_id v = i_profile_id i))"
    unfolding images_owner_def u select_vehicles_def select_mods_def by auto
  with assms(2) have "parent_owned_by d i (i_profile_id i)"
    unfolding parent_owned_by_def mod_owned_by_def vehicle_owned_by_def
      images_exactly_one_parent_def
    by (auto split: option.splits)
  with u show ?thesis by simp
qed

lemma find_SomeD: "find P xs = Some x \<Longrightarrow> x \<in> set xs \<and> P x"
  by (auto simp: find_Some_iff)

text \<open>Statements on \<open>profiles\<close>.\<close>

lemma distinct_map_replace:
  assumes "distinct (map f xs)" "f new = k"
  shows "map f (map (\<lambda>x. if f x = k then new else x) xs) = map f xs"
  using assms by (induction xs) auto

lemma insert_profile_inv:
  assumes c: "db_constraints d" and o: "image_ownership d"
    and r: "insert_profile auth_uid p d = Inr d'"
  shows "db_constraints d' \<and> image_ownership d'"
proof -
  from r have d': "d' = d\<lparr>profiles := profiles d @ [p]\<rparr>" and fresh: "p_id p \<notin> p_id ` set (profiles d)"
    by (auto simp: insert_profile_def split: if_splits)
  from c fresh have c': "db_constraints d'"
    unfolding d' db_constraints_def primary_keys_def foreign_keys_def list_all_iff
    by (auto split: option.splits)
  moreover from o have "image_ownership d'"
    using image_ownership_cong[of d' d] by (simp add: d')
  ultimately show ?thesis by simp
qed

lemma sign_up_inv:
  assumes c: "db_constraints d" and o: "image_ownership d"
    and r: "exec_dml now_utc auth_uid (SignUp p) d = Inr d'"
  shows "db_constraints d' \<and> image_ownership d'"
proof (cases "p_id p \<in> p_id ` set (profiles d)")
  case True
  with r c o show ?thesis by simp
next
  case False
  with r have d': "d' = d\<lparr>profiles := profiles d @ [p]\<rparr>" by simp
  from c False have c': "db_constraints d'"
    unfolding d' db_constraints_def primary_keys_def foreign_keys_def list_all_iff
    by (auto split: option.splits)
  moreover from o have "image_ownership d'"
    using image_ownership_cong[of d' d] by (simp add: d')
  ultimately show ?thesis by simp
qed

lemma update_profile_inv:
  assumes c: "db_constraints d" and o: "image_ownership d"
    and r: "update_profile auth_uid pid new d = Inr d'"
  shows "db_constraints d' \<and> image_ownership d'"
proof (cases "find (\<lambda>p. p_id p = pid) (for_update_profiles auth_uid d)")
  case None
  with r c o show ?thesis by (simp add: update_profile_def)
next
  case (Some old)
  from find_SomeD[OF Some] have old: "old \<in> set (profiles d)" "auth_uid = Some pid"
    by (auto simp: for_update_profiles_iff)
  from r Some have new: "profiles_owner auth_uid new"
    and d': "d' = d\<lparr>profiles := map (\<lambda>p. if p_id p = pid then new else p) (profiles d)\<rparr>"
    by (auto simp: update_profile_def split: if_splits)
  from new old have id: "p_id new = pid" by (simp add: profiles_owner_iff)
  from c have pk: "distinct (map p_id (profiles d))"
    by (simp add: db_constraints_def primary_keys_def)
  have ids: "map p_id (profiles d') = map p_id (profiles d)"
    unfolding d' using distinct_map_replace[OF pk id] by simp
  then have ids': "p_id ` set (profiles d') = p_id ` set (profiles d)"
    by (metis list.set_map)
  have rest: "vehicles d' = vehicles d" "mods d' = mods d" "images d' = images d"
    by (simp_all add: d')
  from c have c': "db_constraints d'"
    unfolding db_constraints_def primary_keys_def foreign_keys_def ids ids' rest .
  moreover from o have "image_ownership d'"
    using image_ownership_cong[of d' d] by (simp add: d')
  ultimately show ?thesis by simp
qed

lemma case_option_all: "(case x of None \<Rightarrow> True | Some v \<Rightarrow> P v) = (\<forall>v. x = Some v \<longrightarrow> P v)"
  by (cases x) simp_all

lemma foreign_keys_iff:
  "foreign_keys d \<longleftrightarrow>
     (\<forall>v \<in> set (vehicles d). v_profile_id v \<in> p_id ` set (profiles d))
     \<and> (\<forall>m \<in> set (mods d). m_vehicle_id m \<in> v_id ` set (vehicles d))
     \<and> (\<forall>i \<in> set (images d). i_profile_id i \<in> p_id ` set (profiles d)
            \<and> (\<forall>v. i_vehicle_id i = Some v \<longrightarrow> v \<in> v_id ` set (vehicles d))
            \<and> (\<forall>m. i_mod_id i = Some m \<longrightarrow> m \<in> m_id ` set (mods d)))"
  unfolding foreign_keys_def list_all_iff case_option_all ..

text \<open>Cascading deletes.\<close>

lemma cascade_delete_vehicles_inv:
  assumes c: "db_constraints d" and o: "image_ownership d"
  shows "db_constraints (cascade_delete_vehicles vids d)
       \<and> image_ownership (cascade_delete_vehicles vids d)"
proof -
  let ?d = "cascade_delete_vehicles vids d"
  let ?mids = "map m_id (filter (\<lambda>m. m_vehicle_id m \<in> set vids) (mods d))"
  have tabs: "profiles ?d = profiles d"
      "vehicles ?d = filter (\<lambda>v. v_id v \<notin> set vids) (vehicles d)"
      "mods ?d = filter (\<lambda>m. m_vehicle_id m \<notin> set vids) (mods d)"
      "images ?d = filter (\<lambda>i. (case i_vehicle_id i of None \<Rightarrow> True | Some v \<Rightarrow> v \<notin> set vids)
                               \<and> (case i_mod_id i of None \<Rightarrow> True | Some m \<Rightarrow> m \<notin> set ?mids))
                     (images d)"
    by (simp_all add: cascade_delete_vehicles_def Let_def)
  from c have pk: "primary_keys d" and fk: "foreign_keys d"
    and ck: "list_all images_exactly_one_parent (images d)"
    by (simp_all add: db_constraints_def)
  have pk': "primary_keys ?d"
    using pk unfolding primary_keys_def tabs by (simp add: distinct_map_filter)
  have keepv: "vehicle_owned_by ?d vid u" if "vehicle_owned_by d vid u" "vid \<notin> set vids" for vid u
    using that unfolding vehicle_owned_by_def tabs by auto
  have keepm: "mod_owned_by ?d mid u" if m: "mod_owned_by d mid u" "mid \<notin> set ?mids" for mid u
  proof -
    from m(1) obtain mm where mm: "mm \<in> set (mods d)" "m_id mm = mid"
        "vehicle_owned_by d (m_vehicle_id mm) u"
      by (auto simp: mod_owned_by_def)
    from mm(1,2) m(2) have nv: "m_vehicle_id mm \<notin> set vids" by auto
    from keepv[OF mm(3) nv] mm(1,2) nv show ?thesis
      unfolding mod_owned_by_def tabs by auto
  qed
  have fkv: "\<forall>v \<in> set (vehicles ?d). v_profile_id v \<in> p_id ` set (profiles ?d)"
    using fk unfolding foreign_keys_iff tabs by simp
  have fkm: "\<forall>m \<in> set (mods ?d). m_vehicle_id m \<in> v_id ` set (vehicles ?d)"
    using fk unfolding foreign_keys_iff tabs by auto
  have fki: "i_profile_id i \<in> p_id ` set (profiles ?d)
        \<and> (\<forall>v. i_vehicle_id i = Some v \<longrightarrow> v \<in> v_id ` set (vehicles ?d))
        \<and> (\<forall>m. i_mod_id i = Some m \<longrightarrow> m \<in> m_id ` set (mods ?d))"
    if i: "i \<in> set (images ?d)" for i
  proof -
    from i have i0: "i \<in> set (images d)" unfolding tabs by simp
    with fk have f0: "i_profile_id i \<in> p_id ` set (profiles d)"
        "\<And>v. i_vehicle_id i = Some v \<Longrightarrow> v \<in> v_id ` set (vehicles d)"
        "\<And>m. i_mod_id i = Some m \<Longrightarrow> m \<in> m_id ` set (mods d)"
      unfolding foreign_keys_iff by blast+
    have v: "v \<in> v_id ` set (vehicles ?d)" if "i_vehicle_id i = Some v" for v
      using f0(2)[OF that] i that unfolding tabs by auto
    have m: "m \<in> m_id ` set (mods ?d)" if "i_mod_id i = Some m" for m
    proof -
      from f0(3)[OF that] obtain mm where mm: "mm \<in> set (mods d)" "m_id mm = m" by auto
      from i that have "m \<notin> set ?mids" unfolding tabs by simp
      with mm have "m_vehicle_id mm \<notin> set vids" by auto
      with mm show ?thesis unfolding tabs by auto
    qed
    from f0(1) v m show ?thesis by (simp add: tabs(1))
  qed
  have c': "db_constraints ?d"
    unfolding db_constraints_def foreign_keys_iff
    using pk' fkv fkm fki ck by (simp add: list_all_iff tabs(4))
  have "parent_owned_by ?d i (i_profile_id i)" if i: "i \<in> set (images ?d)" for i
  proof -
    from i have i0: "i \<in> set (images d)" unfolding tabs by simp
    with o pk have p: "parent_owned_by d i (i_profile_id i)"
      by (simp add: image_ownership_iff)
    show ?thesis
    proof (rule parent_owned_by_mono[OF p])
      fix vid assume "i_vehicle_id i = Some vid" "vehicle_owned_by d vid (i_profile_id i)"
      with i show "vehicle_owned_by ?d vid (i_profile_id i)"
        by (intro keepv) (simp_all add: tabs)
    next
      fix mid assume "i_mod_id i = Some mid" "mod_owned_by d mid (i_profile_id i)"
      with i show "mod_owned_by ?d mid (i_profile_id i)"
        by (intro keepm) (simp_all add: tabs)
    qed
  qed
  with pk' have "image_ownership ?d" by (simp add: image_ownership_iff)
  with c' show ?thesis by simp
qed

lemma cascade_delete_profile_inv:
  assumes c: "db_constraints d" and o: "image_ownership d"
  shows "db_constraints (cascade_delete_profile pid d)
       \<and> image_ownership (cascade_delete_profile pid d)"
proof -
  let ?vids = "map v_id (filter (\<lambda>v. v_profile_id v = pid) (vehicles d))"
  let ?d1 = "cascade_delete_vehicles ?vids d"
  let ?d = "cascade_delete_profile pid d"
  from cascade_delete_vehicles_inv[OF c o, of ?vids]
  have c1: "db_constraints ?d1" and o1: "image_ownership ?d1" by simp_all
  have tabs: "profiles ?d = filter (\<lambda>p. p_id p \<noteq> pid) (profiles ?d1)"
      "vehicles ?d = vehicles ?d1" "mods ?d = mods ?d1"
      "images ?d = filter (\<lambda>i. i_profile_id i \<noteq> pid) (images ?d1)"
    by (simp_all add: cascade_delete_profile_def Let_def)
  have v1: "vehicles ?d1 = filter (\<lambda>v. v_id v \<notin> set ?vids) (vehicles d)"
    by (simp add: cascade_delete_vehicles_def Let_def)
  have gone: "v_profile_id v \<noteq> pid" if "v \<in> set (vehicles ?d1)" for v
    using that unfolding v1 by auto
  from c1 have pk1: "primary_keys ?d1" and fk1: "foreign_keys ?d1"
    and ck1: "list_all images_exactly_one_parent (images ?d1)"
    by (simp_all add: db_constraints_def)
  have pk': "primary_keys ?d"
    using pk1 unfolding primary_keys_def tabs by (simp add: distinct_map_filter)
  have keepp: "u \<in> p_id ` set (profiles ?d)" if "u \<in> p_id ` set (profiles ?d1)" "u \<noteq> pid" for u
    using that unfolding tabs by auto
  have fk': "foreign_keys ?d"
    unfolding foreign_keys_iff
  proof (intro conjI ballI)
    fix v assume "v \<in> set (vehicles ?d)"
    then have v: "v \<in> set (vehicles ?d1)" by (simp only: tabs)
    with fk1 have "v_profile_id v \<in> p_id ` set (profiles ?d1)"
      unfolding foreign_keys_iff by blast
    with gone[OF v] show "v_profile_id v \<in> p_id ` set (profiles ?d)" by (intro keepp)
  next
    fix m assume "m \<in> set (mods ?d)"
    with fk1 show "m_vehicle_id m \<in> v_id ` set (vehicles ?d)"
      unfolding foreign_keys_iff tabs by blast
  next
    fix i assume "i \<in> set (images ?d)"
    then have i: "i \<in> set (images ?d1)" "i_profile_id i \<noteq> pid" by (simp_all add: tabs)
    with fk1 have "i_profile_id i \<in> p_id ` set (profiles ?d1)"
      unfolding foreign_keys_iff by blast
    with i(2) show "i_profile_id i \<in> p_id ` set (profiles ?d)" by (intro keepp)
    from i(1) fk1 show "\<forall>v. i_vehicle_id i = Some v \<longrightarrow> v \<in> v_id ` set (vehicles ?d)"
      unfolding foreign_keys_iff tabs by blast
    from i(1) fk1 show "\<forall>m. i_mod_id i = Some m \<longrightarrow> m \<in> m_id ` set (mods ?d)"
      unfolding foreign_keys_iff tabs by blast
  qed
  have c': "db_constraints ?d"
    unfolding db_constraints_def using pk' fk' ck1 by (simp add: tabs list_all_iff)
  have "parent_owned_by ?d i (i_profile_id i)" if i: "i \<in> set (images ?d)" for i
  proof -
    from i have "i \<in> set (images ?d1)" unfolding tabs by simp
    with o1 pk1 have "parent_owned_by ?d1 i (i_profile_id i)"
      by (simp add: image_ownership_iff)
    then show ?thesis by (simp add: parent_owned_by_cong[of ?d ?d1] tabs)
  qed
  with pk' have "image_ownership ?d" by (simp add: image_ownership_iff)
  with c' show ?thesis by simp
qed

lemma delete_profile_inv:
  assumes c: "db_constraints d" and o: "image_ownership d"
    and r: "delete_profile auth_uid pid d = Inr d'"
  shows "db_constraints d' \<and> image_ownership d'"
  using r c o cascade_delete_profile_inv[OF c o, of pid]
  by (auto simp: delete_profile_def split: option.splits)

lemma delete_vehicle_inv:
  assumes c: "db_constraints d" and o: "image_ownership d"
    and r: "delete_vehicle auth_uid vid d = Inr d'"
  shows "db_constraints d' \<and> image_ownership d'"
  using r c o cascade_delete_vehicles_inv[OF c o, of "[vid]"]
  by (auto simp: delete_vehicle_def split: option.splits)

text \<open>Replacing the row with a given key.\<close>

lemma replace_set:
  "set (map (\<lambda>x. if f x = k then new else x) xs)
     = {x \<in> set xs. f x \<noteq> k} \<union> (if k \<in> f ` set xs then {new} else {})"
  by (induction xs) auto

lemma replace_keys:
  "f ` set (map (\<lambda>x. if f x = k then new else x) xs)
     = (f ` set xs - {k}) \<union> (if k \<in> f ` set xs then {f new} else {})"
  unfolding replace_set by auto

lemma replace_distinct:
  assumes "distinct (map f xs)" "f new = k \<or> f new \<notin> f ` set xs"
  shows "distinct (map f (map (\<lambda>x. if f x = k then new else x) xs))"
  using assms
proof (induction xs)
  case Nil
  then show ?case by simp
next
  case (Cons x xs)
  define g where "g = (\<lambda>x. if f x = k then new else x)"
  from Cons.prems have d: "distinct (map f xs)" "f x \<notin> f ` set xs"
    and n: "f new = k \<or> f new \<notin> f ` set xs" "f new = k \<or> f new \<noteq> f x"
    by auto
  from Cons.IH[OF d(1) n(1)] have ih: "distinct (map f (map g xs))" by (simp only: g_def)
  have keys: "f ` set (map g xs)
     = (f ` set xs - {k}) \<union> (if k \<in> f ` set xs then {f new} else {})"
    unfolding g_def by (rule replace_keys)
  have mem: "f (g x) \<notin> f ` set (map g xs)"
  proof (cases "f x = k")
    case True
    with d(2) have "k \<notin> f ` set xs" by simp
    with True n show ?thesis unfolding keys by (auto simp: g_def)
  next
    case False
    with d(2) n show ?thesis unfolding keys by (auto simp: g_def)
  qed
  have "distinct (map f (map g (x # xs)))
      \<longleftrightarrow> f (g x) \<notin> f ` set (map g xs) \<and> distinct (map f (map g xs))"
    by (simp del: map_map)
  with mem ih show ?case unfolding g_def by blast
qed

lemma vehicle_owned_by_unique:
  assumes "distinct (map v_id (vehicles d))" "vehicle_owned_by d x u" "vehicle_owned_by d x u'"
  shows "u = u'"
  using assms pkey_inj[OF assms(1)] unfolding vehicle_owned_by_def by metis

lemma owned_by_superset:
  assumes "set (vehicles d) \<subseteq> set (vehicles d')" "set (mods d) \<subseteq> set (mods d')"
    and "parent_owned_by d i u"
  shows "parent_owned_by d' i u"
  using assms unfolding parent_owned_by_def mod_owned_by_def vehicle_owned_by_def
  by (auto split: option.splits)

text \<open>Statements on \<open>vehicles\<close>.\<close>

lemma insert_vehicle_inv:
  assumes c: "db_constraints d" and o: "image_ownership d"
    and r: "insert_vehicle auth_uid v d = Inr d'"
  shows "db_constraints d' \<and> image_ownership d'"
proof -
  from r have d': "d' = d\<lparr>vehicles := vehicles d @ [v]\<rparr>"
    and fresh: "v_id v \<notin> v_id ` set (vehicles d)"
    and fkv: "v_profile_id v \<in> p_id ` set (profiles d)"
    by (auto simp: insert_vehicle_def split: if_splits)
  from c have pk: "primary_keys d" and fk: "foreign_keys d"
    and ck: "list_all images_exactly_one_parent (images d)"
    by (simp_all add: db_constraints_def)
  from pk fresh have pk': "primary_keys d'" by (simp add: primary_keys_def d')
  from fk fkv have fk': "foreign_keys d'" unfolding foreign_keys_iff d' by auto
  from pk' fk' ck have c': "db_constraints d'" by (simp add: db_constraints_def d')
  have "parent_owned_by d' i (i_profile_id i)" if "i \<in> set (images d')" for i
  proof -
    from that o pk have "parent_owned_by d i (i_profile_id i)"
      by (simp add: image_ownership_iff d')
    then show ?thesis by (rule owned_by_superset[rotated 2]) (auto simp: d')
  qed
  with pk' c' show ?thesis by (simp add: image_ownership_iff)
qed

lemma update_vehicle_inv:
  assumes c: "db_constraints d" and o: "image_ownership d"
    and r: "update_vehicle now_utc auth_uid vid new d = Inr d'"
  shows "db_constraints d' \<and> image_ownership d'"
proof (cases "find (\<lambda>v. v_id v = vid) (for_update_vehicles auth_uid d)")
  case None
  with r c o show ?thesis by (simp add: update_vehicle_def)
next
  case (Some old)
  define new' where "new' = new\<lparr>v_updated_at := now_utc\<rparr>"
  let ?vs = "map (\<lambda>v. if v_id v = vid then new' else v) (vehicles d)"
  from find_SomeD[OF Some] for_update_vehicles_SomeD[of old auth_uid d]
  have old: "old \<in> set (vehicles d)" "auth_uid = Some (v_profile_id old)" "v_id old = vid"
    by auto
  from r Some have own: "vehicles_owner auth_uid d new'"
    and uq: "v_id new' = vid \<or> v_id new' \<notin> v_id ` set (vehicles d)"
    and fkp: "v_profile_id new' \<in> p_id ` set (profiles d)"
    and ref: "v_id new' = vid
       \<or> (vid \<notin> m_vehicle_id ` set (mods d) \<and> Some vid \<notin> i_vehicle_id ` set (images d))"
    and d': "d' = d\<lparr>vehicles := ?vs\<rparr>"
    unfolding update_vehicle_def new'_def[symmetric] Let_def
    by (auto split: if_splits)
  from vehicles_owner_SomeD[OF own] old have same: "v_profile_id new' = v_profile_id old"
    by simp
  from c have pk: "primary_keys d" and fk: "foreign_keys d"
    and ck: "list_all images_exactly_one_parent (images d)"
    by (simp_all add: db_constraints_def)
  from pk have pkv: "distinct (map v_id (vehicles d))" by (simp add: primary_keys_def)
  have tabs: "profiles d' = profiles d" "vehicles d' = ?vs" "mods d' = mods d"
      "images d' = images d"
    by (simp_all add: d')
  have vin: "vid \<in> v_id ` set (vehicles d)" using old by auto
  have vset: "set ?vs = {v \<in> set (vehicles d). v_id v \<noteq> vid} \<union> {new'}"
    using vin by (simp add: replace_set del: set_map)
  from pk replace_distinct[OF pkv uq] have pk': "primary_keys d'"
    by (simp add: primary_keys_def tabs)
  have keepv: "vehicle_owned_by d' x u" if x: "vehicle_owned_by d x u" "v_id new' = vid \<or> x \<noteq> vid"
    for x u
  proof (cases "x = vid")
    case True
    from x(1) old True have "u = v_profile_id old"
      using vehicle_owned_by_unique[OF pkv, of vid u "v_profile_id old"]
      by (auto simp: vehicle_owned_by_def)
    with True x(2) same show ?thesis
      unfolding vehicle_owned_by_def tabs vset by auto
  next
    case False
    with x(1) show ?thesis unfolding vehicle_owned_by_def tabs vset by auto
  qed
  have keepk: "x \<in> v_id ` set (vehicles d')" if "x \<in> v_id ` set (vehicles d)" "v_id new' = vid \<or> x \<noteq> vid"
    for x
    using that unfolding tabs vset by auto
  have fk': "foreign_keys d'"
    unfolding foreign_keys_iff
  proof (intro conjI ballI allI impI)
    fix v assume "v \<in> set (vehicles d')"
    with fk fkp show "v_profile_id v \<in> p_id ` set (profiles d')"
      unfolding foreign_keys_iff tabs vset by auto
  next
    fix m assume m: "m \<in> set (mods d')"
    with fk have "m_vehicle_id m \<in> v_id ` set (vehicles d)"
      unfolding foreign_keys_iff tabs by blast
    moreover from m ref have "v_id new' = vid \<or> m_vehicle_id m \<noteq> vid"
      unfolding tabs by auto
    ultimately show "m_vehicle_id m \<in> v_id ` set (vehicles d')" by (rule keepk)
  next
    fix i assume "i \<in> set (images d')"
    with fk show "i_profile_id i \<in> p_id ` set (profiles d')"
      unfolding foreign_keys_iff tabs by blast
  next
    fix i v assume i: "i \<in> set (images d')" "i_vehicle_id i = Some v"
    with fk have "v \<in> v_id ` set (vehicles d)"
      unfolding foreign_keys_iff tabs by blast
    moreover from i ref have "v_id new' = vid \<or> v \<noteq> vid"
      unfolding tabs by (metis image_eqI)
    ultimately show "v \<in> v_id ` set (vehicles d')" by (rule keepk)
  next
    fix i m assume "i \<in> set (images d')" "i_mod_id i = Some m"
    with fk show "m \<in> m_id ` set (mods d')"
      unfolding foreign_keys_iff tabs by blast
  qed
  from pk' fk' ck have c': "db_constraints d'" by (simp add: db_constraints_def tabs)
  have "parent_owned_by d' i (i_profile_id i)" if i: "i \<in> set (images d')" for i
  proof -
    from i o pk have p: "parent_owned_by d i (i_profile_id i)"
      by (simp add: image_ownership_iff tabs)
    show ?thesis
    proof (rule parent_owned_by_mono[OF p])
      fix x assume x: "i_vehicle_id i = Some x" "vehicle_owned_by d x (i_profile_id i)"
      from i x(1) ref have "v_id new' = vid \<or> x \<noteq> vid"
        unfolding tabs by (metis image_eqI)
      with x(2) show "vehicle_owned_by d' x (i_profile_id i)" by (rule keepv)
    next
      fix mid assume "i_mod_id i = Some mid" "mod_owned_by d mid (i_profile_id i)"
      then obtain m where m: "m \<in> set (mods d)" "m_id m = mid"
          "vehicle_owned_by d (m_vehicle_id m) (i_profile_id i)"
        by (auto simp: mod_owned_by_def)
      from m(1) ref have "v_id new' = vid \<or> m_vehicle_id m \<noteq> vid" by auto
      with m(3) have "vehicle_owned_by d' (m_vehicle_id m) (i_profile_id i)" by (rule keepv)
      with m(1,2) show "mod_owned_by d' mid (i_profile_id i)"
        unfolding mod_owned_by_def tabs by auto
    qed
  qed
  with pk' c' show ?thesis by (simp add: image_ownership_iff)
qed

text \<open>Statements on \<open>mods\<close>.\<close>

lemma insert_mod_inv:
  assumes c: "db_constraints d" and o: "image_ownership d"
    and r: "insert_mod auth_uid m d = Inr d'"
  shows "db_constraints d' \<and> image_ownership d'"
proof -
  from r have d': "d' = d\<lparr>mods := mods d @ [m]\<rparr>"
    and fresh: "m_id m \<notin> m_id ` set (mods d)"
    and fkm: "m_vehicle_id m \<in> v_id ` set (vehicles d)"
    by (auto simp: insert_mod_def split: if_splits)
  from c have pk: "primary_keys d" and fk: "foreign_keys d"
    and ck: "list_all images_exactly_one_parent (images d)"
    by (simp_all add: db_constraints_def)
  from pk fresh have pk': "primary_keys d'" by (simp add: primary_keys_def d')
  from fk fkm have fk': "foreign_keys d'" unfolding foreign_keys_iff d' by auto
  from pk' fk' ck have c': "db_constraints d'" by (simp add: db_constraints_def d')
  have "parent_owned_by d' i (i_profile_id i)" if "i \<in> set (images d')" for i
  proof -
    from that o pk have "parent_owned_by d i (i_profile_id i)"
      by (simp add: image_ownership_iff d')
    then show ?thesis by (rule owned_by_superset[rotated 2]) (auto simp: d')
  qed
  with pk' c' show ?thesis by (simp add: image_ownership_iff)
qed

lemma update_mod_inv:
  assumes c: "db_constraints d" and o: "image_ownership d"
    and r: "update_mod now_utc auth_uid mid new d = Inr d'"
  shows "db_constraints d' \<and> image_ownership d'"
proof (cases "find (\<lambda>m. m_id m = mid) (for_update_mods auth_uid d)")
  case None
  with r c o show ?thesis by (simp add: update_mod_def)
next
  case (Some old)
  define new' where "new' = new\<lparr>m_updated_at := now_utc\<rparr>"
  let ?ms = "map (\<lambda>m. if m_id m = mid then new' else m) (mods d)"
  from find_SomeD[OF Some] for_update_mods_SomeD[of old auth_uid d]
  obtain u where old: "old \<in> set (mods d)" "m_id old = mid" "auth_uid = Some u"
      "vehicle_owned_by d (m_vehicle_id old) u"
    by auto
  from r Some have own: "mods_owner auth_uid d new'"
    and uq: "m_id new' = mid \<or> m_id new' \<notin> m_id ` set (mods d)"
    and fkv: "m_vehicle_id new' \<in> v_id ` set (vehicles d)"
    and ref: "m_id new' = mid \<or> Some mid \<notin> i_mod_id ` set (images d)"
    and d': "d' = d\<lparr>mods := ?ms\<rparr>"
    unfolding update_mod_def new'_def[symmetric] Let_def
    by (auto split: if_splits)
  from mods_owner_SomeD[OF own] old(3) have newo: "vehicle_owned_by d (m_vehicle_id new') u"
    by auto
  from c have pk: "primary_keys d" and fk: "foreign_keys d"
    and ck: "list_all images_exactly_one_parent (images d)"
    by (simp_all add: db_constraints_def)
  from pk have pkv: "distinct (map v_id (vehicles d))" and pkm: "distinct (map m_id (mods d))"
    by (simp_all add: primary_keys_def)
  have tabs: "profiles d' = profiles d" "vehicles d' = vehicles d" "mods d' = ?ms"
      "images d' = images d"
    by (simp_all add: d')
  have min: "mid \<in> m_id ` set (mods d)" using old by auto
  have mset: "set ?ms = {m \<in> set (mods d). m_id m \<noteq> mid} \<union> {new'}"
    using min by (simp add: replace_set del: set_map)
  from pk replace_distinct[OF pkm uq] have pk': "primary_keys d'"
    by (simp add: primary_keys_def tabs)
  have vsame: "vehicle_owned_by d' x w = vehicle_owned_by d x w" for x w
    by (simp add: vehicle_owned_by_def tabs)
  have keepm: "mod_owned_by d' x w" if x: "mod_owned_by d x w" "m_id new' = mid \<or> x \<noteq> mid"
    for x w
  proof (cases "x = mid")
    case True
    from x(1) obtain m where m: "m \<in> set (mods d)" "m_id m = x"
        "vehicle_owned_by d (m_vehicle_id m) w"
      by (auto simp: mod_owned_by_def)
    from pkey_inj[OF pkm m(1) old(1)] m(2) True old(2) have "m = old" by simp
    with m(3) old(4) have "w = u" using vehicle_owned_by_unique[OF pkv] by blast
    with True x(2) newo show ?thesis
      unfolding mod_owned_by_def vsame unfolding tabs mset by auto
  next
    case False
    with x(1) show ?thesis unfolding mod_owned_by_def vsame unfolding tabs mset by auto
  qed
  have keepk: "x \<in> m_id ` set (mods d')" if "x \<in> m_id ` set (mods d)" "m_id new' = mid \<or> x \<noteq> mid"
    for x
    using that unfolding tabs mset by auto
  have fk': "foreign_keys d'"
    unfolding foreign_keys_iff
  proof (intro conjI ballI allI impI)
    fix v assume "v \<in> set (vehicles d')"
    with fk show "v_profile_id v \<in> p_id ` set (profiles d')"
      unfolding foreign_keys_iff tabs by blast
  next
    fix m assume m: "m \<in> set (mods d')"
    with fk fkv show "m_vehicle_id m \<in> v_id ` set (vehicles d')"
      unfolding foreign_keys_iff tabs mset by auto
  next
    fix i assume "i \<in> set (images d')"
    with fk show "i_profile_id i \<in> p_id ` set (profiles d')"
      unfolding foreign_keys_iff tabs by blast
  next
    fix i v assume i: "i \<in> set (images d')" "i_vehicle_id i = Some v"
    with fk show "v \<in> v_id ` set (vehicles d')"
      unfolding foreign_keys_iff tabs by blast
  next
    fix i m assume i: "i \<in> set (images d')" "i_mod_id i = Some m"
    with fk have "m \<in> m_id ` set (mods d)"
      unfolding foreign_keys_iff tabs by blast
    moreover from i ref have "m_id new' = mid \<or> m \<noteq> mid"
      unfolding tabs by (metis image_eqI)
    ultimately show "m \<in> m_id ` set (mods d')" by (rule keepk)
  qed
  from pk' fk' ck have c': "db_constraints d'" by (simp add: db_constraints_def tabs)
  have "parent_owned_by d' i (i_profile_id i)" if i: "i \<in> set (images d')" for i
  proof -
    from i o pk have p: "parent_owned_by d i (i_profile_id i)"
      by (simp add: image_ownership_iff tabs)
    show ?thesis
    proof (rule parent_owned_by_mono[OF p])
      fix x assume "i_vehicle_id i = Some x" "vehicle_owned_by d x (i_profile_id i)"
      then show "vehicle_owned_by d' x (i_profile_id i)" by (simp add: vsame)
    next
      fix x assume x: "i_mod_id i = Some x" "mod_owned_by d x (i_profile_id i)"
      from i x(1) ref have "m_id new' = mid \<or> x \<noteq> mid"
        unfolding tabs by (metis image_eqI)
      with x(2) show "mod_owned_by d' x (i_profile_id i)" by (rule keepm)
    qed
  qed
  with pk' c' show ?thesis by (simp add: image_ownership_iff)
qed

lemma delete_mod_inv:
  assumes c: "db_constraints d" and o: "image_ownership d"
    and r: "delete_mod auth_uid mid d = Inr d'"
  shows "db_constraints d' \<and> image_ownership d'"
proof (cases "find (\<lambda>m. m_id m = mid) (for_update_mods auth_uid d)")
  case None
  with r c o show ?thesis by (simp add: delete_mod_def)
next
  case (Some old)
  with r have d': "d' = d\<lparr>mods := filter (\<lambda>m. m_id m \<noteq> mid) (mods d),
                          images := filter (\<lambda>i. i_mod_id i \<noteq> Some mid) (images d)\<rparr>"
    by (simp add: delete_mod_def)
  have tabs: "profiles d' = profiles d" "vehicles d' = vehicles d"
      "mods d' = filter (\<lambda>m. m_id m \<noteq> mid) (mods d)"
      "images d' = filter (\<lambda>i. i_mod_id i \<noteq> Some mid) (images d)"
    by (simp_all add: d')
  from c have pk: "primary_keys d" and fk: "foreign_keys d"
    and ck: "list_all images_exactly_one_parent (images d)"
    by (simp_all add: db_constraints_def)
  from pk have pk': "primary_keys d'"
    by (simp add: primary_keys_def tabs distinct_map_filter)
  have fk': "foreign_keys d'"
    unfolding foreign_keys_iff
  proof (intro conjI ballI allI impI)
    fix v assume "v \<in> set (vehicles d')"
    with fk show "v_profile_id v \<in> p_id ` set (profiles d')"
      unfolding foreign_keys_iff tabs by blast
  next
    fix m assume "m \<in> set (mods d')"
    with fk show "m_vehicle_id m \<in> v_id ` set (vehicles d')"
      unfolding foreign_keys_iff tabs by auto
  next
    fix i assume "i \<in> set (images d')"
    with fk show "i_profile_id i \<in> p_id ` set (profiles d')"
      unfolding foreign_keys_iff tabs by auto
  next
    fix i v assume "i \<in> set (images d')" "i_vehicle_id i = Some v"
    with fk show "v \<in> v_id ` set (vehicles d')"
      unfolding foreign_keys_iff tabs by auto
  next
    fix i m assume i: "i \<in> set (images d')" "i_mod_id i = Some m"
    then have "i \<in> set (images d)" "m \<noteq> mid" by (auto simp: tabs)
    with fk i(2) have "m \<in> m_id ` set (mods d)" "m \<noteq> mid"
      unfolding foreign_keys_iff by blast+
    then show "m \<in> m_id ` set (mods d')" unfolding tabs by auto
  qed
  from pk' fk' ck have c': "db_constraints d'"
    by (simp add: db_constraints_def tabs list_all_iff)
  have "parent_owned_by d' i (i_profile_id i)" if i: "i \<in> set (images d')" for i
  proof -
    from i o pk have p: "parent_owned_by d i (i_profile_id i)"
      by (simp add: image_ownership_iff tabs)
    show ?thesis
    proof (rule parent_owned_by_mono[OF p])
      fix x assume "i_vehicle_id i = Some x" "vehicle_owned_by d x (i_profile_id i)"
      then show "vehicle_owned_by d' x (i_profile_id i)"
        by (simp add: vehicle_owned_by_def tabs)
    next
      fix x assume x: "i_mod_id i = Some x" "mod_owned_by d x (i_profile_id i)"
      with i have "x \<noteq> mid" by (auto simp: tabs)
      with x(2) show "mod_owned_by d' x (i_profile_id i)"
        by (auto simp: mod_owned_by_def vehicle_owned_by_def tabs)
    qed
  qed
  with pk' c' show ?thesis by (simp add: image_ownership_iff)
qed

text \<open>Statements on \<open>images\<close>.\<close>

lemma image_row_constraints_NoneD:
  assumes "image_row_constraints replaced i d = None"
  shows "images_exactly_one_parent i"
    and "Some (i_id i) = replaced \<or> i_id i \<notin> i_id ` set (images d)"
    and "i_profile_id i \<in> p_id ` set (profiles d)"
    and "\<forall>v. i_vehicle_id i = Some v \<longrightarrow> v \<in> v_id ` set (vehicles d)"
    and "\<forall>m. i_mod_id i = Some m \<longrightarrow> m \<in> m_id ` set (mods d)"
  using assms unfolding image_row_constraints_def case_option_all
  by (auto simp: case_option_all split: if_splits option.splits)

lemma insert_image_inv:
  assumes c: "db_constraints d" and o: "image_ownership d"
    and r: "insert_image auth_uid i d = Inr d'"
  shows "db_constraints d' \<and> image_ownership d'"
proof -
  from r have own: "images_owner auth_uid d i"
    and rc: "image_row_constraints None i d = None"
    and d': "d' = d\<lparr>images := images d @ [i]\<rparr>"
    by (auto simp: insert_image_def split: if_splits option.splits)
  note k = image_row_constraints_NoneD[OF rc]
  from c have pk: "primary_keys d" and fk: "foreign_keys d"
    and ck: "list_all images_exactly_one_parent (images d)"
    by (simp_all add: db_constraints_def)
  from pk k(2) have pk': "primary_keys d'" by (simp add: primary_keys_def d')
  from fk k(3,4,5) have fk': "foreign_keys d'" unfolding foreign_keys_iff d' by auto
  from pk' fk' ck k(1) have c': "db_constraints d'" by (simp add: db_constraints_def d')
  have "parent_owned_by d' j (i_profile_id j)" if j: "j \<in> set (images d')" for j
  proof -
    from j have "j \<in> set (images d) \<or> j = i" by (auto simp: d')
    with o pk images_owner_SomeD[OF own k(1)] have "parent_owned_by d j (i_profile_id j)"
      by (auto simp: image_ownership_iff)
    moreover have "parent_owned_by d' j (i_profile_id j) = parent_owned_by d j (i_profile_id j)"
      by (rule parent_owned_by_cong) (simp_all add: d')
    ultimately show ?thesis by simp
  qed
  with pk' c' show ?thesis by (simp add: image_ownership_iff)
qed

lemma update_image_inv:
  assumes c: "db_constraints d" and o: "image_ownership d"
    and r: "update_image auth_uid iid new d = Inr d'"
  shows "db_constraints d' \<and> image_ownership d'"
proof (cases "find (\<lambda>i. i_id i = iid) (for_update_images auth_uid d)")
  case None
  with r c o show ?thesis by (simp add: update_image_def)
next
  case (Some old)
  let ?is = "map (\<lambda>i. if i_id i = iid then new else i) (images d)"
  from r Some have own: "images_owner auth_uid d new"
    and rc: "image_row_constraints (Some iid) new d = None"
    and d': "d' = d\<lparr>images := ?is\<rparr>"
    by (auto simp: update_image_def split: if_splits option.splits)
  note k = image_row_constraints_NoneD[OF rc]
  from c have pk: "primary_keys d" and fk: "foreign_keys d"
    and ck: "list_all images_exactly_one_parent (images d)"
    by (simp_all add: db_constraints_def)
  from pk have pki: "distinct (map i_id (images d))" by (simp add: primary_keys_def)
  from k(2) have uq: "i_id new = iid \<or> i_id new \<notin> i_id ` set (images d)" by auto
  have tabs: "profiles d' = profiles d" "vehicles d' = vehicles d" "mods d' = mods d"
      "images d' = ?is"
    by (simp_all add: d')
  have sub: "j \<in> set (images d) \<or> j = new" if "j \<in> set (images d')" for j
    using that unfolding tabs replace_set by (auto split: if_splits)
  from pk replace_distinct[OF pki uq] have pk': "primary_keys d'"
    by (simp add: primary_keys_def tabs)
  have fk': "foreign_keys d'"
    unfolding foreign_keys_iff
  proof (intro conjI ballI)
    fix v assume "v \<in> set (vehicles d')"
    with fk show "v_profile_id v \<in> p_id ` set (profiles d')"
      unfolding foreign_keys_iff tabs by blast
  next
    fix m assume "m \<in> set (mods d')"
    with fk show "m_vehicle_id m \<in> v_id ` set (vehicles d')"
      unfolding foreign_keys_iff tabs by blast
  next
    fix j assume "j \<in> set (images d')"
    from sub[OF this] fk k(3,4,5)
    show "i_profile_id j \<in> p_id ` set (profiles d')"
      "\<forall>v. i_vehicle_id j = Some v \<longrightarrow> v \<in> v_id ` set (vehicles d')"
      "\<forall>m. i_mod_id j = Some m \<longrightarrow> m \<in> m_id ` set (mods d')"
      unfolding foreign_keys_iff tabs by blast+
  qed
  have ck': "list_all images_exactly_one_parent (images d')"
    unfolding list_all_iff using sub ck k(1) by (auto simp: list_all_iff)
  from pk' fk' ck' have c': "db_constraints d'" by (simp add: db_constraints_def)
  have "parent_owned_by d' j (i_profile_id j)" if j: "j \<in> set (images d')" for j
  proof -
    from sub[OF j] o pk images_owner_SomeD[OF own k(1)]
    have "parent_owned_by d j (i_profile_id j)"
      by (auto simp: image_ownership_iff)
    then show ?thesis by (simp add: parent_owned_by_cong[of d' d] tabs)
  qed
  with pk' c' show ?thesis by (simp add: image_ownership_iff)
qed

lemma delete_image_inv:
  assumes c: "db_constraints d" and o: "image_ownership d"
    and r: "delete_image auth_uid iid d = Inr d'"
  shows "db_constraints d' \<and> image_ownership d'"
proof (cases "find (\<lambda>i. i_id i = iid) (for_update_images auth_uid d)")
  case None
  with r c o show ?thesis by (simp add: delete_image_def)
next
  case (Some old)
  with r have d': "d' = d\<lparr>images := filter (\<lambda>i. i_id i \<noteq> iid) (images d)\<rparr>"
    by (simp add: delete_image_def)
  from c have pk: "primary_keys d" and fk: "foreign_keys d"
    and ck: "list_all images_exactly_one_parent (images d)"
    by (simp_all add: db_constraints_def)
  from pk have pk': "primary_keys d'"
    by (simp add: primary_keys_def d' distinct_map_filter)
  from fk have fk': "foreign_keys d'" unfolding foreign_keys_iff d' by auto
  from pk' fk' ck have c': "db_constraints d'"
    by (simp add: db_constraints_def d' list_all_iff)
  have "parent_owned_by d' j (i_profile_id j)" if j: "j \<in> set (images d')" for j
  proof -
    from j o pk have "parent_owned_by d j (i_profile_id j)"
      by (simp add: image_ownership_iff d')
    moreover have "parent_owned_by d' j (i_profile_id j) = parent_owned_by d j (i_profile_id j)"
      by (rule parent_owned_by_cong) (simp_all add: d')
    ultimately show ?thesis by simp
  qed
  with pk' c' show ?thesis by (simp add: image_ownership_iff)
qed

text \<open>Reorders: the rows keep their keys and their parents.\<close>

lemma vehicles_map_inv:
  assumes c: "db_constraints d" and o: "image_ownership d"
    and g: "\<And>v. v_id (g v) = v_id v" "\<And>v. v_profile_id (g v) = v_profile_id v"
  shows "db_constraints (d\<lparr>vehicles := map g (vehicles d)\<rparr>)
       \<and> image_ownership (d\<lparr>vehicles := map g (vehicles d)\<rparr>)"
proof -
  let ?d = "d\<lparr>vehicles := map g (vehicles d)\<rparr>"
  have ids: "map v_id (map g (vehicles d)) = map v_id (vehicles d)"
    by (simp add: g o_def)
  then have ids': "v_id ` set (map g (vehicles d)) = v_id ` set (vehicles d)"
    by (metis list.set_map)
  from c have pk: "primary_keys d" and fk: "foreign_keys d"
    and ck: "list_all images_exactly_one_parent (images d)"
    by (simp_all add: db_constraints_def)
  from pk have pk': "primary_keys ?d" by (simp add: primary_keys_def g o_def)
  from fk have fk': "foreign_keys ?d"
    unfolding foreign_keys_iff by (simp add: ids' g del: set_map) (simp add: g)
  from pk' fk' ck have c': "db_constraints ?d" by (simp add: db_constraints_def)
  have vsame: "vehicle_owned_by ?d x u = vehicle_owned_by d x u" for x u
    by (auto simp: vehicle_owned_by_def g)
  have "parent_owned_by ?d i (i_profile_id i)" if i: "i \<in> set (images ?d)" for i
  proof -
    from i o pk have p: "parent_owned_by d i (i_profile_id i)"
      by (simp add: image_ownership_iff)
    then show ?thesis
      by (rule parent_owned_by_mono) (simp_all add: vsame mod_owned_by_def)
  qed
  with pk' c' show ?thesis by (simp add: image_ownership_iff)
qed

lemma mods_map_inv:
  assumes c: "db_constraints d" and o: "image_ownership d"
    and g: "\<And>m. m_id (g m) = m_id m" "\<And>m. m_vehicle_id (g m) = m_vehicle_id m"
  shows "db_constraints (d\<lparr>mods := map g (mods d)\<rparr>)
       \<and> image_ownership (d\<lparr>mods := map g (mods d)\<rparr>)"
proof -
  let ?d = "d\<lparr>mods := map g (mods d)\<rparr>"
  have ids: "map m_id (map g (mods d)) = map m_id (mods d)"
    by (simp add: g o_def)
  then have ids': "m_id ` set (map g (mods d)) = m_id ` set (mods d)"
    by (metis list.set_map)
  from c have pk: "primary_keys d" and fk: "foreign_keys d"
    and ck: "list_all images_exactly_one_parent (images d)"
    by (simp_all add: db_constraints_def)
  from pk have pk': "primary_keys ?d" by (simp add: primary_keys_def g o_def)
  from fk have fk': "foreign_keys ?d"
    unfolding foreign_keys_iff by (simp add: ids' g del: set_map) (simp add: g)
  from pk' fk' ck have c': "db_constraints ?d" by (simp add: db_constraints_def)
  have vsame: "vehicle_owned_by ?d x u = vehicle_owned_by d x u" for x u
    by (simp add: vehicle_owned_by_def)
  have msame: "mod_owned_by ?d x u = mod_owned_by d x u" for x u
    by (auto simp: mod_owned_by_def vsame g)
  have "parent_owned_by ?d i (i_profile_id i)" if i: "i \<in> set (images ?d)" for i
  proof -
    from i o pk have p: "parent_owned_by d i (i_profile_id i)"
      by (simp add: image_ownership_iff)
    then show ?thesis
      by (rule parent_owned_by_mono) (simp_all add: vsame msame)
  qed
  with pk' c' show ?thesis by (simp add: image_ownership_iff)
qed

lemma reorder_vehicle_swap_result:
  assumes r: "reorder_vehicle_swap now_utc auth_uid p_vehicle_id p_direction d = Inr (outcome, d')"
  shows "d' = d
       \<or> (\<exists>g. (\<forall>v. v_id (g v) = v_id v \<and> v_profile_id (g v) = v_profile_id v)
              \<and> d' = d\<lparr>vehicles := map g (vehicles d)\<rparr>)"
proof (cases auth_uid)
  case None
  with r show ?thesis by (auto simp: reorder_vehicle_swap_def split: if_splits)
next
  case (Some u)
  let ?fu = "for_update_vehicles (Some u) d"
  show ?thesis
  proof (cases "select_into
      (filter (\<lambda>v. Some (v_id v) = p_vehicle_id \<and> v_profile_id v = u) ?fu)")
    case None
    with r Some show ?thesis by (auto simp: reorder_vehicle_swap_def split: if_splits)
  next
    case a: (Some a)
    show ?thesis
    proof (cases "select_into
       (if p_direction = Some ''up''
        then limit_1 (order_by_desc vehicle_order_key
               (filter (\<lambda>v. v_profile_id v = u \<and> vehicle_before v a) ?fu))
        else limit_1 (order_by_asc vehicle_order_key
               (filter (\<lambda>v. v_profile_id v = u \<and> vehicle_after v a) ?fu)))")
      case None
      with r Some a show ?thesis by (auto simp: reorder_vehicle_swap_def split: if_splits)
    next
      case b: (Some b)
      let ?g = "\<lambda>v. if v \<in> set ?fu \<and> v_id v \<in> {v_id a, v_id b} \<and> v_profile_id v = u
                   then v\<lparr>v_sort_order :=
                            (if v_id v = v_id a then v_sort_order b
                             else if v_id v = v_id b then v_sort_order a
                             else v_sort_order v),
                          v_updated_at := now_utc\<rparr>
                   else v"
      from r Some a b have d': "d' = d\<lparr>vehicles := map ?g (vehicles d)\<rparr>"
        by (auto simp: reorder_vehicle_swap_def split: if_splits)
      have g: "\<forall>v. v_id (?g v) = v_id v \<and> v_profile_id (?g v) = v_profile_id v"
        by simp
      show ?thesis by (rule disjI2, rule exI[of _ ?g], rule conjI[OF g d'])
    qed
  qed
qed

lemma reorder_mod_swap_result:
  assumes r: "reorder_mod_swap now_utc auth_uid p_vehicle_id p_mod_id p_direction d
                = Inr (outcome, d')"
  shows "d' = d
       \<or> (\<exists>g. (\<forall>m. m_id (g m) = m_id m \<and> m_vehicle_id (g m) = m_vehicle_id m)
              \<and> d' = d\<lparr>mods := map g (mods d)\<rparr>)"
proof (cases auth_uid)
  case None
  with r show ?thesis by (auto simp: reorder_mod_swap_def split: if_splits)
next
  case (Some u)
  let ?fu = "for_update_mods (Some u) d"
  show ?thesis
  proof (cases "select_into
      (filter (\<lambda>m. (\<exists>v \<in> set (select_vehicles (Some u) d).
                       v_id v = m_vehicle_id m \<and> v_profile_id v = u)
                   \<and> Some (m_id m) = p_mod_id
                   \<and> Some (m_vehicle_id m) = p_vehicle_id) ?fu)")
    case None
    with r Some show ?thesis by (auto simp: reorder_mod_swap_def split: if_splits)
  next
    case a: (Some a)
    show ?thesis
    proof (cases "select_into
       (if p_direction = Some ''up''
        then limit_1 (order_by_desc mod_order_key
               (filter (\<lambda>m. Some (m_vehicle_id m) = p_vehicle_id \<and> mod_before m a) ?fu))
        else limit_1 (order_by_asc mod_order_key
               (filter (\<lambda>m. Some (m_vehicle_id m) = p_vehicle_id \<and> mod_after m a) ?fu)))")
      case None
      with r Some a show ?thesis by (auto simp: reorder_mod_swap_def split: if_splits)
    next
      case b: (Some b)
      let ?g = "\<lambda>m. if m \<in> set ?fu \<and> m_id m \<in> {m_id a, m_id b}
                       \<and> Some (m_vehicle_id m) = p_vehicle_id
                   then m\<lparr>m_sort_order :=
                            (if m_id m = m_id a then m_sort_order b
                             else if m_id m = m_id b then m_sort_order a
                             else m_sort_order m),
                          m_updated_at := now_utc\<rparr>
                   else m"
      from r Some a b have d': "d' = d\<lparr>mods := map ?g (mods d)\<rparr>"
        by (auto simp: reorder_mod_swap_def split: if_splits)
      have g: "\<forall>m. m_id (?g m) = m_id m \<and> m_vehicle_id (?g m) = m_vehicle_id m"
        by simp
      show ?thesis by (rule disjI2, rule exI[of _ ?g], rule conjI[OF g d'])
    qed
  qed
qed

text \<open>Every statement keeps the constraints and the ownership of images.\<close>

lemma exec_dml_inv:
  assumes c: "db_constraints d" and o: "image_ownership d"
    and r: "exec_dml now_utc auth_uid stmt d = Inr d'"
  shows "db_constraints d' \<and> image_ownership d'"
proof (cases stmt)
  case (InsertProfile p)
  with r insert_profile_inv[OF c o] show ?thesis by simp
next
  case (UpdateProfile pid p)
  with r update_profile_inv[OF c o] show ?thesis by simp
next
  case (DeleteProfile pid)
  with r delete_profile_inv[OF c o] show ?thesis by simp
next
  case (InsertVehicle v)
  with r insert_vehicle_inv[OF c o] show ?thesis by simp
next
  case (UpdateVehicle vid v)
  with r update_vehicle_inv[OF c o] show ?thesis by simp
next
  case (DeleteVehicle vid)
  with r delete_vehicle_inv[OF c o] show ?thesis by simp
next
  case (InsertMod m)
  with r insert_mod_inv[OF c o] show ?thesis by simp
next
  case (UpdateMod mid m)
  with r update_mod_inv[OF c o] show ?thesis by simp
next
  case (DeleteMod mid)
  with r delete_mod_inv[OF c o] show ?thesis by simp
next
  case (InsertImage i)
  with r insert_image_inv[OF c o] show ?thesis by simp
next
  case (UpdateImage iid i)
  with r update_image_inv[OF c o] show ?thesis by simp
next
  case (DeleteImage iid)
  with r delete_image_inv[OF c o] show ?thesis by simp
next
  case (ReorderVehicle pv pd)
  with r obtain outcome where
    "reorder_vehicle_swap now_utc auth_uid pv pd d = Inr (outcome, d')"
    by (auto split: sum.splits)
  from reorder_vehicle_swap_result[OF this] c o vehicles_map_inv[OF c o]
  show ?thesis by blast
next
  case (ReorderMod pv pm pd)
  with r obtain outcome where
    "reorder_mod_swap now_utc auth_uid pv pm pd d = Inr (outcome, d')"
    by (auto split: sum.splits)
  from reorder_mod_swap_result[OF this] c o mods_map_inv[OF c o]
  show ?thesis by blast
next
  case (SignUp p)
  with r sign_up_inv[OF c o] show ?thesis by simp
next
  case (RemoveUser pid)
  with r cascade_delete_profile_inv[OF c o, of pid] show ?thesis by auto
qed

lemma empty_db_inv: "db_constraints empty_db \<and> image_ownership empty_db"
  by (simp add: empty_db_def db_constraints_def primary_keys_def foreign_keys_def
      image_ownership_def)

lemma reachable_inv: "reachable d \<Longrightarrow> db_constraints d \<and> image_ownership d"
proof (induction rule: reachable.induct)
  case reachable_empty
  show ?case by (rule empty_db_inv)
next
  case (reachable_step d now_utc auth_uid stmt d')
  then show ?case using exec_dml_inv by blast
qed

subsection \<open>Writes to images\<close>

lemma replay_reachable:
  "reachable d \<Longrightarrow> replay now_utc stmts d = Inr d' \<Longrightarrow> reachable d'"
proof (induction stmts arbitrary: d)
  case Nil
  then show ?case by simp
next
  case (Cons s stmts)
  obtain auth_uid stmt where s: "s = (auth_uid, stmt)" by (cases s)
  from Cons.prems(2) s obtain d1 where d1: "exec_dml now_utc auth_uid stmt d = Inr d1"
      "replay now_utc stmts d1 = Inr d'"
    by (auto split: sum.splits)
  from reachable_step[OF Cons.prems(1) d1(1)] d1(2) show ?case by (rule Cons.IH)
qed

lemma images_owner_parent:
  assumes pk: "primary_keys d" and own: "images_owner (Some u) d i"
    and ck: "images_exactly_one_parent i"
  shows "i_profile_id i = u \<and> image_parent_owner d i = Some u"
  using images_owner_SomeD[OF own ck] image_parent_owner_iff[OF pk, of i u] by auto

lemma images_owner_foreign_mod:
  assumes pk: "primary_keys d"
    and m: "m \<in> set (mods d)" "i_mod_id i = Some (m_id m)"
    and v: "v \<in> set (vehicles d)" "v_id v = m_vehicle_id m" "v_profile_id v \<noteq> u"
    and own: "images_owner (Some u) d i"
  shows "i_vehicle_id i \<noteq> None"
proof
  assume none: "i_vehicle_id i = None"
  from pk have pkv: "distinct (map v_id (vehicles d))" and pkm: "distinct (map m_id (mods d))"
    by (simp_all add: primary_keys_def)
  from own none m(2) obtain m' v' where
    m': "m' \<in> set (mods d)" "m_id m' = m_id m"
    and v': "v' \<in> set (vehicles d)" "v_id v' = m_vehicle_id m'" "v_profile_id v' = u"
    unfolding images_owner_def select_mods_def select_vehicles_def by auto
  from pkey_inj[OF pkm m'(1) m(1) m'(2)] have "m' = m" .
  with v' v(2) have "v_id v' = v_id v" by simp
  from pkey_inj[OF pkv v'(1) v(1) this] v'(3) v(3) show False by simp
qed

text \<open>
  Claim C1. For an authenticated caller \<open>u\<close> and a database that meets the
  constraints of the schema: the expression of the owner policies of \<open>images\<close> holds
  of a row with exactly one parent only if the row's \<open>profile_id\<close> is \<open>u\<close> and the root
  owner of the parent it links is \<open>u\<close>; an insert that succeeds, and an update that
  reaches a row and succeeds, wrote such a row; an insert or update whose
  \<open>profile_id\<close> is the caller but whose \<open>mod_id\<close> is a mod of a vehicle of another
  profile is refused (by the policy, or by the check constraint when the row also names
  a vehicle); and in every state reached from the empty database by statements under
  the policies, sign-ups and removals of users, the \<open>profile_id\<close> of every image is the
  root owner of its parent.
\<close>

theorem images_owner_write_ownership:
  "(db_constraints d \<and> images_exactly_one_parent i \<and> images_owner (Some u) d i \<longrightarrow>
      i_profile_id i = u \<and> image_parent_owner d i = Some u)
   \<and> (db_constraints d \<and> insert_image (Some u) i d = Inr d' \<longrightarrow>
        i_profile_id i = u \<and> image_parent_owner d i = Some u \<and> images d' = images d @ [i])
   \<and> (db_constraints d \<and> old \<in> set (for_update_images (Some u) d)
        \<and> update_image (Some u) (i_id old) i d = Inr d' \<longrightarrow>
        i_profile_id i = u \<and> image_parent_owner d i = Some u \<and> i \<in> set (images d'))
   \<and> (db_constraints d \<and> i_profile_id i = u \<and> i_mod_id i = Some (m_id m)
        \<and> m \<in> set (mods d) \<and> v \<in> set (vehicles d) \<and> v_id v = m_vehicle_id m
        \<and> v_profile_id v \<noteq> u \<longrightarrow>
        insert_image (Some u) i d \<in> {Inl RlsViolation, Inl CheckViolation}
        \<and> (i_vehicle_id i = None \<longrightarrow> insert_image (Some u) i d = Inl RlsViolation)
        \<and> (old \<in> set (for_update_images (Some u) d) \<longrightarrow>
              update_image (Some u) (i_id old) i d \<in> {Inl RlsViolation, Inl CheckViolation}))
   \<and> (reachable r \<longrightarrow>
        db_constraints r
        \<and> (\<forall>j \<in> set (images r). image_parent_owner r j = Some (i_profile_id j)))"
proof (intro conjI impI; (elim conjE)?)
  assume c: "db_constraints d" and ck: "images_exactly_one_parent i"
    and own: "images_owner (Some u) d i"
  from c have pk: "primary_keys d" by (simp add: db_constraints_def)
  from images_owner_parent[OF pk own ck]
  show "i_profile_id i = u" "image_parent_owner d i = Some u" by simp_all
next
  assume c: "db_constraints d" and r: "insert_image (Some u) i d = Inr d'"
  from c have pk: "primary_keys d" by (simp add: db_constraints_def)
  from r have own: "images_owner (Some u) d i"
    and rc: "image_row_constraints None i d = None"
    and d': "d' = d\<lparr>images := images d @ [i]\<rparr>"
    by (auto simp: insert_image_def split: if_splits option.splits)
  from images_owner_parent[OF pk own image_row_constraints_NoneD(1)[OF rc]] d'
  show "i_profile_id i = u" "image_parent_owner d i = Some u" "images d' = images d @ [i]"
    by simp_all
next
  assume c: "db_constraints d" and old: "old \<in> set (for_update_images (Some u) d)"
    and r: "update_image (Some u) (i_id old) i d = Inr d'"
  from c have pk: "primary_keys d" by (simp add: db_constraints_def)
  from old obtain o' where f: "find (\<lambda>j. i_id j = i_id old) (for_update_images (Some u) d) = Some o'"
    by (cases "find (\<lambda>j. i_id j = i_id old) (for_update_images (Some u) d)")
      (auto simp: find_None_iff)
  from find_SomeD[OF f] have o': "o' \<in> set (images d)" "i_id o' = i_id old"
    by (auto simp: for_update_images_def select_images_def)
  from r f have own: "images_owner (Some u) d i"
    and rc: "image_row_constraints (Some (i_id old)) i d = None"
    and d': "d' = d\<lparr>images := map (\<lambda>j. if i_id j = i_id old then i else j) (images d)\<rparr>"
    by (auto simp: update_image_def split: if_splits option.splits)
  from o' have "i_id old \<in> i_id ` set (images d)" by (metis image_eqI)
  then have "i \<in> set (map (\<lambda>j. if i_id j = i_id old then i else j) (images d))"
    unfolding replace_set by simp
  with images_owner_parent[OF pk own image_row_constraints_NoneD(1)[OF rc]] d'
  show "i_profile_id i = u" "image_parent_owner d i = Some u" "i \<in> set (images d')"
    by simp_all
next
  assume c: "db_constraints d" and p: "i_profile_id i = u" and mi: "i_mod_id i = Some (m_id m)"
    and m: "m \<in> set (mods d)" and v: "v \<in> set (vehicles d)" "v_id v = m_vehicle_id m"
      "v_profile_id v \<noteq> u"
  from c have pk: "primary_keys d" by (simp add: db_constraints_def)
  note foreign = images_owner_foreign_mod[OF pk m mi v]
  have both: "\<not> images_exactly_one_parent i" if "images_owner (Some u) d i"
    using foreign[OF that] mi by (simp add: images_exactly_one_parent_def)
  show "insert_image (Some u) i d \<in> {Inl RlsViolation, Inl CheckViolation}"
    using both by (auto simp: insert_image_def image_row_constraints_def)
  show "insert_image (Some u) i d = Inl RlsViolation" if "i_vehicle_id i = None"
    using foreign that by (auto simp: insert_image_def)
  show "update_image (Some u) (i_id old) i d \<in> {Inl RlsViolation, Inl CheckViolation}"
    if old: "old \<in> set (for_update_images (Some u) d)"
  proof -
    from old obtain o' where
      "find (\<lambda>j. i_id j = i_id old) (for_update_images (Some u) d) = Some o'"
      by (cases "find (\<lambda>j. i_id j = i_id old) (for_update_images (Some u) d)")
        (auto simp: find_None_iff)
    with both show ?thesis by (auto simp: update_image_def image_row_constraints_def)
  qed
next
  assume "reachable r"
  from reachable_inv[OF this] have c: "db_constraints r" and o: "image_ownership r"
    by simp_all
  from o show "db_constraints r"
      "\<forall>j \<in> set (images r). image_parent_owner r j = Some (i_profile_id j)"
    using c by (simp_all add: image_ownership_def list_all_iff)
qed

theorem images_owner_write_ownership_witness:
  "reachable garage_shared
   \<and> db_constraints garage_shared
   \<and> image_parent_owner garage_shared (images garage_shared ! 1) = Some 7
   \<and> insert_image (Some 7) own_image garage_shared
        = Inr (garage_shared\<lparr>images := images garage_shared @ [own_image]\<rparr>)
   \<and> image_parent_owner garage_shared own_image = Some 7
   \<and> update_image (Some 7) 21 own_image garage_shared
        = Inr (garage_shared\<lparr>images := [own_image, images garage_shared ! 1]\<rparr>)
   \<and> insert_image (Some 7) foreign_image garage_shared = Inl RlsViolation
   \<and> update_image (Some 7) 21 foreign_image garage_shared
        \<in> {Inl RlsViolation, Inl CheckViolation}"
proof -
  have run: "replay 0 garage_shared_history empty_db = Inr garage_shared"
    by code_simp
  from replay_reachable[OF reachable_empty run] have re: "reachable garage_shared" .
  have c: "db_constraints garage_shared"
    by code_simp
  have ins: "insert_image (Some 7) own_image garage_shared
        = Inr (garage_shared\<lparr>images := images garage_shared @ [own_image]\<rparr>)"
    by code_simp
  have upd: "update_image (Some 7) 21 own_image garage_shared
        = Inr (garage_shared\<lparr>images := [own_image, images garage_shared ! 1]\<rparr>)"
    by code_simp
  have old: "images garage_shared ! 0 \<in> set (for_update_images (Some 7) garage_shared)"
      "i_id (images garage_shared ! 0) = 21"
    by code_simp+
  have m: "mods garage_shared ! 2 \<in> set (mods garage_shared)"
      "vehicles garage_shared ! 3 \<in> set (vehicles garage_shared)"
      "i_profile_id foreign_image = 7"
      "i_mod_id foreign_image = Some (m_id (mods garage_shared ! 2))"
      "v_id (vehicles garage_shared ! 3) = m_vehicle_id (mods garage_shared ! 2)"
      "v_profile_id (vehicles garage_shared ! 3) \<noteq> 7"
      "i_vehicle_id foreign_image = None"
    by code_simp+
  have j: "images garage_shared ! 1 \<in> set (images garage_shared)"
      "i_profile_id (images garage_shared ! 1) = 7"
    by code_simp+
  note good = images_owner_write_ownership[of garage_shared own_image 7
      "garage_shared\<lparr>images := images garage_shared @ [own_image]\<rparr>"
      "images garage_shared ! 0" "mods garage_shared ! 2" "vehicles garage_shared ! 3"
      garage_shared]
  note bad = images_owner_write_ownership[of garage_shared foreign_image 7
      garage_shared "images garage_shared ! 0" "mods garage_shared ! 2"
      "vehicles garage_shared ! 3" garage_shared]
  from good c ins have g1: "image_parent_owner garage_shared own_image = Some 7" by blast
  from good re j have g2: "image_parent_owner garage_shared (images garage_shared ! 1) = Some 7"
    by metis
  from bad c m have b1: "insert_image (Some 7) foreign_image garage_shared = Inl RlsViolation"
    by blast
  from bad c m old(1) have "update_image (Some 7) (i_id (images garage_shared ! 0))
        foreign_image garage_shared \<in> {Inl RlsViolation, Inl CheckViolation}"
    by blast
  then have b2: "update_image (Some 7) 21 foreign_image garage_shared
        \<in> {Inl RlsViolation, Inl CheckViolation}"
    by (simp only: old(2))
  from re c g2 ins g1 upd b1 b2 show ?thesis by (intro conjI)
qed

end
